(* ===== verification/Prelude.thy ===== *)
theory Prelude
  imports Complex_Main "HOL-Library.Word" "HOL-Library.Sublist" "HOL-Library.Multiset"
begin

text \<open>
  What every component shares: the machine integer types, Rust panics as values
  (\<open>outcome\<close>), the arithmetic and indexing operations of the language that can panic, and
  the generic lemmas on words and lists the components use.

  Integers are kept at their width: \<open>u8\<close>, \<open>u16\<close>, \<open>u32\<close>, \<open>u64\<close> and \<open>usize\<close> (64 bits, the
  targets of the Dockerfile) are words.
  The operators \<open>+\<close>, \<open>-\<close> and \<open><<\<close> of the language depend on the build profile: with overflow
  checks (\<open>Debug\<close>) they panic, without (\<open>Release\<close>) they wrap; the atomics' \<open>fetch_add\<close> and
  \<open>fetch_sub\<close> always wrap. Lengths and indices of vectors are natural numbers: a \<open>Vec\<close> holds
  at most \<open>isize::MAX\<close> bytes, so the sum of two of them stays below \<open>2 ^ 64\<close>.
\<close>

section \<open>Collections of facts\<close>

named_theorems panic_simps \<open>evaluation of operations that may panic\<close>
named_theorems op_defs \<open>definitions of the operations of a component\<close>

section \<open>Machine integers and build profiles\<close>

type_synonym u8 = "8 word"
type_synonym u16 = "16 word"
type_synonym u32 = "32 word"
type_synonym u64 = "64 word"
type_synonym usize = "64 word"

datatype profile = Debug | Release

section \<open>Panics as values\<close>

datatype panic =
    Rem_By_Zero
  | Index_Out_Of_Bounds
  | Arith_Overflow
  | Instant_Out_Of_Range
  | Lock_Poisoned
  | Unwrap_Failed

datatype 'a outcome = Val 'a | Panic panic

primrec outcome_bind :: "'a outcome \<Rightarrow> ('a \<Rightarrow> 'b outcome) \<Rightarrow> 'b outcome" where
  "outcome_bind (Val a) k = k a"
| "outcome_bind (Panic e) k = Panic e"

primrec is_Val :: "'a outcome \<Rightarrow> bool" where
  "is_Val (Val a) = True"
| "is_Val (Panic e) = False"

lemma outcome_bind_Val [simp]:
  "outcome_bind m k = Val b \<longleftrightarrow> (\<exists>a. m = Val a \<and> k a = Val b)"
  by (cases m) auto

lemma is_Val_iff: "is_Val m \<longleftrightarrow> (\<exists>a. m = Val a)"
  by (cases m) auto

text \<open>\<open>xs[i]\<close> on a slice or a vector.\<close>

definition index :: "'a list \<Rightarrow> nat \<Rightarrow> 'a outcome" where
  "index xs i = (if i < length xs then Val (xs ! i) else Panic Index_Out_Of_Bounds)"

lemma index_in [panic_simps]: "i < length xs \<Longrightarrow> index xs i = Val (xs ! i)"
  by (simp add: index_def)

lemma index_Val [simp]: "index xs i = Val x \<longleftrightarrow> i < length xs \<and> xs ! i = x"
  by (auto simp: index_def)

text \<open>\<open>a % b\<close> on unsigned integers: panics on a zero divisor in every profile.\<close>

definition rem_nat :: "nat \<Rightarrow> nat \<Rightarrow> nat outcome" where
  "rem_nat a b = (if b = 0 then Panic Rem_By_Zero else Val (a mod b))"

lemma rem_nat_pos [panic_simps]: "0 < b \<Longrightarrow> rem_nat a b = Val (a mod b)"
  by (simp add: rem_nat_def)

lemma rem_nat_Val [simp]: "rem_nat a b = Val c \<longleftrightarrow> 0 < b \<and> c = a mod b"
  by (auto simp: rem_nat_def)

text \<open>\<open>a + b\<close>: checked in the debug profile, wrapping in the release profile.\<close>

definition add_word :: "profile \<Rightarrow> 'w::len word \<Rightarrow> 'w word \<Rightarrow> 'w word outcome" where
  "add_word bp a b =
     (if unat a + unat b < 2 ^ LENGTH('w) then Val (a + b)
      else case bp of Debug \<Rightarrow> Panic Arith_Overflow | Release \<Rightarrow> Val (a + b))"

lemma add_word_fits [panic_simps]:
  "unat a + unat b < 2 ^ LENGTH('w) \<Longrightarrow> add_word bp a (b :: 'w::len word) = Val (a + b)"
  by (simp add: add_word_def)

lemma unat_add_fits:
  "unat a + unat (b :: 'w::len word) < 2 ^ LENGTH('w) \<Longrightarrow> unat (a + b) = unat a + unat b"
  by (simp add: unat_word_ariths)

lemma unat_Suc_fits:
  assumes "a \<noteq> (-1 :: 'w::len word)"
  shows "unat (a + 1) = Suc (unat a)"
proof -
  have "a + 1 \<noteq> 0" using assms by (metis add.right_inverse add_left_cancel add.commute)
  then show ?thesis by (simp add: unatSuc add.commute)
qed

text \<open>\<open>saturating_mul\<close> on unsigned integers.\<close>

definition saturating_mul :: "'w::len word \<Rightarrow> 'w word \<Rightarrow> 'w word" where
  "saturating_mul a b =
     (if unat a * unat b < 2 ^ LENGTH('w) then a * b else -1)"

lemma unat_bound: "unat (w :: 'w::len word) < 2 ^ LENGTH('w)"
  by (rule unsigned_less)

lemma unat_max_word: "unat (-1 :: 'w::len word) = 2 ^ LENGTH('w) - 1"
  by (simp add: unsigned_minus_1_eq_mask mask_eq_exp_minus_1)

lemma unat_saturating_mul:
  "unat (saturating_mul a (b :: 'w::len word)) = min (unat a * unat b) (2 ^ LENGTH('w) - 1)"
  by (auto simp: saturating_mul_def unat_word_ariths unat_max_word)

section \<open>Lists\<close>

text \<open>Visiting a ring of \<open>n\<close> places from any start meets every place exactly once.\<close>

lemma rotation_distinct:
  "distinct (map (\<lambda>k. (s + k) mod n) [0..<n])"
proof -
  have le: "a = b" if "a \<le> b" "b < n" "(s + b) mod n = (s + a) mod n" for a b
  proof -
    have "n dvd b - a" using mod_eq_dvd_iff_nat [of "s + a" "s + b" n] that by simp
    with that show "a = b" by (auto dest: dvd_imp_le)
  qed
  have "inj_on (\<lambda>k. (s + k) mod n) {0..<n}"
    by (rule inj_onI) (metis atLeastLessThan_iff le nat_le_linear)
  then show ?thesis by (simp add: distinct_map)
qed

lemma rotation_set:
  "set (map (\<lambda>k. (s + k) mod n) [0..<n]) = {0..<n}"
proof (rule card_subset_eq)
  show "set (map (\<lambda>k. (s + k) mod n) [0..<n]) \<subseteq> {0..<n}" by auto
  show "card (set (map (\<lambda>k. (s + k) mod n) [0..<n])) = card {0..<n}"
    by (subst distinct_card [OF rotation_distinct]) simp
qed simp

lemma count_list_concat_replicate:
  "count_list (concat (map (\<lambda>i. replicate (w i) i) xs)) j
     = (if distinct xs then (if j \<in> set xs then w j else 0)
        else sum_list (map (\<lambda>i. if i = j then w i else 0) xs))"
proof -
  have rep: "count_list (replicate n i) j = (if i = j then n else 0)" for n and i :: 'a
    by (induction n) auto
  have gen: "count_list (concat (map (\<lambda>i. replicate (w i) i) xs)) j
     = sum_list (map (\<lambda>i. if i = j then w i else 0) xs)" for xs
    by (induction xs) (auto simp: rep)
  have "sum_list (map (\<lambda>i. if i = j then w i else 0) xs) = (if j \<in> set xs then w j else 0)"
    if "distinct xs" for xs
    using that by (induction xs) auto
  then show ?thesis by (simp add: gen)
qed

section \<open>Runs of a step function\<close>

text \<open>
  An object behind a lock is a step function: a state and an operation give the next state and
  the operation's result. \<open>run\<close> performs a sequence of operations. \<open>preserves\<close> lifts an invariant
  from one step to a run, \<open>simulation\<close> lifts the agreement of an implementation with its
  specification; \<open>ok\<close> says which operations are admitted.
\<close>

fun run :: "('s \<Rightarrow> 'e \<Rightarrow> 's \<times> 'o) \<Rightarrow> 's \<Rightarrow> 'e list \<Rightarrow> 's \<times> 'o list" where
  "run step s [] = (s, [])"
| "run step s (e # es) =
     (case step s e of (s', r) \<Rightarrow> case run step s' es of (s'', rs) \<Rightarrow> (s'', r # rs))"

lemma run_Cons_proj:
  "fst (run step s (e # es)) = fst (run step (fst (step s e)) es)"
  "snd (run step s (e # es)) = snd (step s e) # snd (run step (fst (step s e)) es)"
  by (simp_all split: prod.splits)

lemma run_append:
  "run step s (es @ fs) =
     (case run step s es of (s', rs) \<Rightarrow> case run step s' fs of (s'', rs') \<Rightarrow> (s'', rs @ rs'))"
  by (induction es arbitrary: s) (auto split: prod.splits)

lemma length_run [simp]: "length (snd (run step s es)) = length es"
  by (induction es arbitrary: s) (auto simp: run_Cons_proj simp del: run.simps(2))

locale preserves =
  fixes step :: "'s \<Rightarrow> 'e \<Rightarrow> 's \<times> 'o" and inv :: "'s \<Rightarrow> bool" and ok :: "'e \<Rightarrow> bool"
  assumes step_inv: "inv s \<Longrightarrow> ok e \<Longrightarrow> inv (fst (step s e))"
begin

lemma run_inv: "inv s \<Longrightarrow> list_all ok es \<Longrightarrow> inv (fst (run step s es))"
  by (induction es arbitrary: s) (auto simp: run_Cons_proj step_inv simp del: run.simps(2))

end

locale simulation =
  fixes cstep :: "'c \<Rightarrow> 'e \<Rightarrow> 'c \<times> 'o" and astep :: "'a \<Rightarrow> 'e \<Rightarrow> 'a \<times> 'o"
    and rel :: "'c \<Rightarrow> 'a \<Rightarrow> bool" and ok :: "'e \<Rightarrow> bool"
  assumes step_rel: "rel c a \<Longrightarrow> ok e \<Longrightarrow> rel (fst (cstep c e)) (fst (astep a e))"
    and step_out: "rel c a \<Longrightarrow> ok e \<Longrightarrow> snd (cstep c e) = snd (astep a e)"
begin

lemma run_rel: "rel c a \<Longrightarrow> list_all ok es \<Longrightarrow> rel (fst (run cstep c es)) (fst (run astep a es))"
  by (induction es arbitrary: c a) (auto simp: run_Cons_proj step_rel simp del: run.simps(2))

lemma run_out: "rel c a \<Longrightarrow> list_all ok es \<Longrightarrow> snd (run cstep c es) = snd (run astep a es)"
  by (induction es arbitrary: c a) (auto simp: run_Cons_proj step_rel step_out simp del: run.simps(2))

end

end
