(* ===== verification/F64.thy ===== *)
theory F64
  imports Prelude "HOL-Library.Log_Nat"
begin

text \<open>
  Rust's \<open>f64\<close> as rate_limiter.rs and retry_budget.rs use it: IEEE 754 binary64 with rounding to
  nearest, ties to even, after every operation. A finite value is the rational it denotes; the
  sign of zero is not kept, since no operation of the program observes it (no value divides by a
  computed zero). \<open>round_q\<close> rounds to a multiple of the unit in the last place, \<open>f64_of_rat\<close> adds
  the overflow to infinity. The locale \<open>rounding\<close> is what the components need of a rounding
  function: it is monotone, and exact on the integers up to \<open>2 ^ 53\<close>.
\<close>

section \<open>Rounding a rational to 53 significant bits\<close>

definition flog2 :: "rat \<Rightarrow> int" where
  "flog2 x = (case quotient_of x of (a, b) \<Rightarrow>
     (let k = bitlen a - bitlen b in if 2 powi k \<le> x then k else k - 1))"

definition round_half_even :: "rat \<Rightarrow> int" where
  "round_half_even q =
     (let n = \<lfloor>q\<rfloor>; d = q - of_int n in
      if d < 1 / 2 then n else if 1 / 2 < d then n + 1 else if even n then n else n + 1)"

text \<open>The exponent of the unit in the last place, with gradual underflow.\<close>

definition ulp_exp :: "rat \<Rightarrow> int" where
  "ulp_exp x = max (-1074) (flog2 x - 52)"

definition round_pos :: "rat \<Rightarrow> rat" where
  "round_pos x = of_int (round_half_even (x / 2 powi ulp_exp x)) * 2 powi ulp_exp x"

definition round_q :: "rat \<Rightarrow> rat" where
  "round_q x = (if x = 0 then 0 else if 0 < x then round_pos x else - round_pos (- x))"

section \<open>Values and operations\<close>

datatype f64 = Fin rat | PInf | NInf | NaN

definition f64_of_rat :: "rat \<Rightarrow> f64" where
  "f64_of_rat x =
     (let r = round_q x in if 2 ^ 1024 \<le> r then PInf else if r \<le> - (2 ^ 1024) then NInf else Fin r)"

definition f64_of_nat :: "nat \<Rightarrow> f64" where
  "f64_of_nat n = f64_of_rat (of_nat n)"

fun f64_add :: "f64 \<Rightarrow> f64 \<Rightarrow> f64" where
  "f64_add NaN y = NaN"
| "f64_add x NaN = NaN"
| "f64_add PInf NInf = NaN"
| "f64_add NInf PInf = NaN"
| "f64_add PInf y = PInf"
| "f64_add x PInf = PInf"
| "f64_add NInf y = NInf"
| "f64_add x NInf = NInf"
| "f64_add (Fin a) (Fin b) = f64_of_rat (a + b)"

definition signed_inf :: "bool \<Rightarrow> f64" where
  "signed_inf negative = (if negative then NInf else PInf)"

fun f64_mul :: "f64 \<Rightarrow> f64 \<Rightarrow> f64" where
  "f64_mul NaN y = NaN"
| "f64_mul x NaN = NaN"
| "f64_mul (Fin a) (Fin b) = f64_of_rat (a * b)"
| "f64_mul (Fin a) PInf = (if a = 0 then NaN else signed_inf (a < 0))"
| "f64_mul (Fin a) NInf = (if a = 0 then NaN else signed_inf (0 < a))"
| "f64_mul PInf (Fin b) = (if b = 0 then NaN else signed_inf (b < 0))"
| "f64_mul NInf (Fin b) = (if b = 0 then NaN else signed_inf (0 < b))"
| "f64_mul PInf PInf = PInf"
| "f64_mul PInf NInf = NInf"
| "f64_mul NInf PInf = NInf"
| "f64_mul NInf NInf = PInf"

text \<open>Division by a positive finite literal (\<open>100.0\<close> and \<open>1e9\<close> are the only divisors).\<close>

fun f64_div_lit :: "f64 \<Rightarrow> rat \<Rightarrow> f64" where
  "f64_div_lit (Fin a) c = f64_of_rat (a / c)"
| "f64_div_lit x c = x"

fun f64_less_eq :: "f64 \<Rightarrow> f64 \<Rightarrow> bool" where
  "f64_less_eq NaN y = False"
| "f64_less_eq x NaN = False"
| "f64_less_eq NInf y = True"
| "f64_less_eq x PInf = True"
| "f64_less_eq (Fin a) (Fin b) = (a \<le> b)"
| "f64_less_eq x y = False"

definition f64_less :: "f64 \<Rightarrow> f64 \<Rightarrow> bool" where
  "f64_less x y = (f64_less_eq x y \<and> \<not> f64_less_eq y x)"

text \<open>\<open>f64::min\<close>: the other argument when one is NaN.\<close>

fun f64_min :: "f64 \<Rightarrow> f64 \<Rightarrow> f64" where
  "f64_min NaN y = y"
| "f64_min x NaN = x"
| "f64_min x y = (if f64_less_eq x y then x else y)"

fun f64_ceil :: "f64 \<Rightarrow> f64" where
  "f64_ceil (Fin a) = Fin (of_int \<lceil>a\<rceil>)"
| "f64_ceil x = x"

text \<open>\<open>x as usize\<close>: truncates, saturates, and sends NaN to zero.\<close>

fun f64_to_usize :: "f64 \<Rightarrow> nat" where
  "f64_to_usize (Fin a) = min (nat \<lfloor>a\<rfloor>) (2 ^ 64 - 1)"
| "f64_to_usize PInf = 2 ^ 64 - 1"
| "f64_to_usize NInf = 0"
| "f64_to_usize NaN = 0"

section \<open>What the components need of a rounding function\<close>

locale rounding =
  fixes rnd :: "rat \<Rightarrow> rat"
  assumes rnd_mono: "x \<le> y \<Longrightarrow> rnd x \<le> rnd y"
    and rnd_int: "\<bar>i\<bar> \<le> 2 ^ 53 \<Longrightarrow> rnd (of_int i) = of_int i"
begin

lemma rnd_nat: "n \<le> 2 ^ 53 \<Longrightarrow> rnd (of_nat n) = of_nat n"
  using rnd_int [of "int n"] by simp

lemma rnd_zero: "rnd 0 = 0"
  using rnd_int [of 0] by simp

lemma rnd_nonneg: "0 \<le> x \<Longrightarrow> 0 \<le> rnd x"
  using rnd_mono [of 0 x] by (simp add: rnd_zero)

lemma rnd_le_int: "x \<le> of_int i \<Longrightarrow> \<bar>i\<bar> \<le> 2 ^ 53 \<Longrightarrow> rnd x \<le> of_int i"
  using rnd_mono [of x "of_int i"] by (simp add: rnd_int)

lemma rnd_ge_int: "of_int i \<le> x \<Longrightarrow> \<bar>i\<bar> \<le> 2 ^ 53 \<Longrightarrow> of_int i \<le> rnd x"
  using rnd_mono [of "of_int i" x] by (simp add: rnd_int)

lemma rnd_le_nat: "x \<le> of_nat n \<Longrightarrow> n \<le> 2 ^ 53 \<Longrightarrow> rnd x \<le> of_nat n"
  using rnd_le_int [of x "int n"] by simp

lemma rnd_ge_nat: "of_nat n \<le> x \<Longrightarrow> n \<le> 2 ^ 53 \<Longrightarrow> of_nat n \<le> rnd x"
  using rnd_ge_int [of "int n" x] by simp

end

section \<open>The rounding of binary64 satisfies it\<close>

lemma quotient_of_pos:
  assumes "0 < x" "quotient_of x = (a, b)"
  shows "0 < a" "0 < b" "x = of_int a / of_int b"
proof -
  show b: "0 < b" and x: "x = of_int a / of_int b"
    using assms(2) by (simp_all add: quotient_of_denom_pos quotient_of_div)
  show "0 < a" using assms(1) b by (simp add: x zero_less_divide_iff)
qed

lemma bitlen_powi:
  assumes "0 < a"
  shows "2 powi (bitlen a - 1) \<le> (of_int a :: rat)" "(of_int a :: rat) < 2 powi bitlen a"
proof -
  have pos: "0 < bitlen a"
    using assms bitlen_eq_zero_iff [of a] bitlen_nonneg [of a] by linarith
  have bd: "2 ^ nat (bitlen a - 1) \<le> a \<and> a < 2 ^ nat (bitlen a)"
    using assms by (rule bitlen_bounds)
  have p: "(2 :: rat) powi k = of_int (2 ^ nat k)" if "0 \<le> k" for k
    using that by (simp add: power_int_def)
  show "2 powi (bitlen a - 1) \<le> (of_int a :: rat)" "(of_int a :: rat) < 2 powi bitlen a"
    using bd pos by (simp_all only: p of_int_le_iff of_int_less_iff)
qed

lemma flog2_bounds:
  assumes "0 < x"
  shows "2 powi flog2 x \<le> x \<and> x < 2 powi (flog2 x + 1)"
proof -
  obtain a b where q: "quotient_of x = (a, b)" by fastforce
  note ab = quotient_of_pos [OF assms q]
  let ?k = "bitlen a - bitlen b"
  have "x * 2 powi (bitlen b - 1) \<le> of_int a"
    using mult_left_mono [OF bitlen_powi(1) [OF ab(2)], of x] assms ab by simp
  also have "\<dots> < 2 powi bitlen a" by (rule bitlen_powi(2) [OF ab(1)])
  also have "\<dots> = 2 powi (?k + 1) * 2 powi (bitlen b - 1)"
    by (simp flip: power_int_add)
  finally have up: "x < 2 powi (?k + 1)" by simp
  have "(2 :: rat) powi (?k - 1) * of_int b \<le> 2 powi (?k - 1) * 2 powi bitlen b"
    using bitlen_powi(2) [OF ab(2)] by (simp add: less_imp_le)
  also have "\<dots> = 2 powi (bitlen a - 1)" by (simp flip: power_int_add)
  also have "\<dots> \<le> of_int a" by (rule bitlen_powi(1) [OF ab(1)])
  finally have lo: "2 powi (?k - 1) \<le> x" using ab(2) by (simp add: ab(3) pos_le_divide_eq)
  show ?thesis using up lo by (auto simp: flog2_def q Let_def)
qed

lemma powi_le_iff: "(2 :: rat) powi m \<le> 2 powi n \<longleftrightarrow> m \<le> n"
  using power_int_increasing [of m n "2 :: rat"] power_int_strict_increasing [of n m "2 :: rat"]
  by (force simp: not_le)

lemma powi_less_iff: "(2 :: rat) powi m < 2 powi n \<longleftrightarrow> m < n"
  by (simp add: powi_le_iff flip: not_le)

lemma flog2_mono:
  assumes "0 < x" "x \<le> y"
  shows "flog2 x \<le> flog2 y"
proof -
  have "2 powi flog2 x < (2 :: rat) powi (flog2 y + 1)"
    using flog2_bounds [of x] flog2_bounds [of y] assms by simp
  then show ?thesis by (simp add: powi_less_iff)
qed

lemma round_half_even_int [simp]: "round_half_even (of_int n) = n"
  by (simp add: round_half_even_def)

lemma round_half_even_bounds: "\<lfloor>q\<rfloor> \<le> round_half_even q \<and> round_half_even q \<le> \<lfloor>q\<rfloor> + 1"
  by (auto simp: round_half_even_def Let_def)

lemma round_half_even_mono:
  assumes "q \<le> r"
  shows "round_half_even q \<le> round_half_even r"
proof (cases "\<lfloor>q\<rfloor> = \<lfloor>r\<rfloor>")
  case True
  with assms show ?thesis by (auto simp: round_half_even_def Let_def)
next
  case False
  with assms have "\<lfloor>q\<rfloor> + 1 \<le> \<lfloor>r\<rfloor>" by (metis floor_mono less_le zless_imp_add1_zle)
  then show ?thesis
    using round_half_even_bounds [of q] round_half_even_bounds [of r] by linarith
qed

text \<open>On the grid of a unit in the last place the rounding is exact.\<close>

lemma powi_split: "e \<le> m \<Longrightarrow> (2 :: rat) powi m = of_int (2 ^ nat (m - e)) * 2 powi e"
proof -
  assume "e \<le> m"
  then have "(2 :: rat) powi (m - e) = of_int (2 ^ nat (m - e))"
    by (simp add: power_int_def)
  then show ?thesis by (metis diff_add_cancel power_int_add zero_neq_numeral)
qed

lemma round_grid_le:
  assumes "x \<le> of_int n * 2 powi e"
  shows "of_int (round_half_even (x / 2 powi e)) * 2 powi e \<le> of_int n * (2 :: rat) powi e"
proof -
  have "x / 2 powi e \<le> of_int n" using assms by (simp add: field_simps)
  then have "round_half_even (x / 2 powi e) \<le> n"
    using round_half_even_mono [of "x / 2 powi e" "of_int n"] by simp
  then show ?thesis by simp
qed

lemma round_grid_ge:
  assumes "of_int n * 2 powi e \<le> x"
  shows "of_int n * (2 :: rat) powi e \<le> of_int (round_half_even (x / 2 powi e)) * 2 powi e"
proof -
  have "of_int n \<le> x / 2 powi e" using assms by (simp add: field_simps)
  then have "n \<le> round_half_even (x / 2 powi e)"
    using round_half_even_mono [of "of_int n" "x / 2 powi e"] by simp
  then show ?thesis by simp
qed

lemma round_pos_mono:
  assumes "0 < x" "x \<le> y"
  shows "round_pos x \<le> round_pos y"
proof (cases "ulp_exp x = ulp_exp y")
  case True
  with assms show ?thesis
    by (simp add: round_pos_def round_half_even_mono divide_right_mono)
next
  case False
  have "flog2 x \<le> flog2 y" using assms by (rule flog2_mono)
  with False have lt: "flog2 x + 1 \<le> flog2 y" and ey: "ulp_exp y \<le> flog2 y"
    and ex: "ulp_exp x \<le> flog2 y"
    by (auto simp: ulp_exp_def)
  let ?p = "(2 :: rat) powi flog2 y"
  have "x \<le> 2 powi (flog2 x + 1)" using flog2_bounds [OF assms(1)] by simp
  also have "\<dots> \<le> ?p" using lt by (simp add: powi_le_iff)
  finally have "x \<le> of_int (2 ^ nat (flog2 y - ulp_exp x)) * 2 powi ulp_exp x"
    by (simp only: powi_split [OF ex])
  from round_grid_le [OF this] have "round_pos x \<le> ?p"
    by (simp only: round_pos_def powi_split [OF ex])
  moreover have "?p \<le> y" using flog2_bounds [of y] assms by simp
  then have "of_int (2 ^ nat (flog2 y - ulp_exp y)) * 2 powi ulp_exp y \<le> y"
    by (simp only: powi_split [OF ey])
  from round_grid_ge [OF this] have "?p \<le> round_pos y"
    by (simp only: round_pos_def powi_split [OF ey])
  ultimately show ?thesis by simp
qed

lemma round_pos_nonneg: "0 < x \<Longrightarrow> 0 \<le> round_pos x"
proof -
  assume "0 < x"
  then have "0 \<le> \<lfloor>x / 2 powi ulp_exp x\<rfloor>" by simp
  then have "0 \<le> round_half_even (x / 2 powi ulp_exp x)"
    using round_half_even_bounds [of "x / 2 powi ulp_exp x"] by linarith
  then show ?thesis by (simp add: round_pos_def)
qed

lemma round_q_mono:
  assumes "x \<le> y"
  shows "round_q x \<le> round_q y"
proof -
  consider "0 < x" | "y < 0" | "x \<le> 0" "0 \<le> y" using assms by linarith
  then show ?thesis
  proof cases
    case 1 with assms show ?thesis by (simp add: round_q_def round_pos_mono)
  next
    case 2 with assms show ?thesis by (simp add: round_q_def round_pos_mono)
  next
    case 3
    have "round_q x \<le> 0" using 3 round_pos_nonneg [of "- x"] by (simp add: round_q_def)
    moreover have "0 \<le> round_q y" using 3 round_pos_nonneg [of y] by (simp add: round_q_def)
    ultimately show ?thesis by simp
  qed
qed

text \<open>An integer of at most 53 bits, scaled by a power of two that is not too small, is a multiple
  of its unit in the last place.\<close>

lemma round_pos_dyadic:
  assumes "0 < i" "i < 2 ^ 53" "-1074 \<le> s"
  shows "round_pos (of_int i * 2 powi s) = of_int i * 2 powi s"
proof -
  let ?x = "of_int i * 2 powi s :: rat"
  have "0 < ?x" using assms(1) by simp
  then have "2 powi flog2 ?x \<le> ?x" using flog2_bounds by blast
  also have "?x < of_int (2 ^ 53) * 2 powi s" using assms(2)
    by (intro mult_strict_right_mono) (simp_all only: of_int_less_iff zero_less_power_int zero_less_numeral)
  also have "(of_int (2 ^ 53) * 2 powi s :: rat) = 2 powi (53 + s)"
    by (simp add: power_int_add)
  finally have "flog2 ?x < 53 + s" by (simp only: powi_less_iff)
  then have e: "ulp_exp ?x \<le> s" using assms(3) by (simp add: ulp_exp_def)
  let ?n = "i * 2 ^ nat (s - ulp_exp ?x)"
  have x: "?x = of_int ?n * 2 powi ulp_exp ?x"
    using powi_split [OF e] by simp
  have "?x / 2 powi ulp_exp ?x = of_int ?n"
    using x by (metis nonzero_mult_div_cancel_right power_int_not_zero zero_neq_numeral)
  then show ?thesis using x by (simp only: round_pos_def round_half_even_int)
qed

lemma round_q_dyadic:
  assumes "\<bar>i\<bar> < 2 ^ 53" "-1074 \<le> s"
  shows "round_q (of_int i * 2 powi s) = of_int i * 2 powi s"
proof -
  consider "i = 0" | "0 < i" | "i < 0" by linarith
  then show ?thesis
  proof cases
    case 2
    then show ?thesis using assms round_pos_dyadic [of i s] by (simp add: round_q_def)
  next
    case 3
    have "of_int i * 2 powi s < (0 :: rat)" using 3 by (simp add: mult_neg_pos)
    then show ?thesis using 3 assms round_pos_dyadic [of "- i" s] by (simp add: round_q_def)
  qed (simp add: round_q_def)
qed

lemma round_q_int:
  assumes "\<bar>i\<bar> \<le> 2 ^ 53"
  shows "round_q (of_int i) = of_int i"
proof (cases "\<bar>i\<bar> = 2 ^ 53")
  case True
  have top: "round_pos (2 ^ 53) = 2 ^ 53" by code_simp
  from True have "i = 2 ^ 53 \<or> i = - (2 ^ 53)" by linarith
  with top show ?thesis by (auto simp: round_q_def)
next
  case False
  with assms show ?thesis using round_q_dyadic [of i 0] by simp
qed

interpretation f64_round: rounding round_q
  by unfold_locales (simp_all add: round_q_mono round_q_int)

section \<open>Exact results on small integers\<close>

lemma f64_of_rat_small:
  assumes "\<bar>x\<bar> \<le> 2 ^ 53"
  shows "f64_of_rat x = Fin (round_q x)"
proof -
  have "\<bar>round_q x\<bar> \<le> 2 ^ 53"
    using assms f64_round.rnd_le_int [of x "2 ^ 53"] f64_round.rnd_ge_int [of "- (2 ^ 53)" x]
    by (simp add: abs_le_iff)
  moreover have "(2 :: rat) ^ 53 < 2 ^ 1024" by (rule power_strict_increasing) simp_all
  ultimately show ?thesis by (simp add: f64_of_rat_def Let_def abs_le_iff)
qed

lemma f64_of_nat_exact: "n \<le> 2 ^ 53 \<Longrightarrow> f64_of_nat n = Fin (of_nat n)"
proof -
  assume n: "n \<le> 2 ^ 53"
  then have "(of_nat n :: rat) \<le> of_nat (2 ^ 53)" by (simp only: of_nat_le_iff)
  then show ?thesis using n by (simp add: f64_of_nat_def f64_of_rat_small f64_round.rnd_nat)
qed

lemma f64_of_u32 [simp]: "f64_of_nat (unat (w :: u32)) = Fin (of_nat (unat w))"
proof -
  have "unat w < 2 ^ 32" using unsigned_less [of w] by simp
  then show ?thesis by (simp add: f64_of_nat_exact)
qed

end
