(* ===== verification/Clock.thy ===== *)
theory Clock
  imports F64
begin

text \<open>
  \<open>std::time\<close> as the program uses it. A \<open>Duration\<close> is its number of nanoseconds, an \<open>Instant\<close>
  the number of nanoseconds on the monotonic clock. On unix (the Dockerfile's target) an
  \<open>Instant\<close> holds its seconds in an \<open>i64\<close>, so \<open>Instant - Duration\<close> panics exactly when the
  result lies below \<open>instant_min\<close>; \<open>elapsed\<close> and \<open>duration_since\<close> saturate at zero.
  Every operation that reads the clock takes the value it read as an argument.
\<close>

type_synonym duration = nat
type_synonym instant = int

definition nanos_per_sec :: nat where
  "nanos_per_sec = 1000000000"

definition from_secs :: "u64 \<Rightarrow> duration" where
  "from_secs s = unat s * nanos_per_sec"

definition from_millis :: "u64 \<Rightarrow> duration" where
  "from_millis ms = unat ms * 1000000"

definition as_secs :: "duration \<Rightarrow> nat" where
  "as_secs d = d div nanos_per_sec"

definition as_secs_f64 :: "duration \<Rightarrow> f64" where
  "as_secs_f64 d =
     f64_add (f64_of_nat (d div nanos_per_sec))
       (f64_div_lit (f64_of_nat (d mod nanos_per_sec)) (of_nat nanos_per_sec))"

definition instant_min :: instant where
  "instant_min = - (2 ^ 63) * int nanos_per_sec"

definition instant_sub :: "instant \<Rightarrow> duration \<Rightarrow> instant outcome" where
  "instant_sub t d =
     (if instant_min \<le> t - int d then Val (t - int d) else Panic Instant_Out_Of_Range)"

definition duration_since :: "instant \<Rightarrow> instant \<Rightarrow> duration" where
  "duration_since now t = nat (now - t)"

lemma duration_since_self [simp]: "duration_since t t = 0"
  by (simp add: duration_since_def)

lemma duration_since_mono: "now \<le> now' \<Longrightarrow> duration_since now t \<le> duration_since now' t"
  by (simp add: duration_since_def)

lemma duration_since_le_iff:
  "0 < d \<Longrightarrow> d \<le> duration_since now t \<longleftrightarrow> t + int d \<le> now"
  by (auto simp: duration_since_def)

lemma instant_sub_Val [simp]:
  "instant_sub t d = Val c \<longleftrightarrow> instant_min \<le> t - int d \<and> c = t - int d"
  by (auto simp: instant_sub_def)

text \<open>A clock that does not run before its origin can go back any duration of up to \<open>2 ^ 63\<close> seconds.\<close>

lemma instant_sub_ok:
  assumes "0 \<le> t" "d \<le> 2 ^ 63 * nanos_per_sec"
  shows "instant_sub t d = Val (t - int d)"
proof -
  have "int d \<le> int (2 ^ 63 * nanos_per_sec)" using assms(2) by (simp only: of_nat_le_iff)
  then show ?thesis using assms(1) by (simp add: instant_min_def nanos_per_sec_def)
qed

lemma as_secs_f64_zero [simp]: "as_secs_f64 0 = Fin 0"
proof -
  have zero: "f64_of_nat 0 = Fin 0" "f64_of_rat 0 = Fin 0"
    using f64_of_nat_exact [of 0] f64_of_rat_small [of 0] by (simp_all add: f64_round.rnd_zero)
  show ?thesis by (simp add: as_secs_f64_def zero)
qed

lemma as_secs_f64_whole:
  assumes "s \<le> 2 ^ 53"
  shows "as_secs_f64 (s * nanos_per_sec) = Fin (of_nat s)"
proof -
  have zero: "f64_of_nat 0 = Fin 0" "f64_of_rat 0 = Fin 0"
    using f64_of_nat_exact [of 0] f64_of_rat_small [of 0] by (simp_all add: f64_round.rnd_zero)
  have "f64_of_rat (of_nat s) = Fin (of_nat s)"
    using f64_of_nat_exact [OF assms] by (simp add: f64_of_nat_def)
  then show ?thesis using f64_of_nat_exact [OF assms]
    by (simp add: as_secs_f64_def zero nanos_per_sec_def)
qed

end
