(* ===== verification/Task.thy ===== *)
theory Task
  imports Clock
begin

text \<open>
  Asynchronous code over a shared state. A \<open>task\<close> is what remains to be run of an \<open>async\<close> block:
  it has returned, it has panicked, it is about to make one atomic access to the shared state (a
  lock section, an atomic operation, a load or store of an \<open>ArcSwap\<close>, a clock reading), or it is
  suspended at an \<open>await\<close>. Whatever comes from outside the program (clock readings, random numbers,
  replies of upstreams) is in the reading \<open>'e\<close> that the environment hands to a step. A suspended
  task carries the deadlines of the timeouts around it, each with what is left to run when the
  deadline passes and the suspended future is dropped.

  Every atomic access sees the shared state the environment hands it, so other tasks may run
  between any two accesses. \<open>wp\<close> is a program logic for tasks under such interference: a monitor
  watches the accesses and the awaits; \<open>wp_sound\<close> carries what is proved with it to every run.
\<close>

section \<open>Tasks\<close>

datatype ('s, 'q, 'e, 'a) task =
    Return 'a
  | Abort panic
  | Atomic "'e \<Rightarrow> 's \<Rightarrow> 's" "'e \<Rightarrow> 's \<Rightarrow> ('s, 'q, 'e, 'a) task"
  | Await 'q "'e \<Rightarrow> ('s, 'q, 'e, 'a) task" "(duration \<times> ('s, 'q, 'e, 'a) task) list"

lemma task_induct [case_names Return Abort Atomic Await]:
  assumes "\<And>a. P (Return a)" and "\<And>p. P (Abort p)"
    and "\<And>u c. (\<And>e s. P (c e s)) \<Longrightarrow> P (Atomic u c)"
    and "\<And>q c ds. (\<And>e. P (c e)) \<Longrightarrow> (\<And>d t. (d, t) \<in> set ds \<Longrightarrow> P t) \<Longrightarrow> P (Await q c ds)"
  shows "P t"
proof (induction t)
  case (Atomic u c)
  show ?case by (rule assms(3), rule Atomic.IH) (rule rangeI)+
next
  case (Await q c ds)
  show ?case
  proof (rule assms(4))
    show "P (c e)" for e by (rule Await.IH(1)) simp
    show "P t" if "(d, t) \<in> set ds" for d t using Await.IH(2) [OF that] by simp
  qed
qed (use assms in auto)

text \<open>Sequencing, one access, one reading, one await.\<close>

primrec bind :: "('s, 'q, 'e, 'a) task \<Rightarrow> ('a \<Rightarrow> ('s, 'q, 'e, 'b) task) \<Rightarrow> ('s, 'q, 'e, 'b) task" where
  "bind (Return a) k = k a"
| "bind (Abort p) k = Abort p"
| "bind (Atomic u c) k = Atomic u (\<lambda>e s. bind (c e s) k)"
| "bind (Await q c ds) k = Await q (\<lambda>e. bind (c e) k) (map (map_prod id (\<lambda>t. bind t k)) ds)"

definition given :: "('e \<Rightarrow> 'v) \<Rightarrow> ('v \<Rightarrow> ('s, 'q, 'e, 'a) task) \<Rightarrow> ('s, 'q, 'e, 'a) task" where
  "given f k = Atomic (\<lambda>e s. s) (\<lambda>e s. k (f e))"

definition load :: "('s \<Rightarrow> 'v) \<Rightarrow> ('v \<Rightarrow> ('s, 'q, 'e, 'a) task) \<Rightarrow> ('s, 'q, 'e, 'a) task" where
  "load f k = Atomic (\<lambda>e s. s) (\<lambda>e s. k (f s))"

primrec unwrap :: "'v outcome \<Rightarrow> ('v \<Rightarrow> ('s, 'q, 'e, 'a) task) \<Rightarrow> ('s, 'q, 'e, 'a) task" where
  "unwrap (Val v) k = k v"
| "unwrap (Panic p) k = Abort p"

definition call :: "('e \<Rightarrow> 's \<Rightarrow> 's \<times> 'v outcome) \<Rightarrow> ('v \<Rightarrow> ('s, 'q, 'e, 'a) task) \<Rightarrow> ('s, 'q, 'e, 'a) task" where
  "call f k = Atomic (\<lambda>e s. fst (f e s)) (\<lambda>e s. unwrap (snd (f e s)) k)"

definition update :: "('s \<Rightarrow> 's) \<Rightarrow> ('s, 'q, 'e, 'a) task \<Rightarrow> ('s, 'q, 'e, 'a) task" where
  "update f t = Atomic (\<lambda>e s. f s) (\<lambda>e s. t)"

definition await :: "'q \<Rightarrow> ('e \<Rightarrow> 'v) \<Rightarrow> ('v \<Rightarrow> ('s, 'q, 'e, 'a) task) \<Rightarrow> ('s, 'q, 'e, 'a) task" where
  "await q f k = Await q (\<lambda>e. k (f e)) []"

text \<open>\<open>tokio::time::timeout\<close>: the future, or \<open>None\<close> when the deadline passes at one of its awaits.\<close>

primrec timeout :: "duration \<Rightarrow> ('s, 'q, 'e, 'a) task \<Rightarrow> ('s, 'q, 'e, 'a option) task" where
  "timeout d (Return a) = Return (Some a)"
| "timeout d (Abort p) = Abort p"
| "timeout d (Atomic u c) = Atomic u (\<lambda>e s. timeout d (c e s))"
| "timeout d (Await q c ds) =
     Await q (\<lambda>e. timeout d (c e)) (map (map_prod id (timeout d)) ds @ [(d, Return None)])"

lemmas task_ops = given_def load_def call_def update_def await_def

lemma bind_assoc: "bind (bind t k) l = bind t (\<lambda>a. bind (k a) l)"
  by (induction t rule: task_induct) auto

section \<open>Runs\<close>

text \<open>
  The environment's part of one step: \<open>Go\<close> lets the task go on with a reading, \<open>Expire i\<close> lets the
  i-th deadline around a suspended task pass. A script pairs each choice with the shared state the
  task finds.
\<close>

datatype 'e choice = Go 'e | Expire nat

datatype ('s, 'q) observation = Effect 's 's | Ask 'q

fun advance :: "'s \<Rightarrow> 'e choice \<Rightarrow> ('s, 'q, 'e, 'a) task \<Rightarrow>
    (('s, 'q) observation \<times> ('s, 'q, 'e, 'a) task) option" where
  "advance s (Go e) (Atomic u c) = Some (Effect s (u e s), c e s)"
| "advance s (Go e) (Await q c ds) = Some (Ask q, c e)"
| "advance s (Expire i) (Await q c ds) =
     (if i < length ds then Some (Ask q, snd (ds ! i)) else None)"
| "advance s ch t = None"

fun follow :: "('s, 'q, 'e, 'a) task \<Rightarrow> ('s \<times> 'e choice) list \<Rightarrow>
    ('s, 'q) observation list \<times> ('s, 'q, 'e, 'a) task" where
  "follow t [] = ([], t)"
| "follow t ((s, ch) # w) =
     (case advance s ch t of
        None \<Rightarrow> follow t w
      | Some (ob, t') \<Rightarrow> (case follow t' w of (obs, t'') \<Rightarrow> (ob # obs, t'')))"

text \<open>What a run asked of the outside, the question it is suspended at included.\<close>

primrec pending :: "('s, 'q, 'e, 'a) task \<Rightarrow> 'q list" where
  "pending (Return a) = []"
| "pending (Abort p) = []"
| "pending (Atomic u c) = []"
| "pending (Await q c ds) = [q]"

primrec questions :: "('s, 'q) observation list \<Rightarrow> 'q list" where
  "questions [] = []"
| "questions (ob # obs) = (case ob of Ask q \<Rightarrow> q # questions obs | Effect s s' \<Rightarrow> questions obs)"

definition asked :: "('s, 'q, 'e, 'a) task \<Rightarrow> ('s \<times> 'e choice) list \<Rightarrow> 'q list" where
  "asked t w = (case follow t w of (obs, t') \<Rightarrow> questions obs @ pending t')"

definition final :: "('s, 'q, 'e, 'a) task \<Rightarrow> ('s \<times> 'e choice) list \<Rightarrow> ('s, 'q, 'e, 'a) task" where
  "final t w = snd (follow t w)"

lemma follow_append:
  "follow t (v @ w) = (case follow t v of (obs, t') \<Rightarrow> case follow t' w of (obs', t'') \<Rightarrow> (obs @ obs', t''))"
  by (induction t v rule: follow.induct) (simp_all split: option.split prod.split)

lemma questions_append: "questions (obs @ obs') = questions obs @ questions obs'"
  by (induction obs) (simp_all split: observation.split)

lemma asked_append: "asked t (v @ w) = questions (fst (follow t v)) @ asked (final t v) w"
  by (simp add: asked_def final_def follow_append questions_append split: prod.split)

lemma final_append: "final t (v @ w) = final (final t v) w"
  by (simp add: final_def follow_append split: prod.split)

section \<open>A program logic\<close>

text \<open>
  A monitor says which readings and shared states the environment may hand to a task and whether
  deadlines may pass, keeps a state of its own along the observations and refuses some of them, and says when a panic is
  accepted. \<open>wp\<close> is the weakest condition on the monitor's state under which the task never makes
  a refused observation and returns only what \<open>Q\<close> accepts.
\<close>

record ('s, 'q, 'e, 'm) monitor =
  env_ok :: "'e \<Rightarrow> bool"
  shared_ok :: "'s \<Rightarrow> bool"
  may_expire :: bool
  watch :: "'m \<Rightarrow> ('s, 'q) observation \<Rightarrow> 'm option"
  panic_ok :: "'m \<Rightarrow> panic \<Rightarrow> bool"

primrec wp :: "('s, 'q, 'e, 'm) monitor \<Rightarrow> ('s, 'q, 'e, 'a) task \<Rightarrow> ('m \<Rightarrow> 'a \<Rightarrow> bool) \<Rightarrow> 'm \<Rightarrow> bool" where
  "wp M (Return a) = (\<lambda>Q m. Q m a)"
| "wp M (Abort p) = (\<lambda>Q m. panic_ok M m p)"
| "wp M (Atomic u c) = (\<lambda>Q m. \<forall>e s. env_ok M e \<longrightarrow> shared_ok M s \<longrightarrow>
     (\<exists>m'. watch M m (Effect s (u e s)) = Some m' \<and> wp M (c e s) Q m'))"
| "wp M (Await q c ds) = (\<lambda>Q m. \<exists>m'. watch M m (Ask q) = Some m' \<and>
     (\<forall>e. env_ok M e \<longrightarrow> wp M (c e) Q m') \<and>
     (may_expire M \<longrightarrow> list_all (\<lambda>(d, holds). holds Q m') (map (map_prod id (wp M)) ds)))"

lemma wp_Await [simp]:
  "wp M (Await q c ds) Q m \<longleftrightarrow> (\<exists>m'. watch M m (Ask q) = Some m' \<and>
     (\<forall>e. env_ok M e \<longrightarrow> wp M (c e) Q m') \<and>
     (may_expire M \<longrightarrow> (\<forall>(d, t) \<in> set ds. wp M t Q m')))"
  by (simp add: list_all_iff case_prod_beta)

declare wp.simps(4) [simp del]

lemma wp_mono: "wp M t Q m \<Longrightarrow> (\<And>m a. Q m a \<Longrightarrow> Q' m a) \<Longrightarrow> wp M t Q' m"
proof (induction t arbitrary: m rule: task_induct)
  case (Await q c ds)
  from Await.prems obtain m' where m': "watch M m (Ask q) = Some m'"
    and c: "\<forall>e. env_ok M e \<longrightarrow> wp M (c e) Q m'"
    and ds: "may_expire M \<longrightarrow> (\<forall>(d, t) \<in> set ds. wp M t Q m')" by auto
  have "may_expire M \<longrightarrow> (\<forall>(d, t) \<in> set ds. wp M t Q' m')" using ds Await.IH(2) [OF _ _ Await.prems(2)] by fastforce
  moreover have "\<forall>e. env_ok M e \<longrightarrow> wp M (c e) Q' m'" using c Await.IH(1) [OF _ Await.prems(2)] by blast
  ultimately show ?case using m' by auto
qed (simp, simp, fastforce)

lemma wp_bind: "wp M (bind t k) Q m \<longleftrightarrow> wp M t (\<lambda>m a. wp M (k a) Q m) m"
proof (induction t arbitrary: m rule: task_induct)
  case (Await q c ds)
  have "(\<forall>(d, t) \<in> set (map (map_prod id (\<lambda>t. bind t k)) ds). wp M t Q m') \<longleftrightarrow>
      (\<forall>(d, t) \<in> set ds. wp M t (\<lambda>m a. wp M (k a) Q m) m')" for m'
    using Await.IH(2) by (fastforce simp: image_iff)
  then show ?case using Await.IH(1) by simp
qed simp_all

lemma wp_timeout:
  assumes "wp M t (\<lambda>m a. Q m (Some a)) m"
    and "\<And>m q m'. may_expire M \<Longrightarrow> watch M m (Ask q) = Some m' \<Longrightarrow> Q m' None"
  shows "wp M (timeout d t) Q m"
  using assms(1)
proof (induction t arbitrary: m rule: task_induct)
  case (Await q c ds)
  then obtain m' where m': "watch M m (Ask q) = Some m'"
    and c: "\<forall>e. env_ok M e \<longrightarrow> wp M (c e) (\<lambda>m a. Q m (Some a)) m'"
    and ds: "may_expire M \<longrightarrow> (\<forall>(d, t) \<in> set ds. wp M t (\<lambda>m a. Q m (Some a)) m')" by auto
  have "may_expire M \<longrightarrow> (\<forall>(d', t) \<in> set (map (map_prod id (timeout d)) ds @ [(d, Return None)]). wp M t Q m')"
    using ds Await.IH(2) assms(2) [OF _ m'] by fastforce
  with m' c Await.IH(1) show ?case by auto
qed (simp, simp, fastforce)

lemma wp_unwrap: "wp M (unwrap r k) Q m \<longleftrightarrow> (case r of Val v \<Rightarrow> wp M (k v) Q m | Panic p \<Rightarrow> panic_ok M m p)"
  by (cases r) simp_all

section \<open>Soundness\<close>

primrec choice_ok :: "('e \<Rightarrow> bool) \<Rightarrow> bool \<Rightarrow> 'e choice \<Rightarrow> bool" where
  "choice_ok ok ex (Go e) = ok e"
| "choice_ok ok ex (Expire i) = ex"

definition script_ok :: "('s, 'q, 'e, 'm) monitor \<Rightarrow> ('s \<times> 'e choice) list \<Rightarrow> bool" where
  "script_ok M = list_all (\<lambda>(s, ch). shared_ok M s \<and> choice_ok (env_ok M) (may_expire M) ch)"

primrec watches :: "('s, 'q, 'e, 'm) monitor \<Rightarrow> 'm \<Rightarrow> ('s, 'q) observation list \<Rightarrow> 'm option" where
  "watches M m [] = Some m"
| "watches M m (ob # obs) = (case watch M m ob of None \<Rightarrow> None | Some m' \<Rightarrow> watches M m' obs)"

lemma wp_advance:
  assumes "wp M t Q m" and "advance s ch t = Some (ob, t')"
    and "shared_ok M s" and "choice_ok (env_ok M) (may_expire M) ch"
  shows "\<exists>m'. watch M m ob = Some m' \<and> wp M t' Q m'"
  using assms
proof (cases "(s, ch, t)" rule: advance.cases)
  case (3 s i q c ds)
  then have "(fst (ds ! i), t') \<in> set ds" using assms(2) by (auto split: if_splits)
  with 3 assms show ?thesis by (fastforce split: if_splits)
qed auto

lemma wp_follow:
  "wp M t Q m \<Longrightarrow> script_ok M w \<Longrightarrow> follow t w = (obs, t') \<Longrightarrow>
     \<exists>m'. watches M m obs = Some m' \<and> wp M t' Q m'"
proof (induction t w arbitrary: m obs t' rule: follow.induct)
  case (2 t s ch w m obs t2)
  have ok: "shared_ok M s" "choice_ok (env_ok M) (may_expire M) ch" "script_ok M w"
    using "2.prems"(2) by (simp_all add: script_ok_def)
  show ?case
  proof (cases "advance s ch t")
    case None
    with "2.IH"(1) [OF None "2.prems"(1) ok(3)] "2.prems"(3) show ?thesis by simp
  next
    case (Some r)
    obtain ob t1 where r: "r = (ob, t1)" by fastforce
    with wp_advance [OF "2.prems"(1) _ ok(1,2), of ob t1] Some obtain m1
      where m1: "watch M m ob = Some m1" "wp M t1 Q m1" by blast
    obtain obs1 t3 where f: "follow t1 w = (obs1, t3)" by fastforce
    with "2.IH"(2) [OF Some r [symmetric] m1(2) ok(3) f] "2.prems"(3) Some r m1 show ?thesis by auto
  qed
qed simp

theorem wp_sound:
  assumes "wp M t Q m" and "script_ok M w"
  obtains m' where "watches M m (fst (follow t w)) = Some m'" and "wp M (final t w) Q m'"
  using wp_follow [OF assms, of "fst (follow t w)" "final t w"] by (auto simp: final_def)

section \<open>Monitors of the questions\<close>

text \<open>A monitor that watches only what a task asks of the outside: a partial automaton on the
  questions, which every access to the shared state and every panic leaves alone.\<close>

definition ask_monitor ::
    "('e \<Rightarrow> bool) \<Rightarrow> ('s \<Rightarrow> bool) \<Rightarrow> ('m \<Rightarrow> 'q \<Rightarrow> 'm option) \<Rightarrow> ('s, 'q, 'e, 'm) monitor" where
  "ask_monitor ok sh delta =
     \<lparr>env_ok = ok, shared_ok = sh, may_expire = True,
      watch = (\<lambda>m ob. case ob of Effect s s' \<Rightarrow> Some m | Ask q \<Rightarrow> delta m q),
      panic_ok = (\<lambda>m p. True)\<rparr>"

lemma ask_monitor_simps [simp]:
  "env_ok (ask_monitor ok sh delta) = ok"
  "shared_ok (ask_monitor ok sh delta) = sh"
  "may_expire (ask_monitor ok sh delta)"
  "watch (ask_monitor ok sh delta) m (Effect s s') = Some m"
  "watch (ask_monitor ok sh delta) m (Ask q) = delta m q"
  "panic_ok (ask_monitor ok sh delta) m p"
  by (simp_all add: ask_monitor_def)

lemma wp_ask_ops:
  "wp (ask_monitor ok sh delta) (given f k) Q m \<longleftrightarrow>
     (\<forall>e s. ok e \<longrightarrow> sh s \<longrightarrow> wp (ask_monitor ok sh delta) (k (f e)) Q m)"
  "wp (ask_monitor ok sh delta) (load g k) Q m \<longleftrightarrow>
     (\<forall>e s. ok e \<longrightarrow> sh s \<longrightarrow> wp (ask_monitor ok sh delta) (k (g s)) Q m)"
  "wp (ask_monitor ok sh delta) (update h t) Q m \<longleftrightarrow>
     (\<forall>e s. ok e \<longrightarrow> sh s \<longrightarrow> wp (ask_monitor ok sh delta) t Q m)"
  "wp (ask_monitor ok sh delta) (unwrap r k) Q m \<longleftrightarrow>
     (\<forall>v. r = Val v \<longrightarrow> wp (ask_monitor ok sh delta) (k v) Q m)"
  "wp (ask_monitor ok sh delta) (call c k) Q m \<longleftrightarrow>
     (\<forall>e s v. ok e \<longrightarrow> sh s \<longrightarrow> snd (c e s) = Val v \<longrightarrow> wp (ask_monitor ok sh delta) (k v) Q m)"
  "wp (ask_monitor ok sh delta) (await q f k) Q m \<longleftrightarrow>
     (\<exists>m'. delta m q = Some m' \<and> (\<forall>e. ok e \<longrightarrow> wp (ask_monitor ok sh delta) (k (f e)) Q m'))"
  by (auto simp: task_ops wp_unwrap split: outcome.splits)

primrec accepts :: "('m \<Rightarrow> 'q \<Rightarrow> 'm option) \<Rightarrow> 'm \<Rightarrow> 'q list \<Rightarrow> 'm option" where
  "accepts delta m [] = Some m"
| "accepts delta m (q # qs) = (case delta m q of None \<Rightarrow> None | Some m' \<Rightarrow> accepts delta m' qs)"

lemma accepts_append:
  "accepts delta m (qs @ rs) = (case accepts delta m qs of None \<Rightarrow> None | Some m' \<Rightarrow> accepts delta m' rs)"
  by (induction qs arbitrary: m) (auto split: option.splits)

lemma watches_ask: "watches (ask_monitor ok sh delta) m obs = accepts delta m (questions obs)"
  by (induction obs arbitrary: m) (auto split: observation.splits option.splits)

lemma wp_pending:
  "wp (ask_monitor ok sh delta) t Q m \<Longrightarrow> \<exists>m'. accepts delta m (pending t) = Some m'"
  by (cases t) auto

definition readings_ok :: "('e \<Rightarrow> bool) \<Rightarrow> bool \<Rightarrow> ('s \<times> 'e choice) list \<Rightarrow> bool" where
  "readings_ok ok ex = list_all (\<lambda>(s, ch). choice_ok ok ex ch)"

definition states_of :: "('s \<times> 'e choice) list \<Rightarrow> 's set" where
  "states_of w = fst ` set w"

lemma script_ok_ask:
  "script_ok (ask_monitor ok sh delta) w \<longleftrightarrow> readings_ok ok True w \<and> (\<forall>s \<in> states_of w. sh s)"
  by (auto simp: script_ok_def readings_ok_def states_of_def list_all_iff)

lemma choice_ok_True [simp]: "choice_ok (\<lambda>e. True) True ch"
  by (cases ch) simp_all

lemma readings_ok_True [simp]: "readings_ok (\<lambda>e. True) True w"
  by (simp add: readings_ok_def list_all_iff case_prod_beta)

theorem ask_sound:
  assumes "wp (ask_monitor ok sh delta) t Q m" and "readings_ok ok True w" and "\<forall>s \<in> states_of w. sh s"
  shows "\<exists>m'. accepts delta m (asked t w) = Some m'"
    and "final t w = Return a \<Longrightarrow> \<exists>m'. accepts delta m (asked t w) = Some m' \<and> Q m' a"
proof -
  have "script_ok (ask_monitor ok sh delta) w" using assms(2,3) by (simp add: script_ok_ask)
  from wp_sound [OF assms(1) this] obtain m'
    where m': "watches (ask_monitor ok sh delta) m (fst (follow t w)) = Some m'"
      "wp (ask_monitor ok sh delta) (final t w) Q m'" .
  have "accepts delta m (asked t w) = accepts delta m' (pending (final t w))"
    using m'(1) by (simp add: asked_def final_def accepts_append watches_ask case_prod_beta)
  with m'(2) wp_pending [OF m'(2)]
  show "\<exists>m'. accepts delta m (asked t w) = Some m'"
    and "final t w = Return a \<Longrightarrow> \<exists>m'. accepts delta m (asked t w) = Some m' \<and> Q m' a"
    by auto
qed

text \<open>An angelic choice among monitor states: the run follows at least one of them.\<close>

definition some_of :: "('m \<Rightarrow> 'q \<Rightarrow> 'm option) \<Rightarrow> 'm set \<Rightarrow> 'q \<Rightarrow> 'm set option" where
  "some_of delta S q =
     (let S' = {x'. \<exists>x \<in> S. delta x q = Some x'} in if S' = {} then None else Some S')"

lemma some_of_step: "delta x q = Some x' \<Longrightarrow> x \<in> S \<Longrightarrow> \<exists>S'. some_of delta S q = Some S' \<and> x' \<in> S'"
  by (auto simp: some_of_def Let_def)

lemma wp_some_of:
  "wp (ask_monitor ok sh delta) t (\<lambda>m a. True) x \<Longrightarrow> x \<in> S \<Longrightarrow>
     wp (ask_monitor ok sh (some_of delta)) t (\<lambda>m a. True) S"
proof (induction t arbitrary: x S rule: task_induct)
  case (Atomic u c)
  show ?case using Atomic.prems(1) Atomic.IH [OF _ Atomic.prems(2)] by simp
next
  case (Await q c ds)
  then obtain x' where x': "delta x q = Some x'"
    "\<forall>e. ok e \<longrightarrow> wp (ask_monitor ok sh delta) (c e) (\<lambda>m a. True) x'"
    "\<forall>(d, t) \<in> set ds. wp (ask_monitor ok sh delta) t (\<lambda>m a. True) x'" by auto
  from some_of_step [of delta, OF x'(1) Await.prems(2)] obtain S'
    where S': "some_of delta S q = Some S'" "x' \<in> S'" by blast
  have "wp (ask_monitor ok sh (some_of delta)) (c e) (\<lambda>m a. True) S'" if "ok e" for e
    using Await.IH(1) x'(2) S'(2) that by blast
  moreover have "wp (ask_monitor ok sh (some_of delta)) t (\<lambda>m a. True) S'" if "(d, t) \<in> set ds" for d t
    using Await.IH(2) [OF that _ S'(2)] x'(3) that by blast
  ultimately show ?case using S'(1) by auto
qed auto

lemma accepts_some_of:
  "accepts (some_of delta) S qs = Some S' \<Longrightarrow> S \<noteq> {} \<Longrightarrow>
     S' \<noteq> {} \<and> (\<forall>x' \<in> S'. \<exists>x \<in> S. accepts delta x qs = Some x')"
proof (induction qs arbitrary: S)
  case (Cons q qs)
  then obtain T where T: "some_of delta S q = Some T" "accepts (some_of delta) T qs = Some S'"
    by (auto split: option.splits)
  then have "T \<noteq> {}" and sub: "\<forall>x' \<in> T. \<exists>x \<in> S. delta x q = Some x'"
    by (auto simp: some_of_def Let_def split: if_splits)
  from Cons.IH [OF T(2) this(1)] sub show ?case
    by (auto split: option.splits) (metis option.sel option.distinct(1))+
qed auto

lemma some_of_same: "(\<And>x. x \<in> S \<Longrightarrow> delta x q = Some x) \<Longrightarrow> S \<noteq> {} \<Longrightarrow> some_of delta S q = Some S"
  by (auto simp: some_of_def Let_def)

text \<open>A monitor that admits only some questions.\<close>

definition every :: "('q \<Rightarrow> bool) \<Rightarrow> 'm \<Rightarrow> 'q \<Rightarrow> 'm option" where
  "every P m q = (if P q then Some m else None)"

lemma accepts_every: "accepts (every P) m qs = Some m' \<Longrightarrow> list_all P qs"
  by (induction qs) (auto simp: every_def split: if_splits)

text \<open>A monitor that admits one sequence of questions, from its front.\<close>

fun expects :: "'q list \<Rightarrow> 'q \<Rightarrow> 'q list option" where
  "expects [] q = None"
| "expects (x # xs) q = (if q = x then Some xs else None)"

lemma accepts_expects: "accepts expects xs qs = Some ys \<Longrightarrow> xs = qs @ ys"
proof (induction qs arbitrary: xs)
  case (Cons q qs)
  then show ?case by (cases xs) (auto split: if_splits)
qed simp

lemma accepts_none: "accepts (\<lambda>m q. None) m qs = Some m' \<Longrightarrow> qs = []"
  by (cases qs) simp_all

section \<open>Monitors of the effects\<close>

text \<open>A monitor that watches only the effects on the shared state, with its own memory of them; the
  task may be suspended when the memory is in \<open>A\<close>, and may panic when it is in \<open>R\<close>.\<close>

definition effect_monitor ::
    "('e \<Rightarrow> bool) \<Rightarrow> bool \<Rightarrow> ('s \<Rightarrow> bool) \<Rightarrow> ('m \<Rightarrow> 's \<Rightarrow> 's \<Rightarrow> 'm option) \<Rightarrow>
     ('m \<Rightarrow> bool) \<Rightarrow> ('m \<Rightarrow> bool) \<Rightarrow> ('s, 'q, 'e, 'm) monitor" where
  "effect_monitor ok ex sh acc A R =
     \<lparr>env_ok = ok, shared_ok = sh, may_expire = ex,
      watch = (\<lambda>m ob. case ob of Effect s s' \<Rightarrow> acc m s s' | Ask q \<Rightarrow> if A m then Some m else None),
      panic_ok = (\<lambda>m p. R m)\<rparr>"

lemma effect_monitor_simps [simp]:
  "env_ok (effect_monitor ok ex sh acc A R) = ok"
  "shared_ok (effect_monitor ok ex sh acc A R) = sh"
  "may_expire (effect_monitor ok ex sh acc A R) = ex"
  "watch (effect_monitor ok ex sh acc A R) m (Effect s s') = acc m s s'"
  "watch (effect_monitor ok ex sh acc A R) m (Ask q) = (if A m then Some m else None)"
  "panic_ok (effect_monitor ok ex sh acc A R) m p = R m"
  by (simp_all add: effect_monitor_def)

lemma wp_effect_ops:
  "wp (effect_monitor ok ex sh acc A R) (given f k) Q m \<longleftrightarrow>
     (\<forall>e s. ok e \<longrightarrow> sh s \<longrightarrow> (\<exists>m'. acc m s s = Some m' \<and> wp (effect_monitor ok ex sh acc A R) (k (f e)) Q m'))"
  "wp (effect_monitor ok ex sh acc A R) (load g k) Q m \<longleftrightarrow>
     (\<forall>e s. ok e \<longrightarrow> sh s \<longrightarrow> (\<exists>m'. acc m s s = Some m' \<and> wp (effect_monitor ok ex sh acc A R) (k (g s)) Q m'))"
  "wp (effect_monitor ok ex sh acc A R) (update h t) Q m \<longleftrightarrow>
     (\<forall>e s. ok e \<longrightarrow> sh s \<longrightarrow> (\<exists>m'. acc m s (h s) = Some m' \<and> wp (effect_monitor ok ex sh acc A R) t Q m'))"
  "wp (effect_monitor ok ex sh acc A R) (unwrap r k) Q m \<longleftrightarrow>
     (\<forall>v. r = Val v \<longrightarrow> wp (effect_monitor ok ex sh acc A R) (k v) Q m) \<and> (\<forall>p. r = Panic p \<longrightarrow> R m)"
  "wp (effect_monitor ok ex sh acc A R) (call c k) Q m \<longleftrightarrow>
     (\<forall>e s. ok e \<longrightarrow> sh s \<longrightarrow> (\<exists>m'. acc m s (fst (c e s)) = Some m' \<and>
        wp (effect_monitor ok ex sh acc A R) (unwrap (snd (c e s)) k) Q m'))"
  "wp (effect_monitor ok ex sh acc A R) (await q f k) Q m \<longleftrightarrow>
     A m \<and> (\<forall>e. ok e \<longrightarrow> wp (effect_monitor ok ex sh acc A R) (k (f e)) Q m)"
  by (simp_all add: task_ops wp_unwrap split: outcome.split)

primrec effects :: "('m \<Rightarrow> 's \<Rightarrow> 's \<Rightarrow> 'm option) \<Rightarrow> 'm \<Rightarrow> ('s, 'q) observation list \<Rightarrow> 'm option" where
  "effects acc m [] = Some m"
| "effects acc m (ob # obs) =
     (case ob of
        Ask q \<Rightarrow> effects acc m obs
      | Effect s s' \<Rightarrow> (case acc m s s' of None \<Rightarrow> None | Some m' \<Rightarrow> effects acc m' obs))"

lemma watches_effect:
  "watches (effect_monitor ok ex sh acc A R) m obs = Some m' \<Longrightarrow> effects acc m obs = Some m'"
  by (induction obs arbitrary: m) (auto split: observation.splits option.splits if_splits)

lemma script_ok_effect:
  "script_ok (effect_monitor ok ex sh acc A R) w \<longleftrightarrow> readings_ok ok ex w \<and> (\<forall>s \<in> states_of w. sh s)"
  by (auto simp: script_ok_def readings_ok_def states_of_def list_all_iff)

theorem effect_sound:
  assumes "wp (effect_monitor ok ex sh acc A R) t Q m" and "readings_ok ok ex w" and "\<forall>s \<in> states_of w. sh s"
  shows "\<exists>m'. effects acc m (fst (follow t w)) = Some m' \<and> wp (effect_monitor ok ex sh acc A R) (final t w) Q m'"
proof -
  have "script_ok (effect_monitor ok ex sh acc A R) w" using assms(2,3) by (simp add: script_ok_effect)
  from wp_sound [OF assms(1) this] show ?thesis by (metis watches_effect)
qed

section \<open>The tasks a run goes through\<close>

lemma final_in:
  assumes "t \<in> T"
    and "\<And>s ch t ob t'. t \<in> T \<Longrightarrow> s \<in> states_of w \<Longrightarrow> advance s ch t = Some (ob, t') \<Longrightarrow> t' \<in> T"
  shows "final t w \<in> T"
  using assms
proof (induction t w rule: follow.induct)
  case (2 t s ch w)
  have ih: "s' \<in> states_of w \<Longrightarrow> s' \<in> states_of ((s, ch) # w)" for s' by (simp add: states_of_def)
  show ?case
  proof (cases "advance s ch t")
    case None
    then have "final t ((s, ch) # w) = final t w" by (simp add: final_def)
    with "2.IH"(1) [OF None "2.prems"(1)] "2.prems"(2) ih show ?thesis by metis
  next
    case (Some r)
    obtain ob t1 where r: "r = (ob, t1)" by fastforce
    then have "final t ((s, ch) # w) = final t1 w" using Some by (simp add: final_def split: prod.split)
    moreover have "t1 \<in> T" using "2.prems"(2) [OF "2.prems"(1), of s ch ob t1] Some r by (simp add: states_of_def)
    ultimately show ?thesis using "2.IH"(2) [OF Some r [symmetric]] "2.prems"(2) ih by metis
  qed
qed (simp add: final_def)

section \<open>Deadlines\<close>

text \<open>A property of every await a task can reach.\<close>

primrec all_awaits :: "((duration \<times> ('s, 'q, 'e, 'a) task) list \<Rightarrow> bool) \<Rightarrow> ('s, 'q, 'e, 'a) task \<Rightarrow> bool" where
  "all_awaits P (Return a) = True"
| "all_awaits P (Abort p) = True"
| "all_awaits P (Atomic u c) = (\<forall>e s. all_awaits P (c e s))"
| "all_awaits P (Await q c ds) = (P ds \<and> (\<forall>e. all_awaits P (c e)) \<and>
     list_all snd (map (map_prod id (all_awaits P)) ds))"

lemma all_awaits_Await [simp]:
  "all_awaits P (Await q c ds) \<longleftrightarrow> P ds \<and> (\<forall>e. all_awaits P (c e)) \<and> (\<forall>(d, t) \<in> set ds. all_awaits P t)"
  by (simp add: list_all_iff case_prod_beta)

declare all_awaits.simps(4) [simp del]

lemma all_awaits_advance:
  assumes "all_awaits P t" and "advance s ch t = Some (ob, t')"
  shows "all_awaits P t'"
  using assms
proof (cases "(s, ch, t)" rule: advance.cases)
  case (3 s i q c ds)
  with assms have "(fst (ds ! i), t') \<in> set ds" "\<forall>(d, t) \<in> set ds. all_awaits P t" by (auto split: if_splits)
  then show ?thesis by auto
qed auto

lemma all_awaits_final: "all_awaits P t \<Longrightarrow> all_awaits P (final t w)"
proof (induction t w rule: follow.induct)
  case (2 t s ch w)
  then show ?case
    by (cases "advance s ch t") (auto simp: final_def case_prod_beta dest: all_awaits_advance)
qed (simp add: final_def)

lemma all_awaits_bind:
  assumes "all_awaits P t" and "\<And>a. all_awaits P' (k a)"
    and "\<And>ds. P ds \<Longrightarrow> P' (map (map_prod id (\<lambda>t. bind t k)) ds)"
  shows "all_awaits P' (bind t k)"
  using assms(1)
proof (induction t rule: task_induct)
  case (Await q c ds)
  then show ?case using assms(3) by fastforce
qed (use assms(2) in auto)

lemma all_awaits_timeout: "all_awaits (\<lambda>ds. (d, Return None) \<in> set ds) (timeout d t)"
  by (induction t rule: task_induct) fastforce+

text \<open>The deadline \<open>d\<close> leads to \<open>t\<close>.\<close>

definition cut_to :: "duration \<Rightarrow> ('s, 'q, 'e, 'a) task \<Rightarrow> (duration \<times> ('s, 'q, 'e, 'a) task) list \<Rightarrow> bool" where
  "cut_to d t ds \<longleftrightarrow> (d, t) \<in> set ds"

lemma cut_to_bind: "cut_to d t ds \<Longrightarrow> cut_to d (bind t k) (map (map_prod id (\<lambda>t. bind t k)) ds)"
  by (force simp: cut_to_def)

lemma all_awaits_ops:
  "all_awaits P (given f k) \<longleftrightarrow> (\<forall>e. all_awaits P (k (f e)))"
  "all_awaits P (load g k) \<longleftrightarrow> (\<forall>s. all_awaits P (k (g s)))"
  "all_awaits P (update h t) \<longleftrightarrow> all_awaits P t"
  "all_awaits P (unwrap r k) \<longleftrightarrow> (\<forall>v. r = Val v \<longrightarrow> all_awaits P (k v))"
  "all_awaits P (call c k) \<longleftrightarrow> (\<forall>e s. all_awaits P (unwrap (snd (c e s)) k))"
  by (cases r; simp add: task_ops)+

text \<open>A task that returns \<open>a\<close> within two more accesses, whatever it finds.\<close>

definition ends_in :: "'a \<Rightarrow> ('s, 'q, 'e, 'a) task \<Rightarrow> bool" where
  "ends_in a t \<longleftrightarrow> (\<forall>s1 e1 s2 e2. final t [(s1, Go e1), (s2, Go e2)] = Return a)"

lemma ends_in_log: "ends_in resp (given f (\<lambda>x. update (h x) (Return resp)))"
  by (simp add: ends_in_def task_ops final_def)

lemma cut_ends:
  assumes "cut_to d (Return resp) ds" and "ends_in resp (k resp)"
  shows "\<exists>t. (d, t) \<in> set (map (map_prod id (\<lambda>t. bind t k)) ds) \<and> ends_in resp t"
  using cut_to_bind [OF assms(1), of k] assms(2) by (auto simp: cut_to_def)

section \<open>Interleaved tasks\<close>

text \<open>Tasks over one shared state: each step names the task that runs and the environment's part.\<close>

fun interleave ::
    "'s \<Rightarrow> ('s, 'q, 'e, 'a) task list \<Rightarrow> (nat \<times> 'e choice) list \<Rightarrow> 's \<times> ('s, 'q, 'e, 'a) task list" where
  "interleave s ts [] = (s, ts)"
| "interleave s ts ((i, ch) # w) =
     (if length ts \<le> i then interleave s ts w
      else case advance s ch (ts ! i) of
             None \<Rightarrow> interleave s ts w
           | Some (ob, t) \<Rightarrow> interleave (case ob of Effect s0 s' \<Rightarrow> s' | Ask q \<Rightarrow> s) (ts[i := t]) w)"

lemma interleave_append:
  "interleave s ts (v @ w) = (case interleave s ts v of (s', ts') \<Rightarrow> interleave s' ts' w)"
  by (induction s ts v rule: interleave.induct) (simp_all split: option.split prod.split)

primrec finished :: "('s, 'q, 'e, 'a) task \<Rightarrow> bool" where
  "finished (Return a) = True"
| "finished (Abort p) = True"
| "finished (Atomic u c) = False"
| "finished (Await q c ds) = False"

text \<open>
  \<open>balance\<close> books the change of a counter \<open>f\<close> to the task that makes it, and requires every effect to
  keep the invariant \<open>sh\<close>. When every task leaves a balance of zero behind, the counter of the
  interleaved run is where it started once all tasks are finished, provided no deadline passes: a
  future that is dropped does not pay back.
\<close>

definition balance :: "('s \<Rightarrow> bool) \<Rightarrow> ('s \<Rightarrow> 'g :: ab_group_add) \<Rightarrow> 'g \<Rightarrow> 's \<Rightarrow> 's \<Rightarrow> 'g option" where
  "balance sh f m s s' = (if sh s' then Some (m + (f s' - f s)) else None)"

lemma sum_list_update_group:
  "i < length xs \<Longrightarrow> sum_list (xs[i := xs ! i + d]) = sum_list xs + (d :: 'g :: ab_group_add)"
  by (induction xs arbitrary: i) (auto split: nat.splits simp: algebra_simps)

lemma balance_same: "sh s' \<Longrightarrow> f s' = f s \<Longrightarrow> balance sh f m s s' = Some m"
  by (simp add: balance_def)

abbreviation balance_monitor where
  "balance_monitor ok sh f \<equiv> effect_monitor ok False sh (balance sh f) (\<lambda>m. True) (\<lambda>m. m = 0)"

lemma balance_advance:
  assumes "wp (balance_monitor ok sh f) t (\<lambda>m a. m = 0) m" and "advance s ch t = Some (ob, t')"
    and "sh s" and "choice_ok ok False ch"
  shows "sh (case ob of Effect s0 s' \<Rightarrow> s' | Ask q \<Rightarrow> s) \<and>
    wp (balance_monitor ok sh f) t' (\<lambda>m a. m = 0) (m + (f (case ob of Effect s0 s' \<Rightarrow> s' | Ask q \<Rightarrow> s) - f s))"
proof -
  obtain m' where m': "watch (balance_monitor ok sh f) m ob = Some m'"
    "wp (balance_monitor ok sh f) t' (\<lambda>m a. m = 0) m'"
    using wp_advance [OF assms(1,2)] assms(3,4) by auto
  show ?thesis
  proof (cases ob)
    case (Effect s0 s')
    then have "s0 = s" using assms(2) by (cases "(s, ch, t)" rule: advance.cases) (auto split: if_splits)
    with Effect m' show ?thesis by (auto simp: balance_def split: if_splits)
  qed (use m' assms(3) in simp)
qed

lemma interleave_balance:
  assumes "list_all2 (\<lambda>t m. wp (balance_monitor ok sh f) t (\<lambda>m a. m = 0) m) ts ms"
    and "sh s" and "list_all (\<lambda>(i, ch). choice_ok ok False ch) w"
  shows "\<exists>ms'. list_all2 (\<lambda>t m. wp (balance_monitor ok sh f) t (\<lambda>m a. m = 0) m) (snd (interleave s ts w)) ms' \<and>
    f (fst (interleave s ts w)) - sum_list ms' = f s - sum_list ms"
  using assms
proof (induction s ts w arbitrary: ms rule: interleave.induct)
  case (2 s ts i ch w)
  show ?case
  proof (cases "length ts \<le> i \<or> advance s ch (ts ! i) = None")
    case True
    then show ?thesis using "2.IH"(1,2) "2.prems" by (cases "length ts \<le> i") auto
  next
    case False
    then obtain ob t where i: "i < length ts" and a: "advance s ch (ts ! i) = Some (ob, t)" by auto
    let ?s = "case ob of Effect s0 s' \<Rightarrow> s' | Ask q \<Rightarrow> s"
    let ?m = "ms ! i + (f ?s - f s)"
    have im: "i < length ms" using i "2.prems"(1) by (simp add: list_all2_lengthD)
    have t: "sh ?s" "wp (balance_monitor ok sh f) t (\<lambda>m a. m = 0) ?m"
      using balance_advance [OF list_all2_nthD [OF "2.prems"(1) i] a "2.prems"(2)] "2.prems"(3) by auto
    have upd: "list_all2 (\<lambda>t m. wp (balance_monitor ok sh f) t (\<lambda>m a. m = 0) m) (ts[i := t]) (ms[i := ?m])"
      using "2.prems"(1) t(2) by (rule list_all2_update_cong)
    have sum: "sum_list (ms[i := ?m]) = sum_list ms + (f ?s - f s)"
      by (rule sum_list_update_group [OF im])
    have eq: "interleave s ts ((i, ch) # w) = interleave ?s (ts[i := t]) w" using i a by simp
    from "2.IH"(3) [OF _ a refl upd t(1)] i "2.prems"(3) obtain ms'
      where ms': "list_all2 (\<lambda>t m. wp (balance_monitor ok sh f) t (\<lambda>m a. m = 0) m) (snd (interleave ?s (ts[i := t]) w)) ms'"
        "f (fst (interleave ?s (ts[i := t]) w)) - sum_list ms' = f ?s - sum_list (ms[i := ?m])" by auto
    have "f ?s - sum_list (ms[i := ?m]) = f s - sum_list ms" unfolding sum by simp
    with ms' show ?thesis unfolding eq by auto
  qed
qed auto

theorem interleave_balanced:
  fixes f :: "'s \<Rightarrow> 'g :: ab_group_add"
  assumes "\<forall>t \<in> set ts. wp (balance_monitor ok sh f) t (\<lambda>m a. m = 0) 0"
    and "sh s" and "list_all (\<lambda>(i, ch). choice_ok ok False ch) w"
    and "\<forall>t \<in> set (snd (interleave s ts w)). finished t"
  shows "f (fst (interleave s ts w)) = f s"
proof -
  let ?W = "\<lambda>t m. wp (balance_monitor ok sh f) t (\<lambda>m a. m = 0) m"
  have "list_all2 ?W ts (replicate (length ts) 0)"
    using assms(1) by (simp add: list_all2_conv_all_nth)
  from interleave_balance [OF this assms(2,3)] obtain ms
    where ms: "list_all2 ?W (snd (interleave s ts w)) ms"
      "f (fst (interleave s ts w)) - sum_list ms = f s - sum_list (replicate (length ts) 0)" by blast
  have "m = 0" if "?W t m" "finished t" for t m using that by (cases t) auto
  then have "\<forall>m \<in> set ms. m = 0"
    using ms(1) assms(4) by (metis in_set_conv_nth list_all2_conv_all_nth)
  then have "sum_list ms = 0" by (induction ms) auto
  moreover have "sum_list (replicate n (0 :: 'g)) = 0" for n by (induction n) auto
  ultimately show ?thesis using ms(2) by simp
qed

end
