(* ===== verification/Errors.thy ===== *)
theory Errors
  imports Prelude
begin

text \<open>
  errors.rs: the error type of the proxy and the response each error becomes. A response carries
  its status code, the headers (a type of the HTTP library, hence a parameter \<open>'h\<close>) and its body.
\<close>

datatype proxy_error =
    UpstreamFailure
  | UpstreamTimeout
  | NoRoute
  | UpstreamFailed
  | InvalidUri
  | NoUpstream

record 'h response =
  status :: nat
  resp_headers :: 'h
  resp_body :: string

definition BAD_REQUEST :: nat where "BAD_REQUEST = 400"
definition NOT_FOUND :: nat where "NOT_FOUND = 404"
definition TOO_MANY_REQUESTS :: nat where "TOO_MANY_REQUESTS = 429"
definition BAD_GATEWAY :: nat where "BAD_GATEWAY = 502"
definition SERVICE_UNAVAILABLE :: nat where "SERVICE_UNAVAILABLE = 503"
definition GATEWAY_TIMEOUT :: nat where "GATEWAY_TIMEOUT = 504"

definition is_server_error :: "nat \<Rightarrow> bool" where
  "is_server_error s = (500 \<le> s \<and> s < 600)"

definition is_success :: "nat \<Rightarrow> bool" where
  "is_success s = (200 \<le> s \<and> s < 300)"

primrec proxy_error_display :: "proxy_error \<Rightarrow> string" where
  "proxy_error_display UpstreamFailure = ''Upstream failure''"
| "proxy_error_display UpstreamTimeout = ''Upstream timeout''"
| "proxy_error_display NoRoute = ''No route found''"
| "proxy_error_display UpstreamFailed = ''Upstream request failed''"
| "proxy_error_display InvalidUri = ''Invalid URI''"
| "proxy_error_display NoUpstream = ''No upstream available''"

text \<open>\<open>no_headers\<close> is the empty header map a response builder starts from.\<close>

primrec into_response :: "'h \<Rightarrow> proxy_error \<Rightarrow> 'h response" where
  "into_response no_headers UpstreamFailure =
     \<lparr>status = BAD_GATEWAY, resp_headers = no_headers, resp_body = ''Bad Gateway''\<rparr>"
| "into_response no_headers UpstreamTimeout =
     \<lparr>status = GATEWAY_TIMEOUT, resp_headers = no_headers, resp_body = ''Gateway Timeout''\<rparr>"
| "into_response no_headers NoRoute =
     \<lparr>status = NOT_FOUND, resp_headers = no_headers, resp_body = ''No route found''\<rparr>"
| "into_response no_headers UpstreamFailed =
     \<lparr>status = BAD_GATEWAY, resp_headers = no_headers, resp_body = ''Upstream request failed''\<rparr>"
| "into_response no_headers InvalidUri =
     \<lparr>status = BAD_REQUEST, resp_headers = no_headers, resp_body = ''Invalid URI''\<rparr>"
| "into_response no_headers NoUpstream =
     \<lparr>status = SERVICE_UNAVAILABLE, resp_headers = no_headers, resp_body = ''No upstream available''\<rparr>"

lemmas status_codes = BAD_REQUEST_def NOT_FOUND_def TOO_MANY_REQUESTS_def BAD_GATEWAY_def
  SERVICE_UNAVAILABLE_def GATEWAY_TIMEOUT_def

lemma into_response_error_status: "400 \<le> status (into_response nh e) \<and> status (into_response nh e) < 600"
  by (cases e) (simp_all add: status_codes)

lemma into_response_server_error:
  "is_server_error (status (into_response nh e)) \<longleftrightarrow> e \<notin> {NoRoute, InvalidUri}"
  by (cases e) (simp_all add: status_codes is_server_error_def)

end
