(* ===== verification/Sip_Hash.thy ===== *)
theory Sip_Hash
  imports Prelude
begin

text \<open>
  \<open>std::collections::hash_map::DefaultHasher\<close> as \<open>hash_key\<close> of balancer.rs uses it: SipHash-1-3
  with a zero key over the bytes of the string and the terminator byte \<open>0xff\<close> that
  \<open>str::hash\<close> appends. Rust leaves the algorithm of \<open>DefaultHasher\<close> open between releases; no
  lemma of the development but the evaluated witnesses depends on it.
\<close>

unbundle bit_operations_syntax

definition rotate_left :: "nat \<Rightarrow> u64 \<Rightarrow> u64" where
  "rotate_left n x = push_bit n x OR drop_bit (64 - n) x"

type_synonym sip_state = "u64 \<times> u64 \<times> u64 \<times> u64"

fun sip_round :: "sip_state \<Rightarrow> sip_state" where
  "sip_round (v0, v1, v2, v3) =
     (let v0 = v0 + v1; v1 = rotate_left 13 v1 XOR v0; v0 = rotate_left 32 v0;
          v2 = v2 + v3; v3 = rotate_left 16 v3 XOR v2;
          v0 = v0 + v3; v3 = rotate_left 21 v3 XOR v0;
          v2 = v2 + v1; v1 = rotate_left 17 v1 XOR v2; v2 = rotate_left 32 v2
      in (v0, v1, v2, v3))"

text \<open>Eight bytes, the first one least significant.\<close>

primrec le_word :: "char list \<Rightarrow> u64" where
  "le_word [] = 0"
| "le_word (c # cs) = of_char c OR push_bit 8 (le_word cs)"

fun sip_block :: "sip_state \<Rightarrow> u64 \<Rightarrow> sip_state" where
  "sip_block (v0, v1, v2, v3) m =
     (case sip_round (v0, v1, v2, v3 XOR m) of (w0, w1, w2, w3) \<Rightarrow> (w0 XOR m, w1, w2, w3))"

fun sip_compress :: "sip_state \<Rightarrow> char list \<Rightarrow> sip_state \<times> char list" where
  "sip_compress v (b0 # b1 # b2 # b3 # b4 # b5 # b6 # b7 # rest) =
     sip_compress (sip_block v (le_word [b0, b1, b2, b3, b4, b5, b6, b7])) rest"
| "sip_compress v tail = (v, tail)"

definition sip_hash13 :: "char list \<Rightarrow> u64" where
  "sip_hash13 bytes =
     (case sip_compress (0x736f6d6570736575, 0x646f72616e646f6d,
                         0x6c7967656e657261, 0x7465646279746573) bytes of
        (v, tail) \<Rightarrow>
          (case sip_block v (push_bit 56 (of_nat (length bytes mod 256)) OR le_word tail) of
             (v0, v1, v2, v3) \<Rightarrow>
               (case sip_round (sip_round (sip_round (v0, v1, v2 XOR 0xff, v3))) of
                  (w0, w1, w2, w3) \<Rightarrow> w0 XOR w1 XOR w2 XOR w3)))"

definition hash_key :: "string \<Rightarrow> u64" where
  "hash_key key = sip_hash13 (key @ [CHR 0xFF])"

text \<open>\<open>Display\<close> of an unsigned integer, as \<open>format!\<close> prints it.\<close>

fun decimal :: "nat \<Rightarrow> string" where
  "decimal n = (if n < 10 then [char_of (48 + n)] else decimal (n div 10) @ [char_of (48 + n mod 10)])"

declare decimal.simps [simp del]

lemma decimal_nonempty [simp]: "decimal n \<noteq> []"
  by (subst decimal.simps) simp

lemma decimal_last_digit:
  "n mod 10 = m mod 10 \<longleftrightarrow> last (decimal n) = last (decimal m)"
proof -
  have last: "last (decimal k) = char_of (48 + k mod 10)" for k
    by (subst decimal.simps) simp
  have "(char_of (48 + a) :: char) = char_of (48 + b) \<longleftrightarrow> a = b" if "a < 10" "b < 10" for a b :: nat
    using that by (simp add: char_of_quasi_inj)
  then show ?thesis by (simp add: last)
qed

lemma decimal_inject: "decimal n = decimal m \<longleftrightarrow> n = m"
proof (induction n arbitrary: m rule: decimal.induct)
  case (1 n)
  show ?case
  proof
    assume eq: "decimal n = decimal m"
    then have lasts: "n mod 10 = m mod 10" by (simp add: decimal_last_digit)
    have len: "length (decimal k) = 1 \<longleftrightarrow> k < 10" for k
      by (subst decimal.simps) simp
    show "n = m"
    proof (cases "n < 10")
      case True
      with len [of n] len [of m] eq have "m < 10" by simp
      with True lasts show ?thesis by simp
    next
      case False
      with len [of n] len [of m] eq have "\<not> m < 10" by simp
      with False eq have "decimal (n div 10) = decimal (m div 10)"
        by (simp add: decimal.simps [of n] decimal.simps [of m])
      with "1.IH" [OF False, of "m div 10"] have "n div 10 = m div 10" by blast
      with lasts show ?thesis by (metis div_mod_decomp)
    qed
  qed simp
qed

end
