(* ===== verification/Net_Addr.thy ===== *)
theory Net_Addr
  imports Sip_Hash
begin

text \<open>
  \<open>std::net::IpAddr\<close> and its \<open>Display\<close>, which forward_once of proxy.rs appends to
  \<open>X-Forwarded-For\<close>: dotted decimal for version 4; for version 6 the lower-case hexadecimal
  segments with the first longest run of at least two zero segments compressed, and the dotted
  form for addresses mapped from version 4.
\<close>

datatype ip_addr = V4 u32 | V6 "128 word"

definition octets :: "u32 \<Rightarrow> nat list" where
  "octets a = map (\<lambda>k. unat (drop_bit k a) mod 256) [24, 16, 8, 0]"

definition segments :: "128 word \<Rightarrow> nat list" where
  "segments a = map (\<lambda>k. unat (drop_bit k a) mod 65536) [112, 96, 80, 64, 48, 32, 16, 0]"

fun join :: "string \<Rightarrow> string list \<Rightarrow> string" where
  "join sep [] = []"
| "join sep [x] = x"
| "join sep (x # y # xs) = x @ sep @ join sep (y # xs)"

definition hex_digit :: "nat \<Rightarrow> char" where
  "hex_digit d = (if d < 10 then char_of (48 + d) else char_of (87 + d))"

fun hex :: "nat \<Rightarrow> string" where
  "hex n = (if n < 16 then [hex_digit n] else hex (n div 16) @ [hex_digit (n mod 16)])"

declare hex.simps [simp del]

text \<open>The first longest run of zero segments, as (start, length); \<open>cur\<close> is the run being read.\<close>

fun longest_zeros :: "nat list \<Rightarrow> nat \<Rightarrow> nat \<times> nat \<Rightarrow> nat \<times> nat \<Rightarrow> nat \<times> nat" where
  "longest_zeros [] i cur longest = longest"
| "longest_zeros (x # xs) i cur longest =
     (if x = 0 then
        let cur = ((if snd cur = 0 then i else fst cur), snd cur + 1);
            longest = (if snd longest < snd cur then cur else longest)
        in longest_zeros xs (i + 1) cur longest
      else longest_zeros xs (i + 1) (0, 0) longest)"

definition ipv4_to_string :: "u32 \<Rightarrow> string" where
  "ipv4_to_string a = join ''.'' (map decimal (octets a))"

definition ipv6_to_string :: "128 word \<Rightarrow> string" where
  "ipv6_to_string a =
     (let s = segments a in
      if take 6 s = [0, 0, 0, 0, 0, 65535] then ''::ffff:'' @ ipv4_to_string (ucast a)
      else let z = longest_zeros s 0 (0, 0) (0, 0) in
        if 1 < snd z then
          join '':'' (map hex (take (fst z) s)) @ ''::'' @ join '':'' (map hex (drop (fst z + snd z) s))
        else join '':'' (map hex s))"

primrec ip_to_string :: "ip_addr \<Rightarrow> string" where
  "ip_to_string (V4 a) = ipv4_to_string a"
| "ip_to_string (V6 a) = ipv6_to_string a"

section \<open>The text of an address is visible ASCII\<close>

definition visible_ascii :: "string \<Rightarrow> bool" where
  "visible_ascii s = list_all (\<lambda>c. 32 \<le> (of_char c :: nat) \<and> (of_char c :: nat) < 127) s"

lemma visible_ascii_append [simp]: "visible_ascii (s @ t) \<longleftrightarrow> visible_ascii s \<and> visible_ascii t"
  by (simp add: visible_ascii_def)

lemma visible_ascii_Nil [simp]: "visible_ascii []"
  by (simp add: visible_ascii_def)

lemma visible_ascii_Cons:
  "visible_ascii (c # s) \<longleftrightarrow> 32 \<le> (of_char c :: nat) \<and> (of_char c :: nat) < 127 \<and> visible_ascii s"
  by (simp add: visible_ascii_def)

lemma of_char_char_of: "n < 256 \<Longrightarrow> (of_char (char_of n) :: nat) = n"
  by simp

lemma visible_ascii_decimal: "visible_ascii (decimal n)"
proof (induction n rule: decimal.induct)
  case (1 n)
  show ?case
  proof (cases "n < 10")
    case True
    then show ?thesis by (subst decimal.simps) (simp add: visible_ascii_Cons)
  next
    case False
    with "1.IH" show ?thesis by (subst decimal.simps) (simp add: visible_ascii_Cons)
  qed
qed

lemma visible_ascii_hex: "visible_ascii (hex n)"
proof -
  have digit: "visible_ascii [hex_digit d]" if "d < 16" for d
    using that by (auto simp: hex_digit_def visible_ascii_Cons)
  show ?thesis
  proof (induction n rule: hex.induct)
    case (1 n)
    show ?case
    proof (cases "n < 16")
      case True
      then show ?thesis by (subst hex.simps) (simp add: digit)
    next
      case False
      with "1.IH" digit [of "n mod 16"] show ?thesis by (subst hex.simps) simp
    qed
  qed
qed

lemma visible_ascii_join:
  "visible_ascii sep \<Longrightarrow> \<forall>x \<in> set xs. visible_ascii x \<Longrightarrow> visible_ascii (join sep xs)"
  by (induction sep xs rule: join.induct) auto

lemma visible_ascii_ipv4: "visible_ascii (ipv4_to_string a)"
  by (auto simp: ipv4_to_string_def visible_ascii_Cons visible_ascii_decimal intro!: visible_ascii_join)

lemma visible_ascii_ip: "visible_ascii (ip_to_string ip)"
proof (cases ip)
  case (V4 a)
  then show ?thesis by (simp add: visible_ascii_ipv4)
next
  case (V6 a)
  have "visible_ascii (join '':'' (map hex xs))" for xs
    by (rule visible_ascii_join) (auto simp: visible_ascii_Cons visible_ascii_hex)
  with V6 show ?thesis
    by (simp add: ipv6_to_string_def Let_def visible_ascii_ipv4 visible_ascii_Cons)
qed

end
