(* ===== verification/Http.thy ===== *)
theory Http
  imports Errors Net_Addr
begin

text \<open>
  The part of the http and hyper crates the proxy calls, as a parameter: header maps (\<open>'h\<close>), header
  values (\<open>'v\<close>) and URIs (\<open>'u\<close>) with their operations. Header names are lower case, as the crate
  keeps them. \<open>http_laws\<close> states what the crate documents about them; \<open>plain_http\<close> is an instance
  on which witnesses evaluate.
\<close>

section \<open>The operations\<close>

record ('h, 'v, 'u) http =
  no_headers :: 'h
  hdr_get :: "'h \<Rightarrow> string \<Rightarrow> 'v option"
  hdr_insert :: "'h \<Rightarrow> string \<Rightarrow> 'v \<Rightarrow> 'h"
  hdr_remove :: "'h \<Rightarrow> string \<Rightarrow> 'h"
  value_to_str :: "'v \<Rightarrow> string option"
  value_from_str :: "string \<Rightarrow> 'v option"
  value_from_static :: "string \<Rightarrow> 'v"
  uri_parse :: "string \<Rightarrow> 'u option"
  uri_path :: "'u \<Rightarrow> string"
  uri_path_and_query :: "'u \<Rightarrow> string option"

text \<open>Text a header value can be read as: visible ASCII and tabs.\<close>

definition header_text :: "string \<Rightarrow> bool" where
  "header_text s = list_all (\<lambda>c. 32 \<le> (of_char c :: nat) \<and> (of_char c :: nat) < 127 \<or> (of_char c :: nat) = 9) s"

definition http_laws :: "('h, 'v, 'u) http \<Rightarrow> bool" where
  "http_laws L \<longleftrightarrow>
     (\<forall>n. hdr_get L (no_headers L) n = None) \<and>
     (\<forall>h n v n'. hdr_get L (hdr_insert L h n v) n' = (if n' = n then Some v else hdr_get L h n')) \<and>
     (\<forall>h n n'. hdr_get L (hdr_remove L h n) n' = (if n' = n then None else hdr_get L h n')) \<and>
     (\<forall>s. header_text s \<longrightarrow> (\<exists>v. value_from_str L s = Some v \<and> value_to_str L v = Some s)) \<and>
     (\<forall>v s. value_to_str L v = Some s \<longrightarrow> header_text s) \<and>
     (\<forall>s. header_text s \<longrightarrow> value_to_str L (value_from_static L s) = Some s) \<and>
     uri_parse L ''/'' \<noteq> None"

record ('h, 'u) request =
  req_method :: string
  req_uri :: 'u
  req_headers :: 'h
  req_body :: string
  remote_addr :: "ip_addr option"

section \<open>Consequences of the laws\<close>

lemma http_get:
  assumes "http_laws L"
  shows "hdr_get L (no_headers L) n = None"
    and "hdr_get L (hdr_insert L h n v) n' = (if n' = n then Some v else hdr_get L h n')"
    and "hdr_get L (hdr_remove L h n) n' = (if n' = n then None else hdr_get L h n')"
  using assms by (simp_all add: http_laws_def)

lemma http_from_str:
  "http_laws L \<Longrightarrow> header_text s \<Longrightarrow> \<exists>v. value_from_str L s = Some v \<and> value_to_str L v = Some s"
  by (simp add: http_laws_def)

lemma http_to_str: "http_laws L \<Longrightarrow> value_to_str L v = Some s \<Longrightarrow> header_text s"
  by (auto simp: http_laws_def)

lemma http_static: "http_laws L \<Longrightarrow> header_text s \<Longrightarrow> value_to_str L (value_from_static L s) = Some s"
  by (simp add: http_laws_def)

lemma http_root: "http_laws L \<Longrightarrow> \<exists>u. uri_parse L ''/'' = Some u"
  by (auto simp: http_laws_def)

lemma header_text_append [simp]: "header_text (s @ t) \<longleftrightarrow> header_text s \<and> header_text t"
  by (simp add: header_text_def)

lemma header_text_visible: "visible_ascii s \<Longrightarrow> header_text s"
  by (auto simp: visible_ascii_def header_text_def list_all_iff)

lemma header_text_ip [simp]: "header_text (ip_to_string ip)"
  by (rule header_text_visible) (rule visible_ascii_ip)

section \<open>A plain instance\<close>

text \<open>
  Header maps as functions, values as the text itself, a URI as its authority and its path with the
  query. A URI is a path, or \<open>http://\<close>, an authority that is not empty and a path.
\<close>

definition split_authority :: "string \<Rightarrow> string \<times> string" where
  "split_authority s = (takeWhile (\<lambda>c. c \<noteq> CHR ''/'') s, dropWhile (\<lambda>c. c \<noteq> CHR ''/'') s)"

definition plain_parse :: "string \<Rightarrow> (string \<times> string) option" where
  "plain_parse s =
     (if take 1 s = ''/'' then Some ([], s)
      else if take 7 s = ''http://''
      then (let u = split_authority (drop 7 s) in if fst u = [] then None else Some u)
      else None)"

definition plain_http :: "(string \<Rightarrow> string option, string, string \<times> string) http" where
  "plain_http =
     \<lparr>no_headers = Map.empty, hdr_get = (\<lambda>h n. h n), hdr_insert = (\<lambda>h n v. h(n \<mapsto> v)),
      hdr_remove = (\<lambda>h n. h(n := None)),
      value_to_str = (\<lambda>v. if header_text v then Some v else None),
      value_from_str = (\<lambda>s. if header_text s then Some s else None),
      value_from_static = (\<lambda>s. s),
      uri_parse = plain_parse,
      uri_path = (\<lambda>u. takeWhile (\<lambda>c. c \<noteq> CHR ''?'') (snd u)),
      uri_path_and_query = (\<lambda>u. Some (snd u))\<rparr>"

lemma plain_http_laws: "http_laws plain_http"
  by (simp add: http_laws_def plain_http_def plain_parse_def)

end
