(* ===== verification/Config.thy ===== *)
theory Config
  imports Clock
begin

text \<open>
  The configuration of config.rs: its structs as records (field names carry the struct's
  initials where two structs share a name), the default functions the \<open>serde\<close> attributes name,
  and what \<open>derive(Deserialize)\<close> does with them: each struct is built from the fields the YAML
  mapping holds, a missing field takes its default, an \<open>Option\<close> becomes \<open>None\<close>, and any other
  missing field is an error. The YAML text itself is read by serde_yaml, which is not modelled.
\<close>

section \<open>Structs\<close>

record health_check_config =
  hc_path :: string
  hc_interval_secs :: u64
  hc_timeout_secs :: u64

record rate_limit_config =
  requests_per_second :: f64
  burst_size :: u32

record server_config =
  bind_addr :: string
  request_timeout_secs :: u64
  max_retries :: usize
  failure_threshold :: u32
  health_cooldown_secs :: u64
  health_check :: "health_check_config option"
  retry_backoff_ms :: u64
  retry_budget_percent :: f64
  retry_budget_window_secs :: u64
  metrics_bind :: "string option"
  overall_timeout_secs :: u64
  rate_limit :: "rate_limit_config option"
  drain_timeout_secs :: u64
  pool_idle_timeout_secs :: u64
  pool_max_idle_per_host :: usize

datatype balancer_strategy = RoundRobin | LeastConnections | WeightedRoundRobin | ConsistentHash

record route_config =
  rc_prefix :: string
  rc_upstream :: "string list"
  rc_strategy :: balancer_strategy
  rc_weights :: "u32 list option"

record config =
  server :: server_config
  routes :: "route_config list"

section \<open>Defaults\<close>

definition default_failure_threshold :: u32 where
  "default_failure_threshold = 3"

definition default_health_cooldown_secs :: u64 where
  "default_health_cooldown_secs = 30"

definition default_health_check_path :: string where
  "default_health_check_path = ''/health''"

definition default_health_check_interval :: u64 where
  "default_health_check_interval = 10"

definition default_health_check_timeout :: u64 where
  "default_health_check_timeout = 3"

definition default_retry_backoff_ms :: u64 where
  "default_retry_backoff_ms = 100"

definition default_retry_budget_percent :: f64 where
  "default_retry_budget_percent = Fin 20"

definition default_retry_budget_window_secs :: u64 where
  "default_retry_budget_window_secs = 10"

definition default_overall_timeout_secs :: u64 where
  "default_overall_timeout_secs = 30"

definition default_drain_timeout_secs :: u64 where
  "default_drain_timeout_secs = 30"

definition default_pool_idle_timeout_secs :: u64 where
  "default_pool_idle_timeout_secs = 90"

definition default_pool_max_idle_per_host :: usize where
  "default_pool_max_idle_per_host = 32"

definition default_strategy :: balancer_strategy where
  "default_strategy = RoundRobin"

section \<open>Deserialisation\<close>

text \<open>The values a YAML mapping gives for the fields of a struct; \<open>None\<close> for a field it lacks.\<close>

record server_fields =
  f_bind :: "string option"
  f_request_timeout_secs :: "u64 option"
  f_max_retries :: "usize option"
  f_failure_threshold :: "u32 option"
  f_health_cooldown_secs :: "u64 option"
  f_health_check :: "health_check_config option"
  f_retry_backoff_ms :: "u64 option"
  f_retry_budget_percent :: "f64 option"
  f_retry_budget_window_secs :: "u64 option"
  f_metrics_bind :: "string option"
  f_overall_timeout_secs :: "u64 option"
  f_rate_limit :: "rate_limit_config option"
  f_drain_timeout_secs :: "u64 option"
  f_pool_idle_timeout_secs :: "u64 option"
  f_pool_max_idle_per_host :: "usize option"

datatype de_error = Missing_Field string | Unknown_Variant string

definition or_default :: "'a option \<Rightarrow> 'a \<Rightarrow> 'a" where
  "or_default v d = (case v of Some x \<Rightarrow> x | None \<Rightarrow> d)"

definition require :: "string \<Rightarrow> 'a option \<Rightarrow> de_error + 'a" where
  "require name v = (case v of Some x \<Rightarrow> Inr x | None \<Rightarrow> Inl (Missing_Field name))"

definition de_server_config :: "server_fields \<Rightarrow> de_error + server_config" where
  "de_server_config f =
     (case require ''bind'' (f_bind f) of Inl e \<Rightarrow> Inl e | Inr b \<Rightarrow>
     (case require ''request_timeout_secs'' (f_request_timeout_secs f) of Inl e \<Rightarrow> Inl e | Inr rt \<Rightarrow>
     (case require ''max_retries'' (f_max_retries f) of Inl e \<Rightarrow> Inl e | Inr mr \<Rightarrow>
      Inr \<lparr>bind_addr = b, request_timeout_secs = rt, max_retries = mr,
        failure_threshold = or_default (f_failure_threshold f) default_failure_threshold,
        health_cooldown_secs = or_default (f_health_cooldown_secs f) default_health_cooldown_secs,
        health_check = f_health_check f,
        retry_backoff_ms = or_default (f_retry_backoff_ms f) default_retry_backoff_ms,
        retry_budget_percent = or_default (f_retry_budget_percent f) default_retry_budget_percent,
        retry_budget_window_secs =
          or_default (f_retry_budget_window_secs f) default_retry_budget_window_secs,
        metrics_bind = f_metrics_bind f,
        overall_timeout_secs = or_default (f_overall_timeout_secs f) default_overall_timeout_secs,
        rate_limit = f_rate_limit f,
        drain_timeout_secs = or_default (f_drain_timeout_secs f) default_drain_timeout_secs,
        pool_idle_timeout_secs = or_default (f_pool_idle_timeout_secs f) default_pool_idle_timeout_secs,
        pool_max_idle_per_host =
          or_default (f_pool_max_idle_per_host f) default_pool_max_idle_per_host\<rparr>)))"

definition de_health_check_config ::
  "string option \<Rightarrow> u64 option \<Rightarrow> u64 option \<Rightarrow> health_check_config" where
  "de_health_check_config path interval tmo =
     \<lparr>hc_path = or_default path default_health_check_path,
      hc_interval_secs = or_default interval default_health_check_interval,
      hc_timeout_secs = or_default tmo default_health_check_timeout\<rparr>"

definition de_rate_limit_config ::
  "f64 option \<Rightarrow> u32 option \<Rightarrow> de_error + rate_limit_config" where
  "de_rate_limit_config rps burst =
     (case require ''requests_per_second'' rps of Inl e \<Rightarrow> Inl e | Inr r \<Rightarrow>
     (case require ''burst_size'' burst of Inl e \<Rightarrow> Inl e | Inr b \<Rightarrow>
      Inr \<lparr>requests_per_second = r, burst_size = b\<rparr>))"

text \<open>The variant names under \<open>rename_all = "snake_case"\<close>.\<close>

definition de_balancer_strategy :: "string \<Rightarrow> de_error + balancer_strategy" where
  "de_balancer_strategy s =
     (if s = ''round_robin'' then Inr RoundRobin
      else if s = ''least_connections'' then Inr LeastConnections
      else if s = ''weighted_round_robin'' then Inr WeightedRoundRobin
      else if s = ''consistent_hash'' then Inr ConsistentHash
      else Inl (Unknown_Variant s))"

definition de_route_config ::
  "string option \<Rightarrow> string list option \<Rightarrow> balancer_strategy option \<Rightarrow> u32 list option
     \<Rightarrow> de_error + route_config" where
  "de_route_config p us strategy ws =
     (case require ''prefix'' p of Inl e \<Rightarrow> Inl e | Inr pre \<Rightarrow>
     (case require ''upstream'' us of Inl e \<Rightarrow> Inl e | Inr ups \<Rightarrow>
      Inr \<lparr>rc_prefix = pre, rc_upstream = ups,
           rc_strategy = or_default strategy default_strategy, rc_weights = ws\<rparr>))"

section \<open>Facts\<close>

lemma require_Inr [simp]: "require n v = Inr x \<longleftrightarrow> v = Some x"
  by (auto simp: require_def split: option.splits)

lemma require_Inl [simp]: "require n v = Inl e \<longleftrightarrow> v = None \<and> e = Missing_Field n"
  by (auto simp: require_def split: option.splits)

text \<open>A mapping deserialises exactly when it holds the three fields that have no default.\<close>

lemma de_server_config_ok_iff:
  "(\<exists>c. de_server_config f = Inr c) \<longleftrightarrow>
     f_bind f \<noteq> None \<and> f_request_timeout_secs f \<noteq> None \<and> f_max_retries f \<noteq> None"
  by (auto simp: de_server_config_def require_def split: option.splits)

lemma de_server_config_err:
  "de_server_config f = Inl e \<Longrightarrow>
     e \<in> {Missing_Field ''bind'', Missing_Field ''request_timeout_secs'', Missing_Field ''max_retries''}"
  by (auto simp: de_server_config_def require_def split: option.splits)

end
