(* ===== verification/Balancer.thy ===== *)
theory Balancer
  imports Config Sip_Hash
begin

text \<open>
  balancer.rs: the four load balancing strategies, the trait they implement and the factory.
  Each strategy is a record, its atomics are words that wrap; a call that changes them returns the
  new record. The upstream index a call picks is an \<open>outcome\<close>: the code panics on an empty pool.
  \<open>lb_*\<close> dispatch on the strategy, as \<open>Box<dyn LoadBalancer>\<close> does.

  The locale \<open>sorted_search\<close> is what consistent hashing needs of \<open>binary_search_by_key\<close>, the
  locale \<open>picker\<close> what the proxy needs of a strategy.
\<close>

section \<open>Round robin\<close>

record round_robin =
  rr_counter :: usize

definition rr_new :: round_robin where
  "rr_new = \<lparr>rr_counter = 0\<rparr>"

definition rr_next_index :: "round_robin \<Rightarrow> nat \<Rightarrow> round_robin \<times> nat outcome" where
  "rr_next_index s pool_size =
     (let current = rr_counter s in
      (s\<lparr>rr_counter := current + 1\<rparr>, rem_nat (unat current) pool_size))"

section \<open>Least connections\<close>

record least_connections =
  active :: "usize list"

definition lc_new :: "nat \<Rightarrow> least_connections" where
  "lc_new pool_size = \<lparr>active = map (\<lambda>_. 0) [0..<pool_size]\<rparr>"

text \<open>The scan: \<open>vals\<close> are the loaded counters, the list the indices still to look at.\<close>

fun lc_scan :: "usize list \<Rightarrow> nat list \<Rightarrow> nat \<Rightarrow> usize \<Rightarrow> nat" where
  "lc_scan vals [] min_idx min_val = min_idx"
| "lc_scan vals (i # is) min_idx min_val =
     (let val = vals ! i in
      if val < min_val then lc_scan vals is i val else lc_scan vals is min_idx min_val)"

definition lc_next_index :: "least_connections \<Rightarrow> nat \<Rightarrow> nat outcome" where
  "lc_next_index s pool_size =
     (let len = min pool_size (length (active s)) in
      outcome_bind (index (active s) 0) (\<lambda>min_val. Val (lc_scan (active s) [1..<len] 0 min_val)))"

definition lc_record_start :: "least_connections \<Rightarrow> nat \<Rightarrow> least_connections" where
  "lc_record_start s i =
     (if i < length (active s) then s\<lparr>active := (active s)[i := active s ! i + 1]\<rparr> else s)"

definition lc_record_done :: "least_connections \<Rightarrow> nat \<Rightarrow> least_connections" where
  "lc_record_done s i =
     (if i < length (active s) then s\<lparr>active := (active s)[i := active s ! i - 1]\<rparr> else s)"

section \<open>Weighted round robin\<close>

record weighted_round_robin =
  wrr_counter :: usize
  schedule :: "nat list"

definition wrr_new :: "u32 list \<Rightarrow> weighted_round_robin" where
  "wrr_new weights =
     \<lparr>wrr_counter = 0, schedule = concat (map (\<lambda>(i, w). replicate (unat w) i) (enumerate 0 weights))\<rparr>"

definition wrr_next_index :: "weighted_round_robin \<Rightarrow> nat \<Rightarrow> weighted_round_robin \<times> nat outcome" where
  "wrr_next_index s pool_size =
     (let current = wrr_counter s in
      (s\<lparr>wrr_counter := current + 1\<rparr>,
       outcome_bind (rem_nat (unat current) (length (schedule s))) (index (schedule s))))"

section \<open>Consistent hashing\<close>

record consistent_hash =
  ring :: "(u64 \<times> nat) list"

definition vnode_key :: "nat \<Rightarrow> nat \<Rightarrow> string" where
  "vnode_key i r = decimal i @ '':'' @ decimal r"

definition ch_points :: "(string \<Rightarrow> u64) \<Rightarrow> nat \<Rightarrow> nat \<Rightarrow> (u64 \<times> nat) list" where
  "ch_points hash pool_size replicas =
     concat (map (\<lambda>i. map (\<lambda>r. (hash (vnode_key i r), i)) [0..<replicas]) [0..<pool_size])"

text \<open>\<open>sort_by_key\<close> is a stable sort, and so is \<open>sort_key\<close>.\<close>

definition ch_new :: "(string \<Rightarrow> u64) \<Rightarrow> nat \<Rightarrow> nat \<Rightarrow> consistent_hash" where
  "ch_new hash pool_size replicas = \<lparr>ring = sort_key fst (ch_points hash pool_size replicas)\<rparr>"

text \<open>\<open>slice::binary_search_by_key\<close> of the standard library: \<open>Found\<close> is its \<open>Ok\<close>, \<open>Insert\<close> its \<open>Err\<close>.\<close>

datatype search = Found nat | Insert nat

function bs_loop :: "u64 list \<Rightarrow> u64 \<Rightarrow> nat \<Rightarrow> nat \<Rightarrow> nat" where
  "bs_loop ks key sz base =
     (if 1 < sz then
        (let half = sz div 2; mid = base + half in
         bs_loop ks key (sz - half) (if key < ks ! mid then base else mid))
      else base)"
  by pat_completeness auto
termination
  by (relation "measure (\<lambda>(ks, key, sz, base). sz)") auto

declare bs_loop.simps [simp del]

definition binary_search :: "u64 list \<Rightarrow> u64 \<Rightarrow> search" where
  "binary_search ks key =
     (if ks = [] then Insert 0
      else (let base = bs_loop ks key (length ks) 0 in
            if ks ! base = key then Found base
            else Insert (base + (if ks ! base < key then 1 else 0))))"

definition ch_next_index :: "consistent_hash \<Rightarrow> nat \<Rightarrow> nat outcome" where
  "ch_next_index s pool_size = Val 0"

definition ch_next_index_for_key :: "(string \<Rightarrow> u64) \<Rightarrow> consistent_hash \<Rightarrow> nat \<Rightarrow> string \<Rightarrow> nat outcome" where
  "ch_next_index_for_key hash s pool_size key =
     (case binary_search (map fst (ring s)) (hash key) of
        Found pos \<Rightarrow> outcome_bind (index (ring s) pos) (\<lambda>e. Val (snd e))
      | Insert pos \<Rightarrow>
          if length (ring s) \<le> pos
          then outcome_bind (index (ring s) 0) (\<lambda>e. Val (snd e))
          else outcome_bind (index (ring s) pos) (\<lambda>e. Val (snd e)))"

section \<open>The trait object and the factory\<close>

datatype load_balancer =
    RR round_robin
  | LC least_connections
  | WRR weighted_round_robin
  | CH consistent_hash

fun lb_next_index_for_key :: "load_balancer \<Rightarrow> nat \<Rightarrow> string \<Rightarrow> load_balancer \<times> nat outcome" where
  "lb_next_index_for_key (RR s) n key = (case rr_next_index s n of (s', r) \<Rightarrow> (RR s', r))"
| "lb_next_index_for_key (LC s) n key = (LC s, lc_next_index s n)"
| "lb_next_index_for_key (WRR s) n key = (case wrr_next_index s n of (s', r) \<Rightarrow> (WRR s', r))"
| "lb_next_index_for_key (CH s) n key = (CH s, ch_next_index_for_key hash_key s n key)"

fun lb_record_start :: "load_balancer \<Rightarrow> nat \<Rightarrow> load_balancer" where
  "lb_record_start (LC s) i = LC (lc_record_start s i)"
| "lb_record_start b i = b"

fun lb_record_done :: "load_balancer \<Rightarrow> nat \<Rightarrow> load_balancer" where
  "lb_record_done (LC s) i = LC (lc_record_done s i)"
| "lb_record_done b i = b"

definition create_balancer :: "balancer_strategy \<Rightarrow> nat \<Rightarrow> u32 list option \<Rightarrow> load_balancer" where
  "create_balancer strategy pool_size weights =
     (case strategy of
        RoundRobin \<Rightarrow> RR rr_new
      | LeastConnections \<Rightarrow> LC (lc_new pool_size)
      | WeightedRoundRobin \<Rightarrow>
          (let default_weights = replicate pool_size 1;
               w = (case weights of Some ws \<Rightarrow> ws | None \<Rightarrow> default_weights)
           in WRR (wrr_new w))
      | ConsistentHash \<Rightarrow> CH (ch_new hash_key pool_size 150))"

section \<open>Least connections picks the first minimum\<close>

lemma lc_scan_spec:
  assumes "m < k" "k \<le> n" "\<forall>i < k. vals ! m \<le> vals ! i" "\<forall>i < m. vals ! m < vals ! i"
    and "r = lc_scan vals [k..<n] m (vals ! m)"
  shows "r < n \<and> (\<forall>i < n. vals ! r \<le> vals ! i) \<and> (\<forall>i < r. vals ! r < vals ! i)"
  using assms
proof (induction "n - k" arbitrary: k m)
  case 0
  then show ?case by simp
next
  case (Suc d)
  then have upt: "[k..<n] = k # [Suc k..<n]" by (simp add: upt_conv_Cons)
  let ?m = "if vals ! k < vals ! m then k else m"
  have "\<forall>i < Suc k. vals ! ?m \<le> vals ! i"
    using Suc.prems(3) by (auto simp: less_Suc_eq dest: less_imp_le intro: order_trans)
  moreover have "\<forall>i < ?m. vals ! ?m < vals ! i"
    using Suc.prems(3,4) by (auto intro: less_le_trans)
  moreover have "r = lc_scan vals [Suc k..<n] ?m (vals ! ?m)"
    using Suc.prems(5) by (simp add: upt Let_def)
  moreover have "d = n - Suc k" "?m < Suc k" "Suc k \<le> n" using Suc.hyps(2) Suc.prems(1,2) by auto
  ultimately show ?case by (intro Suc.hyps(1) [of "Suc k" ?m]) auto
qed

lemma lc_next_index_argmin:
  assumes "0 < n" "n \<le> length (active s)"
  obtains r where "lc_next_index s n = Val r" "r < n"
    "\<forall>i < n. active s ! r \<le> active s ! i" "\<forall>i < r. active s ! r < active s ! i"
proof -
  let ?r = "lc_scan (active s) [1..<n] 0 (active s ! 0)"
  have "?r < n \<and> (\<forall>i < n. active s ! ?r \<le> active s ! i) \<and> (\<forall>i < ?r. active s ! ?r < active s ! i)"
    by (rule lc_scan_spec [of 0 1]) (use assms in auto)
  moreover have "lc_next_index s n = Val ?r"
    using assms by (auto simp: lc_next_index_def Let_def min_def)
  ultimately show ?thesis using that by blast
qed

lemma lc_record_start_length [simp]: "length (active (lc_record_start s i)) = length (active s)"
  by (simp add: lc_record_start_def)

lemma lc_record_done_length [simp]: "length (active (lc_record_done s i)) = length (active s)"
  by (simp add: lc_record_done_def)

lemma lc_record_roundtrip: "lc_record_done (lc_record_start s i) i = s"
  by (cases s) (auto simp: lc_record_start_def lc_record_done_def)


section \<open>Consistent hashing looks up the successor on the ring\<close>

text \<open>What the ring needs of a binary search.\<close>

locale sorted_search =
  fixes search :: "u64 list \<Rightarrow> u64 \<Rightarrow> search"
  assumes search_found: "sorted ks \<Longrightarrow> search ks key = Found p \<Longrightarrow> p < length ks \<and> ks ! p = key"
    and search_insert: "sorted ks \<Longrightarrow> search ks key = Insert p \<Longrightarrow>
      p \<le> length ks \<and> (\<forall>i < p. ks ! i < key) \<and> (\<forall>i < length ks. p \<le> i \<longrightarrow> key < ks ! i)"
begin

text \<open>The position a lookup reads: the first key not below, or the first of all.\<close>

definition place :: "u64 list \<Rightarrow> u64 \<Rightarrow> nat" where
  "place ks key = (case search ks key of Found p \<Rightarrow> p | Insert p \<Rightarrow> if length ks \<le> p then 0 else p)"

lemma place_less: "sorted ks \<Longrightarrow> ks \<noteq> [] \<Longrightarrow> place ks key < length ks"
  using search_found [of ks key] by (auto simp: place_def split: search.splits)

lemma place_successor:
  assumes "sorted ks" "ks \<noteq> []"
  shows "(key \<le> ks ! place ks key \<and> (\<forall>k \<in> set ks. key \<le> k \<longrightarrow> ks ! place ks key \<le> k)) \<or>
         ((\<forall>k \<in> set ks. k < key) \<and> (\<forall>k \<in> set ks. ks ! place ks key \<le> k))"
proof (cases "search ks key")
  case (Found p)
  with search_found [OF assms(1) this] show ?thesis by (auto simp: place_def)
next
  case (Insert p)
  note ins = search_insert [OF assms(1) this]
  show ?thesis
  proof (cases "length ks \<le> p")
    case True
    have "ks ! 0 \<le> k" if "k \<in> set ks" for k
      using that assms by (metis in_set_conv_nth sorted_nth_mono le0)
    with True ins Insert show ?thesis by (auto simp: place_def in_set_conv_nth)
  next
    case False
    then have above: "key < ks ! p" using ins by auto
    have "ks ! p \<le> k" if k: "k \<in> set ks" "key \<le> k" for k
    proof -
      obtain i where i: "i < length ks" "k = ks ! i" using k(1) by (auto simp: in_set_conv_nth)
      with ins k(2) have "p \<le> i" by (meson leD not_le_imp_less)
      with i assms(1) show ?thesis by (simp add: sorted_nth_mono)
    qed
    with False above Insert show ?thesis by (auto simp: place_def)
  qed
qed

end

lemma bs_loop_spec:
  assumes "sorted ks" "1 \<le> sz" "base + sz \<le> length ks"
    and "\<forall>i < base. ks ! i \<le> key" "0 < base \<longrightarrow> ks ! base \<le> key"
    and "\<forall>i < length ks. base + sz \<le> i \<longrightarrow> key < ks ! i"
  shows "bs_loop ks key sz base < length ks
    \<and> (\<forall>i < bs_loop ks key sz base. ks ! i \<le> key)
    \<and> (0 < bs_loop ks key sz base \<longrightarrow> ks ! bs_loop ks key sz base \<le> key)
    \<and> (\<forall>i < length ks. bs_loop ks key sz base < i \<longrightarrow> key < ks ! i)"
  using assms
proof (induction ks key sz base rule: bs_loop.induct)
  case (1 ks key sz base)
  show ?case
  proof (cases "1 < sz")
    case False
    with "1.prems" show ?thesis by (auto simp: bs_loop.simps [of ks key sz base])
  next
    case True
    define half mid where "half = sz div 2" and "mid = base + half"
    let ?b = "if key < ks ! mid then base else mid"
    have half: "0 < half" "half < sz" and mid: "mid < length ks"
      using True "1.prems"(3) by (auto simp: half_def mid_def)
    have step: "bs_loop ks key sz base = bs_loop ks key (sz - half) ?b"
      using True by (simp add: bs_loop.simps [of ks key sz base] half_def mid_def Let_def)
    have low: "\<forall>i < ?b. ks ! i \<le> key" and at: "0 < ?b \<longrightarrow> ks ! ?b \<le> key"
    proof -
      have "ks ! i \<le> key" if "\<not> key < ks ! mid" "i < mid" for i
        using that mid "1.prems"(1) sorted_nth_mono [of ks i mid] by simp
      then show "\<forall>i < ?b. ks ! i \<le> key" using "1.prems"(4) by auto
      show "0 < ?b \<longrightarrow> ks ! ?b \<le> key" using "1.prems"(5) by auto
    qed
    have high: "\<forall>i < length ks. ?b + (sz - half) \<le> i \<longrightarrow> key < ks ! i"
    proof (intro allI impI)
      fix i assume i: "i < length ks" "?b + (sz - half) \<le> i"
      show "key < ks ! i"
      proof (cases "key < ks ! mid")
        case True
        with i half have "mid \<le> i" by (auto simp: mid_def half_def)
        with i True "1.prems"(1) show ?thesis using sorted_nth_mono [of ks mid i] by simp
      next
        case False
        with i half "1.prems"(6) show ?thesis by (auto simp: mid_def)
      qed
    qed
    have "1 \<le> sz - half" "?b + (sz - half) \<le> length ks"
      using half "1.prems"(3) by (auto simp: mid_def)
    note bounds = this
    show ?thesis
      unfolding step by (rule "1.IH" [OF True half_def mid_def "1.prems"(1) bounds low at high])
  qed
qed

lemma binary_search_base:
  assumes "sorted ks" "ks \<noteq> []"
  shows "bs_loop ks key (length ks) 0 < length ks
    \<and> (\<forall>i < bs_loop ks key (length ks) 0. ks ! i \<le> key)
    \<and> (0 < bs_loop ks key (length ks) 0 \<longrightarrow> ks ! bs_loop ks key (length ks) 0 \<le> key)
    \<and> (\<forall>i < length ks. bs_loop ks key (length ks) 0 < i \<longrightarrow> key < ks ! i)"
  by (rule bs_loop_spec) (use assms in \<open>auto simp: Suc_le_eq\<close>)

text \<open>The loop ends at the last of equal keys, so below it all keys are smaller when it misses.\<close>

interpretation std_search: sorted_search binary_search
proof
  fix ks :: "u64 list" and key p
  assume ks: "sorted ks"
  let ?b = "bs_loop ks key (length ks) 0"
  show "p < length ks \<and> ks ! p = key" if "binary_search ks key = Found p"
    using that binary_search_base [OF ks, of key]
    by (auto simp: binary_search_def Let_def split: if_splits)
  show "p \<le> length ks \<and> (\<forall>i < p. ks ! i < key) \<and> (\<forall>i < length ks. p \<le> i \<longrightarrow> key < ks ! i)"
    if ins: "binary_search ks key = Insert p"
  proof (cases "ks = []")
    case True
    with ins show ?thesis by (simp add: binary_search_def)
  next
    case False
    note b = binary_search_base [OF ks False, of key]
    have ne: "ks ! ?b \<noteq> key" and p: "p = ?b + (if ks ! ?b < key then 1 else 0)"
      using ins False by (auto simp: binary_search_def Let_def split: if_splits)
    show ?thesis
    proof (cases "ks ! ?b < key")
      case True
      have "ks ! i < key" if "i \<le> ?b" for i
        using that b ks True sorted_nth_mono [of ks i ?b] by (meson le_less_trans)
      with True b p show ?thesis by (auto simp: less_Suc_eq_le Suc_le_eq)
    next
      case False
      with ne b have zero: "?b = 0" and above: "key < ks ! 0" by auto
      have "key < ks ! i" if "i < length ks" for i
        using that ks above sorted_nth_mono [of ks 0 i] by (meson le0 less_le_trans)
      with False p zero show ?thesis by auto
    qed
  qed
qed

text \<open>The entry of a set of ring points that serves a hash: its successor, wrapping around.\<close>

definition is_successor :: "(u64 \<times> nat) set \<Rightarrow> u64 \<Rightarrow> u64 \<times> nat \<Rightarrow> bool" where
  "is_successor S h e \<longleftrightarrow> e \<in> S \<and>
     ((h \<le> fst e \<and> (\<forall>x \<in> S. h \<le> fst x \<longrightarrow> fst e \<le> fst x)) \<or>
      ((\<forall>x \<in> S. fst x < h) \<and> (\<forall>x \<in> S. fst e \<le> fst x)))"

lemma is_successor_subset:
  "is_successor T h e \<Longrightarrow> S \<subseteq> T \<Longrightarrow> e \<in> S \<Longrightarrow> is_successor S h e"
  by (auto simp: is_successor_def)

lemma is_successor_unique:
  assumes "inj_on fst S" "is_successor S h d" "is_successor S h e"
  shows "d = e"
proof -
  have "fst d = fst e" using assms(2,3) by (auto simp: is_successor_def intro: antisym)
  with assms show ?thesis by (auto simp: is_successor_def dest: inj_onD)
qed

lemma ch_lookup_successor:
  assumes "sorted (map fst (ring s))" "ring s \<noteq> []"
  shows "\<exists>e. ch_next_index_for_key hash s n key = Val (snd e) \<and> is_successor (set (ring s)) (hash key) e"
proof -
  let ?ks = "map fst (ring s)" and ?p = "std_search.place (map fst (ring s)) (hash key)"
  have p: "?p < length (ring s)" using std_search.place_less [OF assms(1), of "hash key"] assms(2) by simp
  have "ch_next_index_for_key hash s n key = Val (snd (ring s ! ?p))"
    using p assms std_search.search_found [OF assms(1), of "hash key"]
    by (auto simp: ch_next_index_for_key_def std_search.place_def index_def split: search.splits)
  moreover have "is_successor (set (ring s)) (hash key) (ring s ! ?p)"
    using std_search.place_successor [OF assms(1), of "hash key"] assms(2) p
    by (auto simp: is_successor_def)
  ultimately show ?thesis by blast
qed

lemma ch_new_sorted [simp]: "sorted (map fst (ring (ch_new hash n r)))"
  by (simp add: ch_new_def)

lemma ch_new_set: "set (ring (ch_new hash n r)) = {(hash (vnode_key i j), i) | i j. i < n \<and> j < r}"
  by (auto simp: ch_new_def ch_points_def)

lemma ch_new_nonempty: "ring (ch_new hash n r) \<noteq> [] \<longleftrightarrow> 0 < n \<and> 0 < r"
proof -
  have "ring (ch_new hash n r) \<noteq> [] \<longleftrightarrow> set (ring (ch_new hash n r)) \<noteq> {}" by simp
  also have "\<dots> \<longleftrightarrow> 0 < n \<and> 0 < r" by (auto simp: ch_new_set)
  finally show ?thesis .
qed


section \<open>What the proxy needs of a strategy\<close>

text \<open>
  The calls of the trait on a pool of \<open>n\<close> upstreams: a state that is \<open>ok\<close> for \<open>n\<close> and a bound
  on the indices picks an index below the bound without a panic, and every call keeps it \<open>ok\<close>.
  \<open>call\<close> is one call of the trait, \<open>calls\<close> a sequence of them with the outcomes of its picks.
\<close>

datatype lb_request = Pick string | Start nat | Finish nat

fun lb_call :: "load_balancer \<Rightarrow> nat \<Rightarrow> lb_request \<Rightarrow> load_balancer \<times> nat outcome list" where
  "lb_call b n (Pick key) = (case lb_next_index_for_key b n key of (b', r) \<Rightarrow> (b', [r]))"
| "lb_call b n (Start i) = (lb_record_start b i, [])"
| "lb_call b n (Finish i) = (lb_record_done b i, [])"

fun lb_calls :: "load_balancer \<Rightarrow> nat \<Rightarrow> lb_request list \<Rightarrow> load_balancer \<times> nat outcome list" where
  "lb_calls b n [] = (b, [])"
| "lb_calls b n (c # cs) =
     (case lb_call b n c of (b', rs) \<Rightarrow> case lb_calls b' n cs of (b'', rs') \<Rightarrow> (b'', rs @ rs'))"

locale picker =
  fixes call :: "'s \<Rightarrow> nat \<Rightarrow> 'c \<Rightarrow> 's \<times> nat outcome list"
    and calls :: "'s \<Rightarrow> nat \<Rightarrow> 'c list \<Rightarrow> 's \<times> nat outcome list"
    and ok :: "'s \<Rightarrow> nat \<Rightarrow> nat \<Rightarrow> bool"
  assumes calls_Nil: "calls s n [] = (s, [])"
    and calls_Cons: "calls s n (c # cs) =
      (case call s n c of (s', rs) \<Rightarrow> case calls s' n cs of (s'', rs') \<Rightarrow> (s'', rs @ rs'))"
    and call_ok: "ok s n m \<Longrightarrow> ok (fst (call s n c)) n m"
    and call_in: "ok s n m \<Longrightarrow> r \<in> set (snd (call s n c)) \<Longrightarrow> \<exists>i < m. r = Val i"
begin

lemma calls_ok_in:
  "ok s n m \<Longrightarrow> ok (fst (calls s n cs)) n m \<and> (\<forall>r \<in> set (snd (calls s n cs)). \<exists>i < m. r = Val i)"
proof (induction cs arbitrary: s)
  case Nil
  then show ?case by (simp add: calls_Nil)
next
  case (Cons c cs)
  with call_ok [OF Cons.prems, of c] call_in [OF Cons.prems, of _ c] show ?case
    by (fastforce simp: calls_Cons split: prod.splits)
qed

end

fun lb_ok :: "load_balancer \<Rightarrow> nat \<Rightarrow> nat \<Rightarrow> bool" where
  "lb_ok (RR s) n m = (0 < n \<and> m = n)"
| "lb_ok (LC s) n m = (0 < n \<and> length (active s) = n \<and> m = n)"
| "lb_ok (WRR s) n m = (schedule s \<noteq> [] \<and> (\<forall>i \<in> set (schedule s). i < m))"
| "lb_ok (CH s) n m = (ring s \<noteq> [] \<and> sorted (map fst (ring s)) \<and> (\<forall>e \<in> set (ring s). snd e < m))"

lemma lb_next_ok: "lb_ok b n m \<Longrightarrow> lb_ok (fst (lb_next_index_for_key b n key)) n m"
  by (cases b) (auto simp: rr_next_index_def wrr_next_index_def Let_def)

lemma lb_record_ok:
  "lb_ok b n m \<Longrightarrow> lb_ok (lb_record_start b i) n m"
  "lb_ok b n m \<Longrightarrow> lb_ok (lb_record_done b i) n m"
  by (cases b; simp)+

lemma lb_next_in:
  assumes "lb_ok b n m"
  shows "\<exists>i < m. snd (lb_next_index_for_key b n key) = Val i"
proof (cases b)
  case (RR s)
  with assms show ?thesis by (auto simp: rr_next_index_def Let_def rem_nat_def)
next
  case (LC s)
  with assms have n: "0 < n" "n \<le> length (active s)" "m = n" by auto
  obtain r where "lc_next_index s n = Val r" "r < n" by (rule lc_next_index_argmin [OF n(1,2)])
  with LC n show ?thesis by auto
next
  case (WRR s)
  let ?i = "schedule s ! (unat (wrr_counter s) mod length (schedule s))"
  from WRR assms have "?i \<in> set (schedule s)" by simp
  with WRR assms show ?thesis
    by (auto simp: wrr_next_index_def Let_def rem_nat_def index_def)
next
  case (CH s)
  with assms ch_lookup_successor [of s hash_key n key] show ?thesis
    by (auto simp: is_successor_def)
qed

interpretation lb: picker lb_call lb_calls lb_ok
proof
  fix b n m c r
  assume ok: "lb_ok b n m"
  show "lb_ok (fst (lb_call b n c)) n m"
    by (cases c) (simp_all add: case_prod_beta lb_next_ok [OF ok] lb_record_ok [OF ok])
  assume "r \<in> set (snd (lb_call b n c))"
  then show "\<exists>i < m. r = Val i"
    using lb_next_in [OF ok] by (cases c) (auto simp: case_prod_beta)
qed simp_all

text \<open>A balancer of the factory is \<open>ok\<close> for a pool that is not empty and, where weights matter,
  a weight that is not zero.\<close>

definition usable_weights :: "nat \<Rightarrow> u32 list option \<Rightarrow> bool" where
  "usable_weights pool_size weights = (case weights of None \<Rightarrow> 0 < pool_size | Some ws \<Rightarrow> \<exists>w \<in> set ws. w \<noteq> 0)"

definition index_bound :: "balancer_strategy \<Rightarrow> nat \<Rightarrow> u32 list option \<Rightarrow> nat" where
  "index_bound strategy pool_size weights =
     (case (strategy, weights) of (WeightedRoundRobin, Some ws) \<Rightarrow> length ws | _ \<Rightarrow> pool_size)"

lemma wrr_schedule_set: "set (schedule (wrr_new ws)) = {i. i < length ws \<and> ws ! i \<noteq> 0}"
  by (force simp: wrr_new_def in_set_enumerate_eq unat_eq_zero)

lemma create_balancer_ok:
  assumes "0 < n" "strategy = WeightedRoundRobin \<longrightarrow> usable_weights n weights"
  shows "lb_ok (create_balancer strategy n weights) n (index_bound strategy n weights)"
proof (cases strategy)
  case RoundRobin
  with assms show ?thesis by (simp add: create_balancer_def index_bound_def)
next
  case LeastConnections
  with assms show ?thesis by (simp add: create_balancer_def index_bound_def lc_new_def)
next
  case WeightedRoundRobin
  let ?ws = "case weights of Some ws \<Rightarrow> ws | None \<Rightarrow> replicate n 1"
  have "\<exists>w \<in> set ?ws. w \<noteq> 0"
    using assms WeightedRoundRobin by (auto simp: usable_weights_def split: option.splits)
  then obtain i where "i < length ?ws" "?ws ! i \<noteq> 0" by (auto simp: in_set_conv_nth)
  then have "i \<in> set (schedule (wrr_new ?ws))" unfolding wrr_schedule_set by simp
  then have "schedule (wrr_new ?ws) \<noteq> []" by auto
  with WeightedRoundRobin show ?thesis
    by (auto simp: create_balancer_def index_bound_def Let_def wrr_schedule_set split: option.splits)
next
  case ConsistentHash
  with assms show ?thesis
    by (auto simp: create_balancer_def index_bound_def ch_new_nonempty ch_new_set)
qed

section \<open>Shares of the traffic\<close>

text \<open>The indices picked by a run of requests.\<close>

definition lb_picks :: "load_balancer \<Rightarrow> nat \<Rightarrow> string list \<Rightarrow> nat outcome list" where
  "lb_picks b n keys = snd (lb_calls b n (map Pick keys))"

lemma lb_picks_simps [simp]:
  "lb_picks b n [] = []"
  "lb_picks b n (k # ks) = snd (lb_next_index_for_key b n k) # lb_picks (fst (lb_next_index_for_key b n k)) n ks"
  by (simp_all add: lb_picks_def split: prod.splits)

lemma mset_rotation: "mset (map (\<lambda>k. xs ! ((s + k) mod length xs)) [0..<length xs]) = mset xs"
proof -
  let ?r = "map (\<lambda>k. (s + k) mod length xs) [0..<length xs]"
  have "mset ?r = mset [0..<length xs]"
    using set_eq_iff_mset_eq_distinct [of ?r "[0..<length xs]"] rotation_distinct rotation_set by simp
  then have "image_mset ((!) xs) (mset ?r) = image_mset ((!) xs) (mset [0..<length xs])" by simp
  then have "mset (map ((!) xs) ?r) = mset (map ((!) xs) [0..<length xs])" by (simp only: mset_map)
  then show ?thesis by (simp add: map_nth comp_def)
qed

text \<open>A counter that starts at \<open>c\<close> and does not wrap within the run.\<close>

lemma unat_counter_step:
  "unat c + Suc k \<le> 2 ^ 64 \<Longrightarrow> 0 < k \<Longrightarrow> unat (c + 1 :: usize) = unat c + 1"
  by (simp add: unat_word_ariths)

lemma rr_picks:
  assumes "unat (rr_counter s) + length keys \<le> 2 ^ 64" "0 < n"
  shows "lb_picks (RR s) n keys = map (\<lambda>k. Val ((unat (rr_counter s) + k) mod n)) [0..<length keys]"
  using assms
proof (induction keys arbitrary: s)
  case (Cons key keys)
  show ?case
  proof (cases keys)
    case Nil
    with Cons.prems show ?thesis by (simp add: rr_next_index_def Let_def rem_nat_def)
  next
    case (Cons k ks)
    then have c: "unat (rr_counter s + 1) = unat (rr_counter s) + 1"
      using Cons.prems by (intro unat_counter_step [of _ "length keys"]) auto
    show ?thesis using Cons.prems
      by (simp add: rr_next_index_def Let_def rem_nat_def Cons.IH c upt_conv_Cons
          map_Suc_upt [symmetric] comp_def del: upt_Suc)
  qed
qed simp

lemma wrr_picks:
  assumes "unat (wrr_counter s) + length keys \<le> 2 ^ 64" "schedule s \<noteq> []"
  shows "lb_picks (WRR s) n keys =
    map (\<lambda>k. Val (schedule s ! ((unat (wrr_counter s) + k) mod length (schedule s)))) [0..<length keys]"
  using assms
proof (induction keys arbitrary: s)
  case (Cons key keys)
  show ?case
  proof (cases keys)
    case Nil
    with Cons.prems show ?thesis by (simp add: wrr_next_index_def Let_def rem_nat_def index_def)
  next
    case (Cons k ks)
    then have c: "unat (wrr_counter s + 1) = unat (wrr_counter s) + 1"
      using Cons.prems by (intro unat_counter_step [of _ "length keys"]) auto
    show ?thesis using Cons.prems
      by (simp add: wrr_next_index_def Let_def rem_nat_def index_def Cons.IH c upt_conv_Cons
          map_Suc_upt [symmetric] comp_def del: upt_Suc)
  qed
qed simp

lemma enumerate_nth: "enumerate 0 xs = map (\<lambda>j. (j, xs ! j)) [0..<length xs]"
  by (rule nth_equalityI) (auto simp: nth_enumerate_eq)

lemma wrr_schedule_count:
  assumes "i < length ws"
  shows "count_list (schedule (wrr_new ws)) i = unat (ws ! i)"
proof -
  have "schedule (wrr_new ws) = concat (map (\<lambda>j. replicate (unat (ws ! j)) j) [0..<length ws])"
    by (simp add: wrr_new_def enumerate_nth comp_def)
  then show ?thesis using assms by (simp add: count_list_concat_replicate)
qed


section \<open>Properties\<close>

lemma count_list_map_Val: "count_list (map Val xs) (Val i) = count_list xs i"
  by (induction xs) auto

text \<open>Property C14. A balancer the factory makes for a pool with an upstream (and, for weighted
  round robin, a weight that is not zero) never panics: whatever sequence of picks, starts and
  finishes it serves, every pick is an index below the pool size (below the number of weights for
  explicit weights).\<close>

theorem balancer_never_panics:
  assumes "0 < n" and "strategy = WeightedRoundRobin \<longrightarrow> usable_weights n weights"
  shows "\<forall>r \<in> set (snd (lb_calls (create_balancer strategy n weights) n cs)).
           \<exists>i < index_bound strategy n weights. r = Val i"
  using lb.calls_ok_in [OF create_balancer_ok [OF assms], of cs] by blast

theorem balancer_never_panics_witness:
  "list_all (\<lambda>r. \<exists>i < index_bound WeightedRoundRobin 2 (Some [3, 1]). r = Val i)
     (snd (lb_calls (create_balancer WeightedRoundRobin 2 (Some [3, 1])) 2
        [Pick ''/a'', Start 1, Pick ''/b'', Finish 1]))"
  unfolding list_all_iff by (rule balancer_never_panics) (auto simp: usable_weights_def)

text \<open>Property C28. The first pick of a fresh balancer panics exactly when the pool is empty; for
  weighted round robin exactly when its schedule is empty, which explicit weights make happen on a
  pool that is not empty. Nothing checks the configuration for either case.\<close>

theorem balancer_panics_iff:
  "is_Val (snd (lb_next_index_for_key (create_balancer strategy n weights) n key)) \<longleftrightarrow>
     (if strategy = WeightedRoundRobin then usable_weights n weights else 0 < n)"
proof -
  have empty_ch: "binary_search [] k = Insert 0" for k by (simp add: binary_search_def)
  have ok: "is_Val (snd (lb_next_index_for_key (create_balancer strategy n weights) n key))"
    if "0 < n" "strategy = WeightedRoundRobin \<longrightarrow> usable_weights n weights"
    using lb_next_in [OF create_balancer_ok [OF that]] by (auto simp: is_Val_iff)
  have wrr: "is_Val (snd (wrr_next_index (wrr_new ws) m)) \<longleftrightarrow> (\<exists>w \<in> set ws. w \<noteq> 0)"
    for ws m
  proof -
    have "schedule (wrr_new ws) \<noteq> [] \<longleftrightarrow> set (schedule (wrr_new ws)) \<noteq> {}" by simp
    also have "\<dots> \<longleftrightarrow> (\<exists>w \<in> set ws. w \<noteq> 0)"
      unfolding wrr_schedule_set by (auto simp: Bex_def in_set_conv_nth)
    finally show ?thesis
      by (auto simp: wrr_next_index_def Let_def rem_nat_def index_def)
  qed
  show ?thesis
  proof (cases strategy)
    case WeightedRoundRobin
    then show ?thesis
      by (auto simp: create_balancer_def Let_def wrr usable_weights_def case_prod_beta
          split: option.splits)
  next
    case ConsistentHash
    then show ?thesis using ok ch_new_nonempty [of hash_key n 150]
      by (cases n) (auto simp: create_balancer_def ch_next_index_for_key_def empty_ch index_def)
  qed (use ok in \<open>cases n; simp add: create_balancer_def rr_next_index_def rr_new_def rem_nat_def
         lc_next_index_def lc_new_def index_def Let_def\<close>)+
qed

text \<open>Property C27. Least connections picks the first upstream whose count of active requests is
  minimal over the pool.\<close>

theorem lc_picks_first_minimum:
  assumes "0 < n" and "n \<le> length (active s)"
  shows "\<exists>r < n. snd (lb_next_index_for_key (LC s) n key) = Val r
           \<and> (\<forall>i < n. active s ! r \<le> active s ! i) \<and> (\<forall>i < r. active s ! r < active s ! i)"
  using lc_next_index_argmin [OF assms] by (metis lb_next_index_for_key.simps(2) snd_conv)

theorem lc_picks_first_minimum_witness:
  "\<exists>r < 3. snd (lb_next_index_for_key (LC \<lparr>active = [2, 1, 1]\<rparr>) 3 ''/'') = Val r
     \<and> (\<forall>i < 3. [2, 1, 1] ! r \<le> ([2, 1, 1] :: usize list) ! i)
     \<and> (\<forall>i < r. [2, 1, 1] ! r < ([2, 1, 1] :: usize list) ! i)"
  using lc_picks_first_minimum [of 3 "\<lparr>active = [2, 1, 1]\<rparr>" "''/''"] by simp

text \<open>Property C25. Round robin is fair: as many consecutive requests as the pool has upstreams,
  from any counter value that does not wrap within them, pick every upstream exactly once.\<close>

theorem rr_fair:
  assumes "0 < n" and "length keys = n" and "unat (rr_counter s) + n \<le> 2 ^ 64"
  shows "mset (lb_picks (RR s) n keys) = mset (map Val [0..<n])"
proof -
  have "mset (lb_picks (RR s) n keys)
      = image_mset Val (mset (map (\<lambda>k. [0..<n] ! ((unat (rr_counter s) + k) mod n)) [0..<n]))"
    using assms by (simp add: rr_picks image_mset.compositionality comp_def)
  then show ?thesis
    using mset_rotation [of "[0..<n]" "unat (rr_counter s)"] by simp
qed

theorem rr_fair_witness:
  "mset (lb_picks (RR \<lparr>rr_counter = 7\<rparr>) 3 [''/a'', ''/b'', ''/c'']) = mset (map Val [0..<3])"
  by (rule rr_fair) simp_all

text \<open>Property C26. Weighted round robin is exactly proportional: over one cycle of its schedule
  (as many consecutive requests as the weights sum to), from any counter value that does not wrap
  within it, upstream \<open>i\<close> is picked exactly \<open>weights ! i\<close> times.\<close>

theorem wrr_proportional:
  assumes "schedule s = schedule (wrr_new ws)" and "schedule s \<noteq> []"
    and "length keys = length (schedule s)" and "unat (wrr_counter s) + length keys \<le> 2 ^ 64"
    and "i < length ws"
  shows "count_list (lb_picks (WRR s) n keys) (Val i) = unat (ws ! i)"
proof -
  let ?sch = "schedule s"
  have "mset (lb_picks (WRR s) n keys)
      = image_mset Val (mset (map (\<lambda>k. ?sch ! ((unat (wrr_counter s) + k) mod length ?sch)) [0..<length ?sch]))"
    using assms by (simp add: wrr_picks image_mset.compositionality comp_def)
  also have "\<dots> = mset (map Val ?sch)" unfolding mset_rotation by simp
  finally have "count_list (lb_picks (WRR s) n keys) (Val i) = count_list (map Val ?sch) (Val i)"
    by (metis count_mset)
  also have "\<dots> = count_list ?sch i" by (rule count_list_map_Val)
  finally show ?thesis using assms by (simp add: wrr_schedule_count)
qed

theorem wrr_proportional_witness:
  "count_list (lb_picks (WRR ((wrr_new [3, 1])\<lparr>wrr_counter := 2\<rparr>)) 2 [''/a'', ''/b'', ''/c'', ''/d'']) (Val 0)
     = 3"
proof -
  let ?s = "(wrr_new [3, 1])\<lparr>wrr_counter := 2\<rparr>"
  have sch: "schedule (wrr_new [3, 1]) = [0, 0, 0, 1]" by code_simp
  show ?thesis
    using wrr_proportional [of ?s "[3, 1]" "[''/a'', ''/b'', ''/c'', ''/d'']" 0 2]
    by (simp add: sch)
qed

text \<open>Property C24. Consistent hashing serves a key from its successor on the ring: the virtual
  node with the least hash not below the hash of the key, or the least of all when there is none,
  for any hash function and any pool and number of replicas that are not zero.\<close>

theorem ch_serves_successor:
  assumes "0 < n" and "0 < replicas"
  shows "\<exists>e. ch_next_index_for_key hash (ch_new hash n replicas) n key = Val (snd e) \<and>
     is_successor {(hash (vnode_key i j), i) | i j. i < n \<and> j < replicas} (hash key) e"
  using ch_lookup_successor [of "ch_new hash n replicas" hash n key] assms
  by (simp add: ch_new_nonempty ch_new_set)

theorem ch_serves_successor_witness:
  "\<exists>e. ch_next_index_for_key (\<lambda>s. of_nat (length s)) (ch_new (\<lambda>s. of_nat (length s)) 2 3) 2 ''/a'' = Val (snd e)
     \<and> is_successor {(of_nat (length (vnode_key i j)), i) | i j. i < 2 \<and> j < 3} (of_nat (length ''/a'')) e"
  by (rule ch_serves_successor) simp_all

text \<open>Property C23. Consistent hashing moves only the keys it must: when a pool of \<open>n\<close> upstreams
  grows by one and no two virtual nodes collide, every key stays on its upstream or moves to the
  new one.\<close>

theorem ch_minimal_disruption:
  assumes "0 < n" and "0 < replicas" and "inj_on fst (set (ring (ch_new hash (Suc n) replicas)))"
  shows "ch_next_index_for_key hash (ch_new hash (Suc n) replicas) (Suc n) key
           \<in> {ch_next_index_for_key hash (ch_new hash n replicas) n key, Val n}"
proof -
  let ?S = "set (ring (ch_new hash n replicas))" and ?T = "set (ring (ch_new hash (Suc n) replicas))"
  have sub: "?S \<subseteq> ?T" by (auto simp: ch_new_set less_Suc_eq)
  obtain d where d: "ch_next_index_for_key hash (ch_new hash n replicas) n key = Val (snd d)"
      "is_successor ?S (hash key) d"
    using ch_lookup_successor [of "ch_new hash n replicas" hash n key] assms by (auto simp: ch_new_nonempty)
  obtain e where e: "ch_next_index_for_key hash (ch_new hash (Suc n) replicas) (Suc n) key = Val (snd e)"
      "is_successor ?T (hash key) e"
    using ch_lookup_successor [of "ch_new hash (Suc n) replicas" hash "Suc n" key] assms
    by (auto simp: ch_new_nonempty)
  show ?thesis
  proof (cases "e \<in> ?S")
    case True
    then have "is_successor ?S (hash key) e" by (rule is_successor_subset [OF e(2) sub])
    then have "d = e" using is_successor_unique [of ?S] d(2) assms(3) sub by (metis inj_on_subset)
    with d e show ?thesis by simp
  next
    case False
    have "e \<in> ?T" using e(2) by (simp add: is_successor_def)
    with False have "snd e = n" by (auto simp: ch_new_set less_Suc_eq)
    with e show ?thesis by simp
  qed
qed

theorem ch_minimal_disruption_witness:
  "let hash = (\<lambda>s. of_char (hd s)) in
     ch_next_index_for_key hash (ch_new hash (Suc 1) 2) (Suc 1) ''1''
       \<in> {ch_next_index_for_key hash (ch_new hash 1 2) 1 ''1'', Val 1}"
proof -
  let ?hash = "\<lambda>s. of_char (hd s) :: u64"
  have "decimal 0 = ''0''" "decimal 1 = ''1''" by code_simp+
  then have "set (ring (ch_new ?hash (Suc 1) 2)) = {(48, 0), (49, 1)}"
    by (auto simp: ch_new_def ch_points_def vnode_key_def numeral_2_eq_2)
  then have "inj_on fst (set (ring (ch_new ?hash (Suc 1) 2)))" by simp
  from ch_minimal_disruption [OF _ _ this, of "''1''"] show ?thesis by simp
qed

end
