(* ===== verification/Router.thy ===== *)
theory Router
  imports Balancer
begin

text \<open>
  router.rs: the route table and longest-prefix matching, and the construction of the table from
  the configuration that config_reloader.rs, main.rs and server.rs share. A match returns a
  reference to a route of the table; the model returns its position. Strings are byte lists, as
  \<open>str::len\<close> and \<open>str::starts_with\<close> count them.
\<close>

section \<open>Model\<close>

record route =
  route_prefix :: string
  upstreams :: "string list"
  balancer :: load_balancer

record router =
  router_routes :: "route list"

definition router_new :: "route list \<Rightarrow> router" where
  "router_new rs = \<lparr>router_routes = rs\<rparr>"

definition starts_with :: "string \<Rightarrow> string \<Rightarrow> bool" where
  "starts_with s p = (take (length p) s = p)"

text \<open>\<open>Iterator::max_by_key\<close>: the last of the elements with the greatest key.\<close>

definition max_by_key :: "('a \<Rightarrow> nat) \<Rightarrow> 'a list \<Rightarrow> 'a option" where
  "max_by_key key xs =
     fold (\<lambda>y acc. case acc of None \<Rightarrow> Some y | Some x \<Rightarrow> if key y < key x then Some x else Some y)
       xs None"

definition match_route :: "router \<Rightarrow> string \<Rightarrow> nat option" where
  "match_route r path =
     max_by_key (\<lambda>i. length (route_prefix (router_routes r ! i)))
       (filter (\<lambda>i. starts_with path (route_prefix (router_routes r ! i))) [0..<length (router_routes r)])"

definition route_of_config :: "route_config \<Rightarrow> route" where
  "route_of_config r =
     \<lparr>route_prefix = rc_prefix r, upstreams = rc_upstream r,
      balancer = create_balancer (rc_strategy r) (length (rc_upstream r)) (rc_weights r)\<rparr>"

definition router_of_config :: "config \<Rightarrow> router" where
  "router_of_config c = router_new (map route_of_config (routes c))"

section \<open>Facts\<close>

lemma starts_with_prefix: "starts_with s p \<longleftrightarrow> (\<exists>rest. s = p @ rest)"
  by (auto simp: starts_with_def) (metis append_take_drop_id)

lemma max_by_key_snoc:
  "max_by_key key (xs @ [y]) =
     (case max_by_key key xs of None \<Rightarrow> Some y | Some x \<Rightarrow> if key y < key x then Some x else Some y)"
  by (simp add: max_by_key_def)

lemma max_by_key_Nil [simp]: "max_by_key key [] = None"
  by (simp add: max_by_key_def)

lemma max_by_key_None [simp]: "max_by_key key xs = None \<longleftrightarrow> xs = []"
  by (cases xs rule: rev_cases) (auto simp: max_by_key_snoc split: option.splits)

text \<open>On an ascending list of positions: the greatest key, and the last position among equal keys.\<close>

lemma max_by_key_Some:
  fixes xs :: "nat list"
  assumes "sorted_wrt (<) xs" "max_by_key key xs = Some i"
  shows "i \<in> set xs \<and> (\<forall>j \<in> set xs. key j \<le> key i \<and> (i < j \<longrightarrow> key j < key i))"
  using assms
proof (induction xs arbitrary: i rule: rev_induct)
  case (snoc y xs)
  show ?case
  proof (cases "max_by_key key xs")
    case None
    with snoc.prems show ?thesis by (simp add: max_by_key_snoc)
  next
    case (Some x)
    with snoc have "x \<in> set xs \<and> (\<forall>j \<in> set xs. key j \<le> key x \<and> (x < j \<longrightarrow> key j < key x))"
      by (simp add: sorted_wrt_append)
    moreover have "i = (if key y < key x then x else y)" "\<forall>j \<in> set xs. j < y"
      using snoc.prems Some by (auto simp: max_by_key_snoc sorted_wrt_append split: if_splits)
    ultimately show ?thesis by (fastforce dest: less_imp_le)
  qed
qed simp

text \<open>The candidates of a match.\<close>

definition matches :: "router \<Rightarrow> string \<Rightarrow> nat \<Rightarrow> bool" where
  "matches r path i \<longleftrightarrow> i < length (router_routes r) \<and> starts_with path (route_prefix (router_routes r ! i))"

abbreviation prefix_len :: "router \<Rightarrow> nat \<Rightarrow> nat" where
  "prefix_len r i \<equiv> length (route_prefix (router_routes r ! i))"

lemma match_route_SomeD:
  assumes "match_route r path = Some i"
  shows "matches r path i" "\<forall>j. matches r path j \<longrightarrow> prefix_len r j \<le> prefix_len r i \<and> (i < j \<longrightarrow> prefix_len r j < prefix_len r i)"
  using max_by_key_Some [OF _ assms [unfolded match_route_def]]
  by (auto simp: matches_def sorted_wrt_filter)

lemma match_route_None: "match_route r path = None \<longleftrightarrow> (\<forall>i. \<not> matches r path i)"
  by (auto simp: match_route_def matches_def filter_empty_conv)

lemma router_of_config_length [simp]: "length (router_routes (router_of_config c)) = length (routes c)"
  by (simp add: router_of_config_def router_new_def)

lemma router_of_config_nth:
  "i < length (routes c) \<Longrightarrow> router_routes (router_of_config c) ! i = route_of_config (routes c ! i)"
  by (simp add: router_of_config_def router_new_def)

section \<open>Properties\<close>

text \<open>Property C15. Routing is longest-prefix matching: a route is chosen exactly when its prefix
  starts the path, no matching route has a longer prefix, and no later route of the table has an
  equally long one. Nothing is chosen exactly when no prefix matches.\<close>

theorem match_route_longest:
  "match_route r path = Some i \<longleftrightarrow>
     matches r path i \<and>
     (\<forall>j < length (router_routes r). matches r path j \<longrightarrow>
        prefix_len r j \<le> prefix_len r i \<and> (i < j \<longrightarrow> prefix_len r j < prefix_len r i))"
proof
  assume "match_route r path = Some i"
  from match_route_SomeD [OF this]
  show "matches r path i \<and> (\<forall>j < length (router_routes r). matches r path j \<longrightarrow>
        prefix_len r j \<le> prefix_len r i \<and> (i < j \<longrightarrow> prefix_len r j < prefix_len r i))" by blast
next
  assume i: "matches r path i \<and> (\<forall>j < length (router_routes r). matches r path j \<longrightarrow>
        prefix_len r j \<le> prefix_len r i \<and> (i < j \<longrightarrow> prefix_len r j < prefix_len r i))"
  then obtain k where k: "match_route r path = Some k" by (metis match_route_None not_Some_eq)
  note kD = match_route_SomeD [OF k]
  have ki: "prefix_len r i \<le> prefix_len r k" "k < i \<longrightarrow> prefix_len r i < prefix_len r k"
    using kD(2) i by blast+
  have ik: "prefix_len r k \<le> prefix_len r i" "i < k \<longrightarrow> prefix_len r k < prefix_len r i"
    using kD(1) i by (auto simp: matches_def)
  from ki ik have "k = i" by linarith
  with k show "match_route r path = Some i" by simp
qed

theorem match_route_longest_witness:
  "let r = router_new (map (\<lambda>p. \<lparr>route_prefix = p, upstreams = [''u''], balancer = RR rr_new\<rparr>)
        [''/api'', ''/api/v2'', ''/'']) in
     match_route r ''/api/v2/users'' = Some 1 \<and> prefix_len r 0 \<le> prefix_len r 1"
proof -
  let ?r = "router_new (map (\<lambda>p. \<lparr>route_prefix = p, upstreams = [''u''], balancer = RR rr_new\<rparr>)
        [''/api'', ''/api/v2'', ''/''])"
  have "match_route ?r ''/api/v2/users'' = Some 1"
    by (simp add: match_route_def max_by_key_def starts_with_def router_new_def upt_rec)
  moreover from this have "matches ?r ''/api/v2/users'' 0 \<longrightarrow> prefix_len ?r 0 \<le> prefix_len ?r 1"
    unfolding match_route_longest by (simp add: router_new_def)
  ultimately show ?thesis by (simp add: Let_def router_new_def)
qed

end
