(* ===== verification/Health.thy ===== *)
theory Health
  imports Clock
begin

text \<open>
  health.rs: the passive health tracker. The map behind the lock holds, for every upstream that
  failed once, its consecutive failures and the time it was marked unhealthy; \<open>is_healthy\<close> clears
  a mark whose cooldown has passed. A panic while the lock is held poisons it, and every later
  \<open>lock().unwrap()\<close> panics: the \<open>h_poisoned\<close> flag.

  \<open>breaker_step\<close> is the abstract specification: a circuit breaker that counts the failures since
  the last success (or the last recovery) without a cap and knows the time of the last one.
\<close>

section \<open>Model\<close>

record upstream_health =
  consecutive_failures :: u32
  marked_unhealthy_at :: "instant option"

record health_tracker =
  h_state :: "string \<rightharpoonup> upstream_health"
  h_poisoned :: bool
  h_failure_threshold :: u32
  h_cooldown :: duration

definition health_new :: "u32 \<Rightarrow> duration \<Rightarrow> health_tracker" where
  "health_new threshold cooldown =
     \<lparr>h_state = Map.empty, h_poisoned = False, h_failure_threshold = threshold, h_cooldown = cooldown\<rparr>"

definition record_failure ::
  "profile \<Rightarrow> instant \<Rightarrow> health_tracker \<Rightarrow> string \<Rightarrow> health_tracker \<times> unit outcome" where
  "record_failure bp now h upstream =
     (if h_poisoned h then (h, Panic Lock_Poisoned)
      else
        let entry = (case h_state h upstream of
              Some e \<Rightarrow> e
            | None \<Rightarrow> \<lparr>consecutive_failures = 0, marked_unhealthy_at = None\<rparr>)
        in case add_word bp (consecutive_failures entry) 1 of
             Panic p \<Rightarrow> (h\<lparr>h_state := (h_state h)(upstream \<mapsto> entry), h_poisoned := True\<rparr>, Panic p)
           | Val n \<Rightarrow>
               let entry = entry\<lparr>consecutive_failures := n\<rparr>;
                   entry = (if h_failure_threshold h \<le> n
                            then entry\<lparr>consecutive_failures := h_failure_threshold h,
                                       marked_unhealthy_at := Some now\<rparr>
                            else entry)
               in (h\<lparr>h_state := (h_state h)(upstream \<mapsto> entry)\<rparr>, Val ()))"

definition record_success :: "health_tracker \<Rightarrow> string \<Rightarrow> health_tracker \<times> unit outcome" where
  "record_success h upstream =
     (if h_poisoned h then (h, Panic Lock_Poisoned)
      else case h_state h upstream of
             Some e \<Rightarrow> (h\<lparr>h_state := (h_state h)(upstream \<mapsto>
                          e\<lparr>consecutive_failures := 0, marked_unhealthy_at := None\<rparr>)\<rparr>, Val ())
           | None \<Rightarrow> (h, Val ()))"

definition is_healthy :: "instant \<Rightarrow> health_tracker \<Rightarrow> string \<Rightarrow> health_tracker \<times> bool outcome" where
  "is_healthy now h upstream =
     (if h_poisoned h then (h, Panic Lock_Poisoned)
      else case h_state h upstream of
             None \<Rightarrow> (h, Val True)
           | Some e \<Rightarrow>
               (case marked_unhealthy_at e of
                  None \<Rightarrow> (h, Val True)
                | Some marked_at \<Rightarrow>
                    if h_cooldown h \<le> duration_since now marked_at
                    then (h\<lparr>h_state := (h_state h)(upstream \<mapsto>
                            e\<lparr>consecutive_failures := 0, marked_unhealthy_at := None\<rparr>)\<rparr>, Val True)
                    else (h, Val False)))"

lemmas health_defs [op_defs] = record_failure_def record_success_def is_healthy_def

text \<open>The tracker as a step function: the operations with the clock each of them read.\<close>

datatype health_op = Fail string instant | Succeed string | Query string instant

fun health_step :: "profile \<Rightarrow> health_tracker \<Rightarrow> health_op \<Rightarrow> health_tracker \<times> bool outcome" where
  "health_step bp h (Fail u now) =
     (case record_failure bp now h u of (h', r) \<Rightarrow> (h', outcome_bind r (\<lambda>_. Val True)))"
| "health_step bp h (Succeed u) =
     (case record_success h u of (h', r) \<Rightarrow> (h', outcome_bind r (\<lambda>_. Val True)))"
| "health_step bp h (Query u now) = is_healthy now h u"

section \<open>Specification: a circuit breaker\<close>

record breaker =
  failed_in_a_row :: nat
  last_failure :: instant

definition tripped :: "nat \<Rightarrow> breaker \<Rightarrow> bool" where
  "tripped threshold b \<longleftrightarrow> max 1 threshold \<le> failed_in_a_row b"

fun breaker_step :: "nat \<Rightarrow> duration \<Rightarrow> (string \<Rightarrow> breaker) \<Rightarrow> health_op \<Rightarrow> (string \<Rightarrow> breaker) \<times> bool outcome" where
  "breaker_step threshold cooldown s (Fail u now) =
     (s(u := \<lparr>failed_in_a_row = Suc (failed_in_a_row (s u)), last_failure = now\<rparr>), Val True)"
| "breaker_step threshold cooldown s (Succeed u) = (s(u := (s u)\<lparr>failed_in_a_row := 0\<rparr>), Val True)"
| "breaker_step threshold cooldown s (Query u now) =
     (if tripped threshold (s u) then
        if cooldown \<le> duration_since now (last_failure (s u))
        then (s(u := (s u)\<lparr>failed_in_a_row := 0\<rparr>), Val True)
        else (s, Val False)
      else (s, Val True))"

text \<open>The abstraction: the stored count is capped at the threshold, a mark is the last failure.\<close>

definition entry_rel :: "u32 \<Rightarrow> upstream_health option \<Rightarrow> breaker \<Rightarrow> bool" where
  "entry_rel threshold e b \<longleftrightarrow>
     (case e of
        None \<Rightarrow> failed_in_a_row b = 0
      | Some e \<Rightarrow>
          unat (consecutive_failures e) = min (failed_in_a_row b) (unat threshold) \<and>
          marked_unhealthy_at e = (if tripped (unat threshold) b then Some (last_failure b) else None))"

definition breaker_rel :: "u32 \<Rightarrow> duration \<Rightarrow> health_tracker \<Rightarrow> (string \<Rightarrow> breaker) \<Rightarrow> bool" where
  "breaker_rel threshold cooldown h s \<longleftrightarrow>
     \<not> h_poisoned h \<and> h_failure_threshold h = threshold \<and> h_cooldown h = cooldown \<and>
     (\<forall>u. entry_rel threshold (h_state h u) (s u))"

lemma add_one_below:
  assumes "unat (a :: u32) \<le> unat (thr :: u32)" "thr \<noteq> -1"
  shows "add_word bp a 1 = Val (a + 1) \<and> unat (a + 1) = Suc (unat a)"
proof -
  have "a \<noteq> -1"
  proof
    assume a: "a = -1"
    have "unat thr \<le> unat (-1 :: u32)" using unat_bound [of thr] by (simp add: unat_max_word)
    with assms(1) a have "unat thr = unat (-1 :: u32)" by (metis le_antisym)
    then have "thr = -1" by (simp only: word_unat_eq_iff)
    with assms(2) show False ..
  qed
  then have s: "unat (a + 1) = Suc (unat a)" by (rule unat_Suc_fits)
  then have "unat a + unat (1 :: u32) < 2 ^ LENGTH(32)"
    using unat_bound [of "a + 1"] by simp
  then show ?thesis using s by (simp add: panic_simps)
qed

lemma fail_entry_rel:
  assumes "thr \<noteq> -1" "entry_rel thr (h_state h u) b" "\<not> h_poisoned h" "h_failure_threshold h = thr"
  shows "\<exists>e. record_failure bp now h u = (h\<lparr>h_state := (h_state h)(u \<mapsto> e)\<rparr>, Val ()) \<and>
    entry_rel thr (Some e) \<lparr>failed_in_a_row = Suc (failed_in_a_row b), last_failure = now\<rparr>"
proof -
  define e0 where "e0 = (case h_state h u of
      Some e \<Rightarrow> e | None \<Rightarrow> \<lparr>consecutive_failures = 0, marked_unhealthy_at = None\<rparr>)"
  have e0: "unat (consecutive_failures e0) = min (failed_in_a_row b) (unat thr)"
    "marked_unhealthy_at e0 = (if tripped (unat thr) b then Some (last_failure b) else None)"
    using assms(2) by (auto simp: entry_rel_def e0_def tripped_def split: option.splits)
  have add: "add_word bp (consecutive_failures e0) 1 = Val (consecutive_failures e0 + 1)"
    "unat (consecutive_failures e0 + 1) = Suc (unat (consecutive_failures e0))"
    using add_one_below [OF _ assms(1), of "consecutive_failures e0" bp] e0(1) by auto
  let ?n = "consecutive_failures e0 + 1"
  let ?e = "if thr \<le> ?n then e0\<lparr>consecutive_failures := thr, marked_unhealthy_at := Some now\<rparr>
            else e0\<lparr>consecutive_failures := ?n\<rparr>"
  have "record_failure bp now h u = (h\<lparr>h_state := (h_state h)(u \<mapsto> ?e)\<rparr>, Val ())"
    using assms(3,4) add(1) by (simp add: record_failure_def e0_def Let_def)
  moreover have "entry_rel thr (Some ?e) \<lparr>failed_in_a_row = Suc (failed_in_a_row b), last_failure = now\<rparr>"
    using e0 add(2) by (auto simp: entry_rel_def tripped_def word_le_nat_alt)
  ultimately show ?thesis by blast
qed

text \<open>One entry of the map changes, and the breaker of its upstream with it.\<close>

lemma breaker_rel_upd:
  "breaker_rel thr cd h s \<Longrightarrow> entry_rel thr e b \<Longrightarrow>
     breaker_rel thr cd (h\<lparr>h_state := (h_state h)(u := e)\<rparr>) (s(u := b))"
  by (simp add: breaker_rel_def)

lemma entry_rel_clear:
  "entry_rel thr (Some (e\<lparr>consecutive_failures := 0, marked_unhealthy_at := None\<rparr>)) (b\<lparr>failed_in_a_row := 0\<rparr>)"
  by (simp add: entry_rel_def tripped_def)

lemma entry_rel_None: "entry_rel thr None b \<Longrightarrow> b\<lparr>failed_in_a_row := 0\<rparr> = b \<and> \<not> tripped (unat thr) b"
  by (cases b) (simp add: entry_rel_def tripped_def)

lemma entry_rel_Some:
  "entry_rel thr (Some e) b \<Longrightarrow>
     marked_unhealthy_at e = (if tripped (unat thr) b then Some (last_failure b) else None)"
  by (simp add: entry_rel_def)

lemma breaker_rel_entry: "breaker_rel thr cd h s \<Longrightarrow> entry_rel thr (h_state h u) (s u)"
  by (simp add: breaker_rel_def)

lemma breaker_rel_frame:
  "breaker_rel thr cd h s \<Longrightarrow> \<not> h_poisoned h \<and> h_failure_threshold h = thr \<and> h_cooldown h = cd"
  by (simp add: breaker_rel_def)

lemma breaker_step_rel:
  assumes "thr \<noteq> -1" "breaker_rel thr cd h s"
  shows "breaker_rel thr cd (fst (health_step bp h e)) (fst (breaker_step (unat thr) cd s e))
       \<and> snd (health_step bp h e) = snd (breaker_step (unat thr) cd s e)"
proof (cases e)
  case (Fail u now)
  with fail_entry_rel [OF assms(1) breaker_rel_entry [OF assms(2)], of bp now u] breaker_rel_frame [OF assms(2)]
    breaker_rel_upd [OF assms(2)]
  show ?thesis by fastforce
next
  case (Succeed u)
  note fr = breaker_rel_frame [OF assms(2)] and en = breaker_rel_entry [OF assms(2), of u]
  show ?thesis
  proof (cases "h_state h u")
    case None
    then have "s(u := (s u)\<lparr>failed_in_a_row := 0\<rparr>) = s" using entry_rel_None [of thr "s u"] en by simp
    with None Succeed fr assms(2) show ?thesis by (simp add: record_success_def)
  next
    case (Some e0)
    with Succeed fr breaker_rel_upd [OF assms(2) entry_rel_clear] show ?thesis
      by (simp add: record_success_def)
  qed
next
  case (Query u now)
  note fr = breaker_rel_frame [OF assms(2)] and en = breaker_rel_entry [OF assms(2), of u]
  show ?thesis
  proof (cases "h_state h u")
    case None
    then have "\<not> tripped (unat thr) (s u)" using entry_rel_None [of thr "s u"] en by simp
    with None Query fr assms(2) show ?thesis by (simp add: is_healthy_def)
  next
    case (Some e0)
    with en have "marked_unhealthy_at e0 = (if tripped (unat thr) (s u) then Some (last_failure (s u)) else None)"
      by (simp add: entry_rel_Some)
    with Some Query fr assms(2) breaker_rel_upd [OF assms(2) entry_rel_clear] show ?thesis
      by (simp add: is_healthy_def)
  qed
qed

definition breaker_ok :: "u32 \<Rightarrow> health_op \<Rightarrow> bool" where
  "breaker_ok thr e \<longleftrightarrow> thr \<noteq> -1"

definition breaker_init :: "string \<Rightarrow> breaker" where
  "breaker_init = (\<lambda>_. \<lparr>failed_in_a_row = 0, last_failure = 0\<rparr>)"

interpretation breaker: simulation "health_step bp" "breaker_step (unat thr) cd" "breaker_rel thr cd" "breaker_ok thr"
  for bp thr cd
  by unfold_locales (simp_all add: breaker_ok_def breaker_step_rel)

lemma breaker_rel_new: "breaker_rel thr cd (health_new thr cd) breaker_init"
  by (simp add: breaker_rel_def health_new_def entry_rel_def breaker_init_def)

section \<open>Frames\<close>

lemma record_failure_frame:
  "h_failure_threshold (fst (record_failure bp now h u)) = h_failure_threshold h"
  "h_cooldown (fst (record_failure bp now h u)) = h_cooldown h"
  "v \<noteq> u \<Longrightarrow> h_state (fst (record_failure bp now h u)) v = h_state h v"
  by (simp_all add: record_failure_def Let_def split: outcome.splits)

lemma record_success_frame:
  "h_failure_threshold (fst (record_success h u)) = h_failure_threshold h"
  "h_cooldown (fst (record_success h u)) = h_cooldown h"
  "v \<noteq> u \<Longrightarrow> h_state (fst (record_success h u)) v = h_state h v"
  by (simp_all add: record_success_def split: option.splits)

lemma is_healthy_frame:
  "h_failure_threshold (fst (is_healthy now h u)) = h_failure_threshold h"
  "h_cooldown (fst (is_healthy now h u)) = h_cooldown h"
  "v \<noteq> u \<Longrightarrow> h_state (fst (is_healthy now h u)) v = h_state h v"
  by (simp_all add: is_healthy_def split: option.splits)

section \<open>Properties\<close>

text \<open>Property C16. The health tracker is a circuit breaker: for every sequence of failures,
  successes and queries, with any clock readings and in either build profile, it answers as the
  specification does, which counts failures without a cap; in particular it never panics. The
  threshold \<open>u32::MAX\<close> is excluded: there the counter overflows.\<close>

theorem health_refines_breaker:
  assumes "threshold \<noteq> -1"
  shows "snd (run (health_step bp) (health_new threshold cooldown) ops)
       = snd (run (breaker_step (unat threshold) cooldown) breaker_init ops)"
proof -
  have "list_all (breaker_ok threshold) ops"
    using assms by (simp add: breaker_ok_def list_all_iff)
  then show ?thesis by (rule breaker.run_out [OF breaker_rel_new])
qed

theorem health_refines_breaker_witness:
  "snd (run (health_step Debug) (health_new 2 30)
        [Fail ''a'' 0, Fail ''a'' 5, Query ''a'' 34, Query ''b'' 34, Query ''a'' 35, Query ''a'' 36])
     = [Val True, Val True, Val False, Val True, Val True, Val True]"
  using health_refines_breaker [of 2 Debug 30
      "[Fail ''a'' 0, Fail ''a'' 5, Query ''a'' 34, Query ''b'' 34, Query ''a'' 35, Query ''a'' 36]"]
  by (simp add: breaker_init_def tripped_def duration_since_def)

end
