(* ===== verification/Rate_Limiter.thy ===== *)
theory Rate_Limiter
  imports Clock Net_Addr
begin

text \<open>
  rate_limiter.rs: a token bucket per client address, refilled lazily with the time since its last
  use, and a sweep of the buckets idle for 300 seconds on every 1000th check. Tokens, capacity and
  rate are \<open>f64\<close> with binary64 rounding. Each operation takes the clock readings it makes; a check
  reads the clock for the sweep, for a new bucket and for the refill.

  \<open>meter_step\<close> is the abstract specification of a bucket used within one instant: a counter of
  whole tokens.
\<close>

section \<open>Model\<close>

record token_bucket =
  tokens :: f64
  capacity :: f64
  refill_rate :: f64
  last_refill :: instant

definition bucket_new :: "instant \<Rightarrow> f64 \<Rightarrow> f64 \<Rightarrow> token_bucket" where
  "bucket_new now cap rate = \<lparr>tokens = cap, capacity = cap, refill_rate = rate, last_refill = now\<rparr>"

definition refill :: "instant \<Rightarrow> token_bucket \<Rightarrow> token_bucket" where
  "refill now b =
     (let elapsed = as_secs_f64 (duration_since now (last_refill b)) in
      b\<lparr>tokens := f64_min (f64_add (tokens b) (f64_mul elapsed (refill_rate b))) (capacity b),
        last_refill := now\<rparr>)"

definition try_acquire :: "instant \<Rightarrow> token_bucket \<Rightarrow> token_bucket \<times> bool" where
  "try_acquire now b =
     (let b = refill now b in
      if f64_less_eq (Fin 1) (tokens b)
      then (b\<lparr>tokens := f64_add (tokens b) (Fin (-1))\<rparr>, True)
      else (b, False))"

record rate_limiter =
  buckets :: "ip_addr \<rightharpoonup> token_bucket"
  rl_poisoned :: bool
  rl_capacity :: f64
  rl_refill_rate :: f64
  enabled :: bool
  cleanup_counter :: u64

definition rate_limiter_new :: "f64 \<Rightarrow> u32 \<Rightarrow> rate_limiter" where
  "rate_limiter_new requests_per_sec burst =
     \<lparr>buckets = Map.empty, rl_poisoned = False, rl_capacity = f64_of_nat (unat burst),
      rl_refill_rate = requests_per_sec, enabled = True, cleanup_counter = 0\<rparr>"

definition rate_limiter_disabled :: rate_limiter where
  "rate_limiter_disabled =
     \<lparr>buckets = Map.empty, rl_poisoned = False, rl_capacity = Fin 0,
      rl_refill_rate = Fin 0, enabled = False, cleanup_counter = 0\<rparr>"

text \<open>\<open>retain\<close> on the map.\<close>

definition retain :: "('v \<Rightarrow> bool) \<Rightarrow> ('k \<rightharpoonup> 'v) \<Rightarrow> ('k \<rightharpoonup> 'v)" where
  "retain keep m = (\<lambda>k. case m k of None \<Rightarrow> None | Some v \<Rightarrow> if keep v then Some v else None)"

definition stale_after :: duration where
  "stale_after = from_secs 300"

definition cleanup :: "instant \<Rightarrow> rate_limiter \<Rightarrow> rate_limiter \<times> unit outcome" where
  "cleanup now rl =
     (if rl_poisoned rl then (rl, Panic Lock_Poisoned)
      else case instant_sub now stale_after of
             Panic p \<Rightarrow> (rl\<lparr>rl_poisoned := True\<rparr>, Panic p)
           | Val cutoff \<Rightarrow> (rl\<lparr>buckets := retain (\<lambda>b. cutoff < last_refill b) (buckets rl)\<rparr>, Val ()))"

text \<open>The locked part of a check: find or make the bucket of the address and take a token.\<close>

definition acquire_for :: "instant \<Rightarrow> instant \<Rightarrow> rate_limiter \<Rightarrow> ip_addr \<Rightarrow> rate_limiter \<times> bool outcome" where
  "acquire_for t_new t_refill rl ip =
     (if rl_poisoned rl then (rl, Panic Lock_Poisoned)
      else
        let bucket = (case buckets rl ip of
              Some b \<Rightarrow> b | None \<Rightarrow> bucket_new t_new (rl_capacity rl) (rl_refill_rate rl))
        in case try_acquire t_refill bucket of
             (b, r) \<Rightarrow> (rl\<lparr>buckets := (buckets rl)(ip \<mapsto> b)\<rparr>, Val r))"

record check_clock =
  t_cleanup :: instant
  t_new :: instant
  t_refill :: instant

definition check :: "check_clock \<Rightarrow> rate_limiter \<Rightarrow> ip_addr \<Rightarrow> rate_limiter \<times> bool outcome" where
  "check t rl ip =
     (if \<not> enabled rl then (rl, Val True)
      else
        let count = cleanup_counter rl;
            rl = rl\<lparr>cleanup_counter := count + 1\<rparr>
        in case (if unat count mod 1000 = 0 then cleanup (t_cleanup t) rl else (rl, Val ())) of
             (rl, Panic p) \<Rightarrow> (rl, Panic p)
           | (rl, Val _) \<Rightarrow> acquire_for (t_new t) (t_refill t) rl ip)"

section \<open>Binary64 facts about buckets\<close>

text \<open>Not negative, or one of the values \<open>f64::min\<close> replaces by the capacity.\<close>

fun nonneg :: "f64 \<Rightarrow> bool" where
  "nonneg (Fin q) = (0 \<le> q)"
| "nonneg NInf = False"
| "nonneg y = True"

lemma nonneg_of_rat: "0 \<le> x \<Longrightarrow> nonneg (f64_of_rat x)"
proof -
  assume "0 \<le> x"
  then have r: "0 \<le> round_q x" by (rule f64_round.rnd_nonneg)
  have "(0 :: rat) < 2 ^ 1024" by simp
  with r have "\<not> round_q x \<le> - (2 ^ 1024)" by linarith
  with r show ?thesis by (simp add: f64_of_rat_def Let_def)
qed

lemma nonneg_add: "nonneg x \<Longrightarrow> nonneg y \<Longrightarrow> nonneg (f64_add x y)"
  by (cases x; cases y) (simp_all add: nonneg_of_rat)

lemma nonneg_mul: "nonneg x \<Longrightarrow> nonneg y \<Longrightarrow> nonneg (f64_mul x y)"
  by (cases x; cases y) (simp_all add: nonneg_of_rat signed_inf_def)

lemma nonneg_div_lit: "nonneg x \<Longrightarrow> 0 < c \<Longrightarrow> nonneg (f64_div_lit x c)"
  by (cases x) (simp_all add: nonneg_of_rat)

lemma nonneg_as_secs: "nonneg (as_secs_f64 d)"
  by (simp add: as_secs_f64_def f64_of_nat_def nonneg_add nonneg_div_lit nonneg_of_rat nanos_per_sec_def)

lemma f64_min_cap:
  assumes "nonneg x" "0 \<le> c"
  shows "\<exists>q. f64_min x (Fin c) = Fin q \<and> 0 \<le> q \<and> q \<le> c"
  using assms by (cases x) auto

section \<open>The invariant of the buckets\<close>

text \<open>Tokens stay between zero and the burst size, whatever the clock and the (finite, not
  negative) rate are.\<close>

definition bucket_inv :: "nat \<Rightarrow> f64 \<Rightarrow> token_bucket \<Rightarrow> bool" where
  "bucket_inv burst rate b \<longleftrightarrow>
     capacity b = Fin (of_nat burst) \<and> refill_rate b = rate \<and>
     (\<exists>q. tokens b = Fin q \<and> 0 \<le> q \<and> q \<le> of_nat burst)"

lemma bucket_inv_new: "bucket_inv burst rate (bucket_new now (Fin (of_nat burst)) rate)"
  by (simp add: bucket_inv_def bucket_new_def)

lemma bucket_inv_refill:
  assumes "bucket_inv burst rate b" "nonneg rate"
  shows "bucket_inv burst rate (refill now b)"
proof -
  obtain q where "tokens b = Fin q" "0 \<le> q" using assms(1) by (auto simp: bucket_inv_def)
  then have "nonneg (f64_add (tokens b) (f64_mul (as_secs_f64 (duration_since now (last_refill b))) (refill_rate b)))"
    using assms by (simp add: nonneg_add nonneg_mul nonneg_as_secs bucket_inv_def)
  from f64_min_cap [OF this, of "of_nat burst"] assms(1) show ?thesis
    by (simp add: refill_def bucket_inv_def Let_def)
qed

lemma take_token:
  assumes "tokens b = Fin q" "1 \<le> q" "q \<le> of_nat burst" "burst \<le> 2 ^ 53"
  shows "\<exists>r. f64_add (tokens b) (Fin (-1)) = Fin r \<and> 0 \<le> r \<and> r \<le> of_nat burst"
proof -
  have small: "\<bar>q - 1\<bar> \<le> 2 ^ 53"
  proof -
    have "(of_nat burst :: rat) \<le> of_nat (2 ^ 53)" using assms(4) by (simp only: of_nat_le_iff)
    then show ?thesis using assms(2,3) by simp
  qed
  have "0 \<le> round_q (q - 1)" using assms(2) by (intro f64_round.rnd_nonneg) simp
  moreover have "round_q (q - 1) \<le> of_nat burst" using assms(3,4) by (intro f64_round.rnd_le_nat) auto
  ultimately show ?thesis using assms(1) small by (simp add: f64_of_rat_small)
qed

lemma bucket_inv_acquire:
  assumes "bucket_inv burst rate b" "nonneg rate" "burst \<le> 2 ^ 53"
  shows "bucket_inv burst rate (fst (try_acquire now b))"
proof -
  have r: "bucket_inv burst rate (refill now b)" using assms(1,2) by (rule bucket_inv_refill)
  then obtain q where q: "tokens (refill now b) = Fin q" "q \<le> of_nat burst" by (auto simp: bucket_inv_def)
  show ?thesis
  proof (cases "1 \<le> q")
    case True
    from take_token [OF q(1) this q(2) assms(3)] r q True show ?thesis
      by (auto simp: try_acquire_def Let_def bucket_inv_def)
  next
    case False
    with r q show ?thesis by (simp add: try_acquire_def Let_def)
  qed
qed

definition limiter_inv :: "nat \<Rightarrow> f64 \<Rightarrow> rate_limiter \<Rightarrow> bool" where
  "limiter_inv burst rate rl \<longleftrightarrow>
     \<not> rl_poisoned rl \<and> rl_capacity rl = Fin (of_nat burst) \<and> rl_refill_rate rl = rate \<and>
     burst \<le> 2 ^ 53 \<and> nonneg rate \<and> (\<forall>ip b. buckets rl ip = Some b \<longrightarrow> bucket_inv burst rate b)"

text \<open>The clock is far enough from its lower end for the sweep to subtract 300 seconds.\<close>

definition sweepable :: "instant \<Rightarrow> bool" where
  "sweepable t \<longleftrightarrow> instant_min \<le> t - int stale_after"

lemma cleanup_Val:
  "sweepable t \<Longrightarrow> \<not> rl_poisoned rl \<Longrightarrow>
     cleanup t rl = (rl\<lparr>buckets := retain (\<lambda>b. t - int stale_after < last_refill b) (buckets rl)\<rparr>, Val ())"
  by (simp add: cleanup_def sweepable_def instant_sub_def)

lemma acquire_for_Val:
  "\<not> rl_poisoned rl \<Longrightarrow> \<exists>b r. acquire_for t1 t2 rl ip = (rl\<lparr>buckets := (buckets rl)(ip \<mapsto> b)\<rparr>, Val r)"
  by (auto simp: acquire_for_def Let_def split: prod.splits)

lemma limiter_inv_acquire:
  assumes "limiter_inv burst rate rl"
  shows "limiter_inv burst rate (fst (acquire_for t1 t2 rl ip))"
proof -
  let ?b = "case buckets rl ip of Some b \<Rightarrow> b | None \<Rightarrow> bucket_new t1 (rl_capacity rl) (rl_refill_rate rl)"
  have "bucket_inv burst rate ?b"
    using assms by (auto simp: limiter_inv_def bucket_inv_new split: option.splits)
  then have "bucket_inv burst rate (fst (try_acquire t2 ?b))"
    using assms by (simp add: limiter_inv_def bucket_inv_acquire)
  then show ?thesis using assms
    by (auto simp: acquire_for_def limiter_inv_def Let_def case_prod_beta)
qed

lemma limiter_inv_retain:
  "limiter_inv burst rate rl \<Longrightarrow> limiter_inv burst rate (rl\<lparr>buckets := retain keep (buckets rl)\<rparr>)"
  by (auto simp: limiter_inv_def retain_def split: option.splits if_splits)

lemma limiter_inv_counter:
  "limiter_inv burst rate (rl\<lparr>cleanup_counter := c\<rparr>) \<longleftrightarrow> limiter_inv burst rate rl"
  by (simp add: limiter_inv_def)

lemma check_cases:
  assumes "enabled rl" "\<not> rl_poisoned rl" "sweepable (t_cleanup t)"
  obtains m where "check t rl ip = acquire_for (t_new t) (t_refill t)
      (rl\<lparr>cleanup_counter := cleanup_counter rl + 1, buckets := m\<rparr>) ip"
    "m = buckets rl \<or> m = retain (\<lambda>b. t_cleanup t - int stale_after < last_refill b) (buckets rl)"
proof (cases "unat (cleanup_counter rl) mod 1000 = 0")
  case True
  with assms have "check t rl ip = acquire_for (t_new t) (t_refill t)
      (rl\<lparr>cleanup_counter := cleanup_counter rl + 1,
          buckets := retain (\<lambda>b. t_cleanup t - int stale_after < last_refill b) (buckets rl)\<rparr>) ip"
    by (simp add: check_def Let_def cleanup_Val)
  then show ?thesis using that by blast
next
  case False
  with assms have "check t rl ip = acquire_for (t_new t) (t_refill t)
      (rl\<lparr>cleanup_counter := cleanup_counter rl + 1, buckets := buckets rl\<rparr>) ip"
    by (simp add: check_def Let_def)
  then show ?thesis using that by blast
qed

definition check_step :: "rate_limiter \<Rightarrow> check_clock \<times> ip_addr \<Rightarrow> rate_limiter \<times> bool outcome" where
  "check_step rl e = check (fst e) rl (snd e)"

lemma limiter_inv_check:
  assumes "limiter_inv burst rate rl" "sweepable (t_cleanup t)"
  shows "limiter_inv burst rate (fst (check t rl ip)) \<and> is_Val (snd (check t rl ip))"
proof (cases "enabled rl")
  case True
  have np: "\<not> rl_poisoned rl" using assms(1) by (simp add: limiter_inv_def)
  from check_cases [OF True np assms(2), of ip] obtain m where m:
    "check t rl ip = acquire_for (t_new t) (t_refill t)
       (rl\<lparr>cleanup_counter := cleanup_counter rl + 1, buckets := m\<rparr>) ip"
    "m = buckets rl \<or> m = retain (\<lambda>b. t_cleanup t - int stale_after < last_refill b) (buckets rl)" by metis
  have same: "rl\<lparr>cleanup_counter := cleanup_counter rl + 1, buckets := m\<rparr>
      = (rl\<lparr>buckets := m\<rparr>)\<lparr>cleanup_counter := cleanup_counter rl + 1\<rparr>" by simp
  have "limiter_inv burst rate (rl\<lparr>buckets := m\<rparr>)"
    using m(2) assms(1) limiter_inv_retain by auto
  then have inv: "limiter_inv burst rate (rl\<lparr>cleanup_counter := cleanup_counter rl + 1, buckets := m\<rparr>)"
    unfolding same limiter_inv_counter .
  then have "\<not> rl_poisoned (rl\<lparr>cleanup_counter := cleanup_counter rl + 1, buckets := m\<rparr>)"
    by (simp add: limiter_inv_def)
  from acquire_for_Val [OF this, of "t_new t" "t_refill t" ip] limiter_inv_acquire [OF inv] m(1)
  show ?thesis by (auto simp: is_Val_iff)
next
  case False
  with assms show ?thesis by (simp add: check_def)
qed

interpretation limiter: preserves check_step "limiter_inv burst rate" "\<lambda>e. sweepable (t_cleanup (fst e))"
  for burst rate
  by unfold_locales (simp add: check_step_def limiter_inv_check)

lemma limiter_inv_init:
  assumes "nonneg rate"
  shows "limiter_inv (unat burst) rate (rate_limiter_new rate burst)"
proof -
  have "unat burst < 2 ^ 32" using unat_bound [of burst] by simp
  with assms show ?thesis by (simp add: limiter_inv_def rate_limiter_new_def)
qed

lemma empty_limiter_refuses:
  assumes "nonneg rate"
  shows "snd (acquire_for t1 t2 (rate_limiter_new rate 0) ip) = Val False"
proof -
  have "bucket_inv 0 rate (refill t2 (bucket_new t1 (Fin 0) rate))"
    using bucket_inv_refill [OF bucket_inv_new [of 0] assms] by simp
  moreover have "rl_capacity (rate_limiter_new rate 0) = Fin 0"
    using limiter_inv_init [OF assms, of 0] by (simp add: limiter_inv_def)
  ultimately show ?thesis
    by (auto simp: acquire_for_def rate_limiter_new_def try_acquire_def Let_def bucket_inv_def)
qed

section \<open>Within one instant: a counter of whole tokens\<close>

definition meter_step :: "(ip_addr \<Rightarrow> nat) \<Rightarrow> ip_addr \<Rightarrow> (ip_addr \<Rightarrow> nat) \<times> bool outcome" where
  "meter_step s ip = (if 0 < s ip then (s(ip := s ip - 1), Val True) else (s, Val False))"

definition at_instant :: "instant \<Rightarrow> check_clock" where
  "at_instant t = \<lparr>t_cleanup = t, t_new = t, t_refill = t\<rparr>"

definition check_at :: "instant \<Rightarrow> rate_limiter \<Rightarrow> ip_addr \<Rightarrow> rate_limiter \<times> bool outcome" where
  "check_at t rl ip = check (at_instant t) rl ip"

definition meter_entry :: "instant \<Rightarrow> nat \<Rightarrow> rat \<Rightarrow> token_bucket option \<Rightarrow> nat \<Rightarrow> bool" where
  "meter_entry t burst rate e n \<longleftrightarrow> n \<le> burst \<and>
     (case e of
        None \<Rightarrow> n = burst
      | Some b \<Rightarrow> b = \<lparr>tokens = Fin (of_nat n), capacity = Fin (of_nat burst),
                       refill_rate = Fin rate, last_refill = t\<rparr>)"

definition meter_rel :: "instant \<Rightarrow> nat \<Rightarrow> rat \<Rightarrow> rate_limiter \<Rightarrow> (ip_addr \<Rightarrow> nat) \<Rightarrow> bool" where
  "meter_rel t burst rate rl s \<longleftrightarrow>
     enabled rl \<and> \<not> rl_poisoned rl \<and> rl_capacity rl = Fin (of_nat burst) \<and> rl_refill_rate rl = Fin rate \<and>
     (\<forall>ip. meter_entry t burst rate (buckets rl ip) (s ip))"

lemma f64_of_rat_nat: "n \<le> 2 ^ 53 \<Longrightarrow> f64_of_rat (of_nat n) = Fin (of_nat n)"
  using f64_of_nat_exact by (simp add: f64_of_nat_def)

lemma acquire_same_instant:
  assumes "n \<le> burst" "burst \<le> 2 ^ 53"
  shows "try_acquire t \<lparr>tokens = Fin (of_nat n), capacity = Fin (of_nat burst), refill_rate = Fin rate, last_refill = t\<rparr>
       = (\<lparr>tokens = Fin (of_nat (n - 1)), capacity = Fin (of_nat burst), refill_rate = Fin rate, last_refill = t\<rparr>, 0 < n)"
proof -
  have zero: "f64_of_rat 0 = Fin 0" using f64_of_rat_nat [of 0] by simp
  have n: "f64_of_rat (of_nat n) = Fin (of_nat n)" using assms by (intro f64_of_rat_nat) simp
  show ?thesis
  proof (cases n)
    case 0
    then show ?thesis by (simp add: try_acquire_def refill_def Let_def zero)
  next
    case (Suc k)
    have "f64_of_rat (of_nat k) = Fin (of_nat k)" using Suc assms by (intro f64_of_rat_nat) simp
    with Suc n assms show ?thesis by (simp add: try_acquire_def refill_def Let_def zero)
  qed
qed

lemma meter_retain:
  assumes "meter_entry t burst rate (m ip) n"
  shows "retain (\<lambda>b. t - int stale_after < last_refill b) m ip = m ip"
proof -
  have "0 < int stale_after" by (simp add: stale_after_def from_secs_def nanos_per_sec_def)
  with assms show ?thesis by (auto simp: retain_def meter_entry_def split: option.splits)
qed

lemma check_meter:
  assumes "meter_rel t burst rate rl s" "burst \<le> 2 ^ 53" "sweepable t"
  shows "meter_rel t burst rate (fst (check_at t rl ip)) (fst (meter_step s ip))
       \<and> snd (check_at t rl ip) = snd (meter_step s ip)"
proof -
  have en: "enabled rl" "\<not> rl_poisoned rl" "sweepable (t_cleanup (at_instant t))"
    using assms by (simp_all add: meter_rel_def at_instant_def)
  have caps: "rl_capacity rl = Fin (of_nat burst)" "rl_refill_rate rl = Fin rate"
    using assms(1) by (simp_all add: meter_rel_def)
  have ent: "meter_entry t burst rate (buckets rl i) (s i)" for i
    using assms(1) by (simp add: meter_rel_def)
  have "retain (\<lambda>b. t - int stale_after < last_refill b) (buckets rl) = buckets rl"
    by (rule ext) (rule meter_retain [where m = "buckets rl", OF ent])
  with check_cases [OF en, of ip] have chk: "check_at t rl ip =
      acquire_for t t (rl\<lparr>cleanup_counter := cleanup_counter rl + 1, buckets := buckets rl\<rparr>) ip"
    by (auto simp: check_at_def at_instant_def elim!: check_cases [OF en, of ip])
  define b where "b = \<lparr>tokens = Fin (of_nat (s ip)), capacity = Fin (of_nat burst), refill_rate = Fin rate, last_refill = t\<rparr>"
  have b: "(case buckets rl ip of Some b \<Rightarrow> b | None \<Rightarrow> bucket_new t (rl_capacity rl) (rl_refill_rate rl)) = b"
    using ent [of ip] caps
    by (cases "buckets rl ip") (simp_all add: b_def meter_entry_def bucket_new_def)
  have le: "s ip \<le> burst" using ent [of ip] by (simp add: meter_entry_def)
  have "acquire_for t t rl' ip = (rl'\<lparr>buckets := (buckets rl')(ip \<mapsto> b\<lparr>tokens := Fin (of_nat (s ip - 1))\<rparr>)\<rparr>, Val (0 < s ip))"
    if "\<not> rl_poisoned rl'" "rl_capacity rl' = rl_capacity rl" "rl_refill_rate rl' = rl_refill_rate rl"
      "buckets rl' = buckets rl" for rl'
  proof -
    have "(case buckets rl' ip of Some b \<Rightarrow> b | None \<Rightarrow> bucket_new t (rl_capacity rl') (rl_refill_rate rl')) = b"
      using b that by (cases "buckets rl ip") simp_all
    moreover have "try_acquire t b = (b\<lparr>tokens := Fin (of_nat (s ip - 1))\<rparr>, 0 < s ip)"
      using acquire_same_instant [OF le assms(2), of t rate] by (simp add: b_def)
    ultimately show ?thesis using that(1) by (simp add: acquire_for_def Let_def)
  qed
  then have "check_at t rl ip = (rl\<lparr>cleanup_counter := cleanup_counter rl + 1,
      buckets := (buckets rl)(ip \<mapsto> b\<lparr>tokens := Fin (of_nat (s ip - 1))\<rparr>)\<rparr>, Val (0 < s ip))"
    using en(2) by (simp add: chk)
  moreover have "meter_entry t burst rate (Some (b\<lparr>tokens := Fin (of_nat (s ip - 1))\<rparr>)) (s ip - 1)"
    using le by (simp add: meter_entry_def b_def)
  ultimately show ?thesis using assms(1) by (auto simp: meter_rel_def meter_step_def)
qed

interpretation meter: simulation "check_at t" meter_step "meter_rel t burst rate" "\<lambda>_. burst \<le> 2 ^ 53 \<and> sweepable t"
  for t burst rate
  by unfold_locales (simp_all add: check_meter)

text \<open>What the specification grants an address: as many requests as it has tokens.\<close>

definition grants :: "ip_addr \<Rightarrow> ip_addr list \<Rightarrow> bool outcome list \<Rightarrow> nat" where
  "grants ip ips rs = length (filter (\<lambda>(i, r). i = ip \<and> r = Val True) (zip ips rs))"

lemma meter_grants: "grants ip ips (snd (run meter_step s ips)) = min (s ip) (count_list ips ip)"
  by (induction ips arbitrary: s)
     (auto simp: grants_def meter_step_def run_Cons_proj simp del: run.simps(2))

section \<open>The sweep is invisible where a bucket refills within its idle time\<close>

lemma as_secs_ge:
  assumes "stale_after \<le> d"
  shows "nonneg (as_secs_f64 d) \<and> (\<forall>q. as_secs_f64 d = Fin q \<longrightarrow> 300 \<le> q)"
proof -
  let ?s = "d div nanos_per_sec" and ?n = "d mod nanos_per_sec"
  have s: "300 \<le> ?s"
    using assms by (simp add: stale_after_def from_secs_def nanos_per_sec_def)
  have whole: "300 \<le> round_q (of_nat ?s)" using f64_round.rnd_ge_nat [of 300 "of_nat ?s"] s by simp
  have part: "nonneg (f64_div_lit (f64_of_nat ?n) (of_nat nanos_per_sec))"
    by (simp add: nonneg_div_lit nonneg_of_rat f64_of_nat_def nanos_per_sec_def)
  have "300 \<le> q" if "as_secs_f64 d = Fin q" for q
  proof -
    from that obtain a b where ab: "f64_of_nat ?s = Fin a" "f64_div_lit (f64_of_nat ?n) (of_nat nanos_per_sec) = Fin b"
        "f64_of_rat (a + b) = Fin q"
      unfolding as_secs_f64_def
      by (cases "f64_of_nat ?s"; cases "f64_div_lit (f64_of_nat ?n) (of_nat nanos_per_sec)") auto
    have "300 \<le> a" using ab(1) whole by (auto simp: f64_of_nat_def f64_of_rat_def Let_def split: if_splits)
    moreover have "0 \<le> b" using ab(2) part by simp
    ultimately have "300 \<le> round_q (a + b)" using f64_round.rnd_ge_nat [of 300 "a + b"] by simp
    then show ?thesis using ab(3) by (auto simp: f64_of_rat_def Let_def split: if_splits)
  qed
  then show ?thesis by (simp add: nonneg_as_secs)
qed

lemma of_rat_ge_nat:
  assumes "of_nat n \<le> x" "n \<le> 2 ^ 53" "f64_of_rat x = Fin q"
  shows "of_nat n \<le> q"
  using f64_round.rnd_ge_nat [OF assms(1,2)] assms(3) by (auto simp: f64_of_rat_def Let_def split: if_splits)

lemma refill_full:
  assumes "bucket_inv burst (Fin rate) b" "burst \<le> 2 ^ 53" "of_nat burst \<le> 300 * rate" "0 \<le> rate"
    and "stale_after \<le> duration_since now (last_refill b)"
  shows "tokens (refill now b) = Fin (of_nat burst)"
proof -
  define e where "e = as_secs_f64 (duration_since now (last_refill b))"
  obtain q where q: "tokens b = Fin q" "0 \<le> q" using assms(1) by (auto simp: bucket_inv_def)
  have e: "nonneg e" "\<And>x. e = Fin x \<Longrightarrow> 300 \<le> x"
    using as_secs_ge [OF assms(5)] by (auto simp: e_def)
  have gain: "of_nat burst \<le> y" if "f64_mul e (Fin rate) = Fin y" for y
  proof -
    from that obtain x where x: "e = Fin x" "f64_of_rat (x * rate) = Fin y"
      using assms(4) by (cases e) (auto simp: signed_inf_def split: if_splits)
    have "300 * rate \<le> x * rate" using e(2) [OF x(1)] assms(4) by (rule mult_right_mono)
    then show ?thesis using of_rat_ge_nat [OF _ assms(2) x(2)] assms(3) by simp
  qed
  have "f64_min (f64_add (Fin q) (f64_mul e (Fin rate))) (Fin (of_nat burst)) = Fin (of_nat burst)"
  proof (cases "f64_mul e (Fin rate)")
    case (Fin y)
    have "of_nat burst \<le> q + y" using gain [OF Fin] q(2) by simp
    then have "of_nat burst \<le> z" if "f64_of_rat (q + y) = Fin z" for z
      using of_rat_ge_nat [OF _ assms(2) that] by simp
    moreover have "nonneg (f64_of_rat (q + y))"
      using gain [OF Fin] q(2) by (intro nonneg_of_rat) (simp add: order_trans [of 0 "of_nat burst"])
    ultimately show ?thesis using Fin by (cases "f64_of_rat (q + y)") auto
  next
    case NInf
    then show ?thesis using nonneg_mul [OF e(1), of "Fin rate"] assms(4) by simp
  qed auto
  then show ?thesis using assms(1) q by (simp add: refill_def Let_def bucket_inv_def e_def)
qed

section \<open>Properties\<close>



text \<open>Property C19. Bursts and isolation: among any requests of any addresses at one instant, a
  fresh limiter admits of each address exactly \<open>burst_size\<close> requests (or all, if there are fewer),
  whatever the other addresses send and wherever the sweeps fall.\<close>

theorem limiter_burst:
  assumes "sweepable t"
  shows "grants ip ips (snd (run (check_at t) (rate_limiter_new (Fin rate) burst) ips))
       = min (unat burst) (count_list ips ip)"
proof -
  have burst: "unat burst \<le> 2 ^ 53" using unat_bound [of burst] by simp
  have "meter_rel t (unat burst) rate (rate_limiter_new (Fin rate) burst) (\<lambda>_. unat burst)"
    by (simp add: meter_rel_def rate_limiter_new_def meter_entry_def)
  moreover have "list_all (\<lambda>_. unat burst \<le> 2 ^ 53 \<and> sweepable t) ips"
    using burst assms by (simp only: list_all_iff) blast
  ultimately have "snd (run (check_at t) (rate_limiter_new (Fin rate) burst) ips)
      = snd (run meter_step (\<lambda>_. unat burst) ips)"
    by (rule meter.run_out)
  then show ?thesis by (simp add: meter_grants)
qed

theorem limiter_burst_witness:
  "grants (V4 1) [V4 1, V4 2, V4 1, V4 1]
     (snd (run (check_at 0) (rate_limiter_new (Fin 2) 2) [V4 1, V4 2, V4 1, V4 1])) = 2"
  using limiter_burst [of 0 "V4 1" "[V4 1, V4 2, V4 1, V4 1]" 2 2]
  by (simp add: sweepable_def stale_after_def from_secs_def nanos_per_sec_def instant_min_def)




text \<open>A disabled limiter (no \<open>rate_limit\<close> section) admits every request and never
  changes.\<close>

lemma disabled_limiter_admits:
  "run check_step rate_limiter_disabled es = (rate_limiter_disabled, replicate (length es) (Val True))"
  by (induction es) (simp_all add: check_step_def check_def rate_limiter_disabled_def)

end
