(* ===== verification/Retry_Budget.thy ===== *)
theory Retry_Budget
  imports Clock
begin

text \<open>
  retry_budget.rs: retries as a share of the requests in a sliding window. The state behind the
  lock is two lists of times, pruned only when a retry is asked for. \<open>window_step\<close> is the abstract
  specification: it keeps the whole history and counts what lies in the window.
\<close>

section \<open>Model\<close>

record retry_budget =
  rb_requests :: "instant list"
  rb_retries :: "instant list"
  rb_poisoned :: bool
  budget_percent :: f64
  rb_window :: duration

definition retry_budget_new :: "f64 \<Rightarrow> u64 \<Rightarrow> retry_budget" where
  "retry_budget_new percent window_secs =
     \<lparr>rb_requests = [], rb_retries = [], rb_poisoned = False, budget_percent = percent,
      rb_window = from_secs window_secs\<rparr>"

definition record_request :: "instant \<Rightarrow> retry_budget \<Rightarrow> retry_budget \<times> unit outcome" where
  "record_request now rb =
     (if rb_poisoned rb then (rb, Panic Lock_Poisoned)
      else (rb\<lparr>rb_requests := rb_requests rb @ [now]\<rparr>, Val ()))"

text \<open>\<open>(total as f64 * budget_percent / 100.0).ceil() as usize\<close>\<close>

definition retry_allowance :: "f64 \<Rightarrow> nat \<Rightarrow> nat" where
  "retry_allowance percent reqs =
     f64_to_usize (f64_ceil (f64_div_lit (f64_mul (f64_of_nat reqs) percent) 100))"

definition allow_retry :: "instant \<Rightarrow> instant \<Rightarrow> retry_budget \<Rightarrow> retry_budget \<times> bool outcome" where
  "allow_retry now now' rb =
     (if rb_poisoned rb then (rb, Panic Lock_Poisoned)
      else case instant_sub now (rb_window rb) of
             Panic p \<Rightarrow> (rb\<lparr>rb_poisoned := True\<rparr>, Panic p)
           | Val cutoff \<Rightarrow>
               let rb = rb\<lparr>rb_requests := filter (\<lambda>t. cutoff < t) (rb_requests rb),
                           rb_retries := filter (\<lambda>t. cutoff < t) (rb_retries rb)\<rparr>;
                   reqs = length (rb_requests rb)
               in if reqs = 0 then (rb, Val True)
                  else let max_retries = retry_allowance (budget_percent rb) reqs
                       in if length (rb_retries rb) < max_retries
                          then (rb\<lparr>rb_retries := rb_retries rb @ [now']\<rparr>, Val True)
                          else (rb, Val False))"

lemmas budget_defs [op_defs] = record_request_def allow_retry_def

datatype budget_op = Request instant | Retry instant instant

fun budget_step :: "retry_budget \<Rightarrow> budget_op \<Rightarrow> retry_budget \<times> bool outcome" where
  "budget_step rb (Request now) =
     (case record_request now rb of (rb', r) \<Rightarrow> (rb', outcome_bind r (\<lambda>_. Val True)))"
| "budget_step rb (Retry now now') = allow_retry now now' rb"

section \<open>Specification: counting the whole history\<close>

record history =
  all_requests :: "instant list"
  all_retries :: "instant list"

definition in_window :: "duration \<Rightarrow> instant \<Rightarrow> instant list \<Rightarrow> nat" where
  "in_window window now ts = length (filter (\<lambda>t. now - int window < t) ts)"

fun window_step :: "f64 \<Rightarrow> duration \<Rightarrow> history \<Rightarrow> budget_op \<Rightarrow> history \<times> bool outcome" where
  "window_step percent window h (Request now) =
     (h\<lparr>all_requests := all_requests h @ [now]\<rparr>, Val True)"
| "window_step percent window h (Retry now now') =
     (let reqs = in_window window now (all_requests h) in
      if reqs = 0 then (h, Val True)
      else if in_window window now (all_retries h) < retry_allowance percent reqs
           then (h\<lparr>all_retries := all_retries h @ [now']\<rparr>, Val True)
           else (h, Val False))"

text \<open>The readings of one monotonic clock, far enough from its lower end.\<close>

fun clocked :: "duration \<Rightarrow> instant \<Rightarrow> budget_op list \<Rightarrow> bool" where
  "clocked window t [] = True"
| "clocked window t (Request now # es) = (t \<le> now \<and> clocked window now es)"
| "clocked window t (Retry now now' # es) =
     (t \<le> now \<and> now \<le> now' \<and> instant_min \<le> now - int window \<and> clocked window now' es)"

text \<open>Up to what any later window can see, the pruned lists are the history.\<close>

definition window_rel :: "f64 \<Rightarrow> duration \<Rightarrow> instant \<Rightarrow> retry_budget \<Rightarrow> history \<Rightarrow> bool" where
  "window_rel percent window t rb h \<longleftrightarrow>
     \<not> rb_poisoned rb \<and> budget_percent rb = percent \<and> rb_window rb = window \<and>
     (\<forall>c. t - int window \<le> c \<longrightarrow>
        filter (\<lambda>x. c < x) (rb_requests rb) = filter (\<lambda>x. c < x) (all_requests h) \<and>
        filter (\<lambda>x. c < x) (rb_retries rb) = filter (\<lambda>x. c < x) (all_retries h))"

lemma window_rel_later: "window_rel p w t rb h \<Longrightarrow> t \<le> t' \<Longrightarrow> window_rel p w t' rb h"
  by (auto simp: window_rel_def)

lemma window_rel_prune:
  assumes "window_rel p w t rb h"
  shows "window_rel p w t (rb\<lparr>rb_requests := filter (\<lambda>x. t - int w < x) (rb_requests rb),
                               rb_retries := filter (\<lambda>x. t - int w < x) (rb_retries rb)\<rparr>) h"
proof -
  have "filter (\<lambda>x. c < x) (filter (\<lambda>x. t - int w < x) xs) = filter (\<lambda>x. c < x) xs"
    if "t - int w \<le> c" for c and xs :: "int list"
    using that by (induction xs) auto
  with assms show ?thesis by (simp add: window_rel_def)
qed

lemma window_rel_now:
  assumes "window_rel p w t rb h"
  shows "length (filter (\<lambda>x. t - int w < x) (rb_requests rb)) = in_window w t (all_requests h)"
    "length (filter (\<lambda>x. t - int w < x) (rb_retries rb)) = in_window w t (all_retries h)"
  using assms by (simp_all add: window_rel_def in_window_def)

lemma window_request:
  assumes "window_rel p w t rb h"
  shows "window_rel p w t (fst (budget_step rb (Request now))) (fst (window_step p w h (Request now)))
       \<and> snd (budget_step rb (Request now)) = snd (window_step p w h (Request now))"
  using assms by (simp add: record_request_def window_rel_def)

lemma window_retry:
  assumes "window_rel p w now rb h" "instant_min \<le> now - int w"
  shows "window_rel p w now (fst (budget_step rb (Retry now now'))) (fst (window_step p w h (Retry now now')))
       \<and> snd (budget_step rb (Retry now now')) = snd (window_step p w h (Retry now now'))"
proof -
  let ?rb = "rb\<lparr>rb_requests := filter (\<lambda>x. now - int w < x) (rb_requests rb),
                rb_retries := filter (\<lambda>x. now - int w < x) (rb_retries rb)\<rparr>"
  note pruned = window_rel_prune [OF assms(1)] and counts = window_rel_now [OF assms(1)]
  have sub: "instant_sub now (rb_window rb) = Val (now - int w)" and np: "\<not> rb_poisoned rb"
    and pc: "budget_percent rb = p"
    using assms by (simp_all add: window_rel_def)
  have push: "window_rel p w now (?rb\<lparr>rb_retries := rb_retries ?rb @ [now']\<rparr>)
      (h\<lparr>all_retries := all_retries h @ [now']\<rparr>)"
    using pruned by (simp add: window_rel_def)
  show ?thesis
    using pruned push by (simp add: allow_retry_def np sub pc Let_def counts
        del: length_0_conv length_greater_0_conv)
qed

lemma run_window:
  "window_rel p w t rb h \<Longrightarrow> clocked w t es \<Longrightarrow>
     snd (run budget_step rb es) = snd (run (window_step p w) h es)"
proof (induction es arbitrary: t rb h)
  case (Cons e es)
  show ?case
  proof (cases e)
    case (Request now)
    with Cons.prems have rel: "window_rel p w now rb h" and cl: "clocked w now es"
      by (auto intro: window_rel_later)
    from window_request [OF rel, of now] Cons.IH [OF _ cl] Request show ?thesis
      by (simp add: run_Cons_proj del: run.simps(2) budget_step.simps window_step.simps)
  next
    case (Retry now now')
    with Cons.prems have rel: "window_rel p w now rb h" and cl: "clocked w now' es"
      and rep: "instant_min \<le> now - int w" and le: "now \<le> now'"
      by (auto intro: window_rel_later)
    from window_retry [OF rel rep, of now'] window_rel_later [OF _ le] Cons.IH [OF _ cl] Retry
    show ?thesis
      by (simp add: run_Cons_proj del: run.simps(2) budget_step.simps window_step.simps)
  qed
qed simp

section \<open>The allowance\<close>

lemma round_div_100:
  assumes "m \<le> 2 ^ 46"
  shows "\<lceil>round_q (of_nat m / 100)\<rceil> = \<lceil>of_nat m / (100 :: rat)\<rceil>"
proof -
  let ?x = "of_nat m / 100 :: rat"
  define k where "k = \<lfloor>?x\<rfloor>"
  have k0: "0 \<le> k" by (simp add: k_def)
  have "(of_nat m :: rat) \<le> of_nat (2 ^ 46)" using assms by (simp only: of_nat_le_iff)
  then have "?x < 2 ^ 40 + 1" by simp
  then have "k \<le> 2 ^ 40" by (simp add: k_def floor_le_iff)
  have kx: "of_int k \<le> ?x" "?x < of_int k + 1"
    unfolding k_def using floor_correct [of ?x] by simp_all
  show ?thesis
  proof (cases "of_int k = ?x")
    case True
    have "round_q (of_int k) = of_int k" using k0 \<open>k \<le> 2 ^ 40\<close> by (intro f64_round.rnd_int) simp
    then show ?thesis by (simp only: True)
  next
    case False
    have "of_int (int m) - 100 * of_int k = (of_int (int m - 100 * k) :: rat)" by simp
    moreover have "0 < of_int (int m) - 100 * (of_int k :: rat)" using False kx(1) by simp
    ultimately have "0 < int m - 100 * k" by (simp only: of_int_0_less_iff)
    then have "1 \<le> int m - 100 * k" by simp
    then have "(of_int (100 * k + 1) :: rat) \<le> of_int (int m)" by (simp only: of_int_le_iff)
    then have "of_int k + 1 / 100 \<le> ?x" by simp
    moreover have seventh: "of_int (128 * k + 1) * 2 powi (-7) = (of_int k + 1 / 128 :: rat)"
      by (simp add: power_int_def power_divide add_divide_distrib)
    ultimately have low: "of_int (128 * k + 1) * 2 powi (-7) \<le> ?x" by linarith
    have "round_q (of_int (128 * k + 1) * 2 powi (-7)) = of_int (128 * k + 1) * 2 powi (-7)"
      using k0 \<open>k \<le> 2 ^ 40\<close> by (intro round_q_dyadic) simp_all
    then have "of_int (128 * k + 1) * 2 powi (-7) \<le> round_q ?x"
      using round_q_mono [OF low] by simp
    with seventh have lo: "of_int k < round_q ?x" by linarith
    have hi: "round_q ?x \<le> of_int (k + 1)"
      using kx(2) k0 \<open>k \<le> 2 ^ 40\<close> by (intro f64_round.rnd_le_int) simp_all
    have "\<lceil>round_q ?x\<rceil> = k + 1" "\<lceil>?x\<rceil> = k + 1"
      using lo hi kx False by (simp_all add: ceiling_eq_iff)
    then show ?thesis by simp
  qed
qed

lemma retry_allowance_exact:
  assumes "reqs * p \<le> 2 ^ 46" "reqs \<le> 2 ^ 53"
  shows "retry_allowance (Fin (of_nat p)) reqs = nat \<lceil>of_nat (reqs * p) / (100 :: rat)\<rceil>"
proof -
  let ?m = "reqs * p"
  have m53: "?m \<le> 2 ^ 53" using assms(1) by simp
  have mul: "f64_mul (f64_of_nat reqs) (Fin (of_nat p)) = Fin (of_nat ?m)"
    using f64_of_nat_exact [OF assms(2)] f64_of_nat_exact [OF m53] by (simp add: f64_of_nat_def)
  have mq: "(of_nat ?m :: rat) \<le> 2 ^ 46" using assms(1) by (metis of_nat_le_iff of_nat_numeral of_nat_power)
  then have small: "\<bar>of_nat ?m / (100 :: rat)\<bar> \<le> 2 ^ 53" by simp
  have "nat \<lceil>of_nat ?m / (100 :: rat)\<rceil> \<le> 2 ^ 64 - 1"
  proof -
    have "\<lceil>of_nat ?m / (100 :: rat)\<rceil> \<le> 2 ^ 46" using mq by (simp add: ceiling_le_iff del: of_nat_mult)
    then show ?thesis by (simp add: nat_le_iff del: of_nat_mult)
  qed
  then show ?thesis
    by (simp only: retry_allowance_def mul f64_div_lit.simps f64_of_rat_small [OF small] f64_ceil.simps
        f64_to_usize.simps floor_of_int round_div_100 [OF assms(1)])
qed

lemma retry_allowance_zero: "reqs \<le> 2 ^ 53 \<Longrightarrow> retry_allowance (Fin 0) reqs = 0"
  using retry_allowance_exact [of reqs 0] by simp

lemma below_ceiling: "r < nat \<lceil>of_nat m / (100 :: rat)\<rceil> \<longleftrightarrow> 100 * r < m"
proof -
  have "r < nat \<lceil>of_nat m / (100 :: rat)\<rceil> \<longleftrightarrow> of_nat r < (of_nat m / 100 :: rat)"
    by (simp add: zless_nat_eq_int_zless less_ceiling_iff)
  also have "\<dots> \<longleftrightarrow> (of_nat (100 * r) :: rat) < of_nat m" by (simp add: field_simps)
  finally show ?thesis by (simp only: of_nat_less_iff)
qed

section \<open>Properties\<close>

text \<open>Property C21. The retry budget is the sliding-window count: for any sequence of requests and
  retry questions read from one monotonic clock it answers as the specification that keeps the
  whole history; the pruning is invisible, and no operation panics.\<close>

theorem budget_refines_window:
  assumes "clocked (from_secs w) t es"
  shows "snd (run budget_step (retry_budget_new percent w) es)
       = snd (run (window_step percent (from_secs w)) \<lparr>all_requests = [], all_retries = []\<rparr> es)"
  by (rule run_window [OF _ assms]) (simp add: window_rel_def retry_budget_new_def)

theorem budget_refines_window_witness:
  "snd (run budget_step (retry_budget_new (Fin 20) 10)
          [Request 0, Retry 1 2, Retry 3 4, Request 10000000001, Retry 10000000003 10000000004])
   = snd (run (window_step (Fin 20) (from_secs 10)) \<lparr>all_requests = [], all_retries = []\<rparr>
          [Request 0, Retry 1 2, Retry 3 4, Request 10000000001, Retry 10000000003 10000000004])"
  by (rule budget_refines_window [where t = 0])
    (simp add: from_secs_def instant_min_def nanos_per_sec_def)

text \<open>Property C22. The floating-point allowance is exact for a whole percentage: with r recorded
  retries and n requests in the window (n times p at most 2^46) a retry is granted exactly when
  the window is empty or 100 r < n p; a grant is recorded only in the second case.\<close>

theorem retry_granted_iff:
  assumes "\<not> rb_poisoned rb" and "budget_percent rb = Fin (of_nat p)"
    and "instant_min \<le> now - int (rb_window rb)"
    and "in_window (rb_window rb) now (rb_requests rb) = n"
    and "in_window (rb_window rb) now (rb_retries rb) = r"
    and "n * p \<le> 2 ^ 46" and "n \<le> 2 ^ 53"
  shows "snd (allow_retry now now' rb) = Val (n = 0 \<or> 100 * r < n * p) \<and>
    length (rb_retries (fst (allow_retry now now' rb))) = (if 100 * r < n * p then Suc r else r)"
proof -
  have sub: "instant_sub now (rb_window rb) = Val (now - int (rb_window rb))" using assms(3) by simp
  show ?thesis
    using assms(1,2,4-) retry_allowance_exact [OF assms(6,7)] below_ceiling [of r "n * p"]
    by (simp add: allow_retry_def sub Let_def in_window_def del: of_nat_mult
        length_0_conv length_greater_0_conv)
qed

theorem retry_granted_iff_witness:
  "snd (allow_retry 90 91 \<lparr>rb_requests = [10, 60, 70], rb_retries = [], rb_poisoned = False,
       budget_percent = Fin 20, rb_window = 50\<rparr>) = Val True"
  using retry_granted_iff [where rb = "\<lparr>rb_requests = [10, 60, 70], rb_retries = [],
      rb_poisoned = False, budget_percent = Fin 20, rb_window = 50\<rparr>" and p = 20 and now = 90
      and now' = 91 and n = 2 and r = 0]
  by (simp add: instant_min_def nanos_per_sec_def in_window_def)




end
