(* ===== verification/Metrics.thy ===== *)
theory Metrics
  imports F64
begin

text \<open>
  metrics.rs. The counters and histograms are objects of the prometheus library; what the program
  does with them is to declare their labels, register them by name, and add samples. The model
  keeps the declarations, the registered names and the samples in the order they were added; the
  text format is the library's (\<open>encode\<close> below). Using a vector with a wrong number of label
  values panics, and so does registering a name twice, as the library documents.
\<close>

record metric_vec =
  vec_name :: string
  vec_help :: string
  vec_buckets :: "f64 list"
  vec_labels :: "string list"

datatype sample =
    Inc string "string list"
  | Observe string "string list" f64

record metrics =
  registry :: "string list"
  requests_total :: metric_vec
  request_duration_seconds :: metric_vec
  retries_total :: metric_vec
  errors_total :: metric_vec
  samples :: "sample list"

definition requests_total_vec :: metric_vec where
  "requests_total_vec =
     \<lparr>vec_name = ''proxy_requests_total'', vec_help = ''Total number of proxied requests'',
      vec_buckets = [], vec_labels = [''method'', ''route'', ''status'']\<rparr>"

definition request_duration_seconds_vec :: metric_vec where
  "request_duration_seconds_vec =
     \<lparr>vec_name = ''proxy_request_duration_seconds'', vec_help = ''Request latency in seconds'',
      vec_buckets = map f64_of_rat
        [5 / 1000, 10 / 1000, 25 / 1000, 50 / 1000, 100 / 1000, 250 / 1000, 500 / 1000, 1, 5 / 2, 5, 10],
      vec_labels = [''method'', ''route'']\<rparr>"

definition retries_total_vec :: metric_vec where
  "retries_total_vec =
     \<lparr>vec_name = ''proxy_retries_total'', vec_help = ''Total number of retry attempts'',
      vec_buckets = [], vec_labels = [''route'']\<rparr>"

definition errors_total_vec :: metric_vec where
  "errors_total_vec =
     \<lparr>vec_name = ''proxy_errors_total'', vec_help = ''Total number of upstream errors'',
      vec_buckets = [], vec_labels = [''route'', ''error_type'']\<rparr>"

definition register :: "metric_vec \<Rightarrow> string list \<Rightarrow> string list outcome" where
  "register v names =
     (if vec_name v \<in> set names then Panic Unwrap_Failed else Val (names @ [vec_name v]))"

definition metrics_new :: "metrics outcome" where
  "metrics_new =
     outcome_bind (register requests_total_vec []) (\<lambda>r.
     outcome_bind (register request_duration_seconds_vec r) (\<lambda>r.
     outcome_bind (register retries_total_vec r) (\<lambda>r.
     outcome_bind (register errors_total_vec r) (\<lambda>r.
       Val \<lparr>registry = r, requests_total = requests_total_vec,
            request_duration_seconds = request_duration_seconds_vec,
            retries_total = retries_total_vec, errors_total = errors_total_vec, samples = []\<rparr>))))"

text \<open>\<open>vec.with_label_values(labels).inc()\<close> and \<open>.observe(x)\<close>.\<close>

definition inc :: "(metrics \<Rightarrow> metric_vec) \<Rightarrow> string list \<Rightarrow> metrics \<Rightarrow> metrics \<times> unit outcome" where
  "inc vec labels m =
     (if length labels = length (vec_labels (vec m))
      then (m\<lparr>samples := samples m @ [Inc (vec_name (vec m)) labels]\<rparr>, Val ())
      else (m, Panic Unwrap_Failed))"

definition observe :: "(metrics \<Rightarrow> metric_vec) \<Rightarrow> string list \<Rightarrow> f64 \<Rightarrow> metrics \<Rightarrow> metrics \<times> unit outcome" where
  "observe vec labels x m =
     (if length labels = length (vec_labels (vec m))
      then (m\<lparr>samples := samples m @ [Observe (vec_name (vec m)) labels x]\<rparr>, Val ())
      else (m, Panic Unwrap_Failed))"

text \<open>\<open>encode\<close> is the library's text encoder on what the registry gathered.\<close>

definition render :: "(string list \<Rightarrow> sample list \<Rightarrow> string) \<Rightarrow> metrics \<Rightarrow> string" where
  "render encode m = encode (registry m) (samples m)"

lemmas metric_vecs = requests_total_vec_def request_duration_seconds_vec_def retries_total_vec_def
  errors_total_vec_def

text \<open>The declarations never change: they are those of \<open>Metrics::new\<close>.\<close>

definition metrics_ok :: "metrics \<Rightarrow> bool" where
  "metrics_ok m \<longleftrightarrow>
     requests_total m = requests_total_vec \<and>
     request_duration_seconds m = request_duration_seconds_vec \<and>
     retries_total m = retries_total_vec \<and> errors_total m = errors_total_vec"

lemma metrics_new_Val:
  "\<exists>m. metrics_new = Val m \<and> metrics_ok m \<and> samples m = [] \<and> distinct (registry m)"
  by (simp add: metrics_new_def register_def metrics_ok_def metric_vecs)

lemma metrics_ok_samples [simp]: "metrics_ok (m\<lparr>samples := ss\<rparr>) = metrics_ok m"
  by (simp add: metrics_ok_def)

lemma inc_ok:
  "metrics_ok m \<Longrightarrow> inc requests_total [a, b, c] m = (m\<lparr>samples := samples m @ [Inc ''proxy_requests_total'' [a, b, c]]\<rparr>, Val ())"
  "metrics_ok m \<Longrightarrow> inc retries_total [a] m = (m\<lparr>samples := samples m @ [Inc ''proxy_retries_total'' [a]]\<rparr>, Val ())"
  "metrics_ok m \<Longrightarrow> inc errors_total [a, b] m = (m\<lparr>samples := samples m @ [Inc ''proxy_errors_total'' [a, b]]\<rparr>, Val ())"
  by (simp_all add: inc_def metrics_ok_def metric_vecs)

lemma observe_ok:
  "metrics_ok m \<Longrightarrow> observe request_duration_seconds [a, b] x m
     = (m\<lparr>samples := samples m @ [Observe ''proxy_request_duration_seconds'' [a, b] x]\<rparr>, Val ())"
  by (simp add: observe_def metrics_ok_def metric_vecs)

end
