(* ===== verification/App_State.thy ===== *)
theory App_State
  imports Task Http Router Health Rate_Limiter Retry_Budget Metrics
begin

text \<open>
  state.rs: the state all requests share, and the interface of the tasks that work on it. The
  \<open>ArcSwap\<close> of the router holds a reference into \<open>router_heap\<close>, which keeps every table ever
  installed: a request that loaded a table goes on using it, and the counters of its balancers,
  after a reload. The configuration is never changed in place, so its \<open>ArcSwap\<close> holds the value.
  The lines the logging layer writes are part of the state.

  \<open>reading\<close> is what the environment hands to a step: the readings of the monotonic clock the step
  makes, random numbers, a fresh request id, the contents of a file, and the outcome of an await.
  \<open>question\<close> is what a task awaits. While the server runs (\<open>Serve\<close>) either its future ends, well
  or not, or the shutdown signal comes (\<open>serving = None\<close>); while it drains (\<open>Drain\<close>) its future ends.
\<close>

record client_settings =
  pool_idle_timeout :: duration
  pool_max_idle :: usize

record log_line =
  log_method :: string
  log_path :: string
  log_status :: nat
  log_duration_ms :: u64

record app_state =
  router_heap :: "router list"
  router_ref :: nat
  app_config :: config
  client :: client_settings
  health :: health_tracker
  budget :: retry_budget
  app_metrics :: metrics
  limiter :: rate_limiter
  request_log :: "log_line list"

datatype 'h reply = Responded "'h response" | Connect_Error | Timed_Out

datatype probe_reply = Probed nat | Probe_Error

datatype ('h, 'u) question =
    Read_Body string
  | Sleep duration
  | Send "('h, 'u) request" duration
  | Probe string duration
  | Hangup
  | Serve
  | Drain

record 'h reading =
  clk :: "nat \<Rightarrow> instant"
  random_upto :: "u64 \<Rightarrow> u64"
  fresh_uuid :: string
  body_read :: "string option"
  reply :: "'h reply"
  probe :: probe_reply
  config_file :: "string option"
  serving :: "bool option"
  draining :: bool

type_synonym ('h, 'u, 'a) app_task = "(app_state, ('h, 'u) question, 'h reading, 'a) task"

text \<open>What the libraries behind a reading promise: \<open>random_range(0..=n)\<close> stays in its range, a
  UUID is plain text.\<close>

definition reading_ok :: "'h reading \<Rightarrow> bool" where
  "reading_ok e \<longleftrightarrow> (\<forall>n. random_upto e n \<le> n) \<and> header_text (fresh_uuid e)"

section \<open>Access to the components\<close>

definition on_health ::
    "('h reading \<Rightarrow> health_tracker \<Rightarrow> health_tracker \<times> 'v) \<Rightarrow> 'h reading \<Rightarrow> app_state \<Rightarrow> app_state \<times> 'v" where
  "on_health f e s = (case f e (health s) of (h, v) \<Rightarrow> (s\<lparr>health := h\<rparr>, v))"

definition on_budget ::
    "('h reading \<Rightarrow> retry_budget \<Rightarrow> retry_budget \<times> 'v) \<Rightarrow> 'h reading \<Rightarrow> app_state \<Rightarrow> app_state \<times> 'v" where
  "on_budget f e s = (case f e (budget s) of (b, v) \<Rightarrow> (s\<lparr>budget := b\<rparr>, v))"

definition on_limiter ::
    "('h reading \<Rightarrow> rate_limiter \<Rightarrow> rate_limiter \<times> 'v) \<Rightarrow> 'h reading \<Rightarrow> app_state \<Rightarrow> app_state \<times> 'v" where
  "on_limiter f e s = (case f e (limiter s) of (l, v) \<Rightarrow> (s\<lparr>limiter := l\<rparr>, v))"

definition on_metrics ::
    "(metrics \<Rightarrow> metrics \<times> 'v) \<Rightarrow> 'h reading \<Rightarrow> app_state \<Rightarrow> app_state \<times> 'v" where
  "on_metrics f e s = (case f (app_metrics s) of (m, v) \<Rightarrow> (s\<lparr>app_metrics := m\<rparr>, v))"

text \<open>The balancer of route \<open>i\<close> of the table \<open>rid\<close>.\<close>

definition the_balancer :: "nat \<Rightarrow> nat \<Rightarrow> app_state \<Rightarrow> load_balancer" where
  "the_balancer rid i s = balancer (router_routes (router_heap s ! rid) ! i)"

definition set_balancer :: "nat \<Rightarrow> nat \<Rightarrow> load_balancer \<Rightarrow> app_state \<Rightarrow> app_state" where
  "set_balancer rid i b s =
     s\<lparr>router_heap := (router_heap s)[rid := (router_heap s ! rid)
        \<lparr>router_routes := (router_routes (router_heap s ! rid))
           [i := (router_routes (router_heap s ! rid) ! i)\<lparr>balancer := b\<rparr>]\<rparr>]\<rparr>"

definition on_balancer ::
    "nat \<Rightarrow> nat \<Rightarrow> (load_balancer \<Rightarrow> load_balancer \<times> 'v) \<Rightarrow> 'h reading \<Rightarrow> app_state \<Rightarrow> app_state \<times> 'v" where
  "on_balancer rid i f e s = (case f (the_balancer rid i s) of (b, v) \<Rightarrow> (set_balancer rid i b s, v))"

lemmas on_defs = on_health_def on_budget_def on_limiter_def on_metrics_def on_balancer_def

section \<open>What no access changes\<close>

lemma set_balancer_simps [simp]:
  "length (router_heap (set_balancer rid i b s)) = length (router_heap s)"
  "router_ref (set_balancer rid i b s) = router_ref s"
  "app_config (set_balancer rid i b s) = app_config s"
  "health (set_balancer rid i b s) = health s"
  "budget (set_balancer rid i b s) = budget s"
  "app_metrics (set_balancer rid i b s) = app_metrics s"
  "limiter (set_balancer rid i b s) = limiter s"
  "request_log (set_balancer rid i b s) = request_log s"
  by (simp_all add: set_balancer_def)

lemma the_balancer_set:
  assumes "rid < length (router_heap s)" and "i < length (router_routes (router_heap s ! rid))"
  shows "the_balancer rid i (set_balancer rid i b s) = b"
    and "(rid', i') \<noteq> (rid, i) \<Longrightarrow> the_balancer rid' i' (set_balancer rid i b s) = the_balancer rid' i' s"
  using assms by (auto simp: the_balancer_def set_balancer_def nth_list_update)

lemma the_balancer_frame [simp]:
  "the_balancer rid i (s\<lparr>health := h\<rparr>) = the_balancer rid i s"
  "the_balancer rid i (s\<lparr>budget := bu\<rparr>) = the_balancer rid i s"
  "the_balancer rid i (s\<lparr>app_metrics := m\<rparr>) = the_balancer rid i s"
  "the_balancer rid i (s\<lparr>limiter := l\<rparr>) = the_balancer rid i s"
  "the_balancer rid i (s\<lparr>request_log := w\<rparr>) = the_balancer rid i s"
  "the_balancer rid i (s\<lparr>app_config := c\<rparr>) = the_balancer rid i s"
  by (simp_all add: the_balancer_def)

lemma on_frames [simp]:
  "app_metrics (fst (on_health f e s)) = app_metrics s"
  "app_metrics (fst (on_budget g e s)) = app_metrics s"
  "app_metrics (fst (on_limiter h e s)) = app_metrics s"
  "app_metrics (fst (on_balancer rid i k e s)) = app_metrics s"
  "request_log (fst (on_health f e s)) = request_log s"
  "request_log (fst (on_budget g e s)) = request_log s"
  "request_log (fst (on_limiter h e s)) = request_log s"
  "request_log (fst (on_balancer rid i k e s)) = request_log s"
  "request_log (fst (on_metrics l e s)) = request_log s"
  "the_balancer rid' i' (fst (on_health f e s)) = the_balancer rid' i' s"
  "the_balancer rid' i' (fst (on_budget g e s)) = the_balancer rid' i' s"
  "the_balancer rid' i' (fst (on_limiter h e s)) = the_balancer rid' i' s"
  "the_balancer rid' i' (fst (on_metrics n e s)) = the_balancer rid' i' s"
  "router_heap (fst (on_health f e s)) = router_heap s"
  "router_heap (fst (on_budget g e s)) = router_heap s"
  "router_heap (fst (on_limiter h e s)) = router_heap s"
  "router_heap (fst (on_metrics n e s)) = router_heap s"
  by (simp_all add: on_defs case_prod_beta)

lemma snd_on_balancer [simp]: "snd (on_balancer t r f e s) = snd (f (the_balancer t r s))"
  by (simp add: on_balancer_def case_prod_beta)

lemma the_balancer_other:
  "(rid', i') \<noteq> (rid, i) \<Longrightarrow> the_balancer rid' i' (set_balancer rid i b s) = the_balancer rid' i' s"
  by (cases "rid < length (router_heap s)"; cases "i < length (router_routes (router_heap s ! rid))";
      cases "rid' = rid")
    (auto simp: the_balancer_def set_balancer_def nth_list_update list_update_beyond)

end
