(* ===== verification/Proxy.thy ===== *)
theory Proxy
  imports App_State
begin

text \<open>
  proxy.rs: one request through the proxy. \<open>normalize_headers\<close> and \<open>forward_once\<close> send the request
  to one upstream, \<open>attempts\<close> is the loop over the upstreams with its retries, \<open>proxy_request\<close> the
  handler around it. The log lines of the handler are left out.
\<close>

section \<open>Headers\<close>

definition HOP_BY_HOP_HEADERS :: "string list" where
  "HOP_BY_HOP_HEADERS =
     [''connection'', ''keep-alive'', ''proxy-authenticate'', ''proxy-authorization'', ''te'',
      ''trailer'', ''transfer-encoding'', ''upgrade'']"

definition strip_hop_by_hop_headers :: "('h, 'v, 'u) http \<Rightarrow> 'h \<Rightarrow> 'h" where
  "strip_hop_by_hop_headers L h = fold (\<lambda>name h. hdr_remove L h name) HOP_BY_HOP_HEADERS h"

definition some_or_panic :: "'v option \<Rightarrow> 'v outcome" where
  "some_or_panic v = (case v of None \<Rightarrow> Panic Unwrap_Failed | Some v \<Rightarrow> Val v)"

definition add_forwarded_for :: "('h, 'v, 'u) http \<Rightarrow> ip_addr option \<Rightarrow> 'h \<Rightarrow> 'h outcome" where
  "add_forwarded_for L client_ip h =
     (case client_ip of
        None \<Rightarrow> Val h
      | Some ip \<Rightarrow>
          let forwarded_for =
            (case hdr_get L h ''x-forwarded-for'' of
               Some existing \<Rightarrow>
                 (case value_to_str L existing of Some s \<Rightarrow> s | None \<Rightarrow> []) @ '', '' @ ip_to_string ip
             | None \<Rightarrow> ip_to_string ip)
          in outcome_bind (some_or_panic (value_from_str L forwarded_for))
               (\<lambda>v. Val (hdr_insert L h ''x-forwarded-for'' v)))"

definition normalize_headers ::
    "('h, 'v, 'u) http \<Rightarrow> string \<Rightarrow> ip_addr option \<Rightarrow> 'h \<Rightarrow> 'h outcome" where
  "normalize_headers L request_id client_ip h =
     (let original_host = Option.bind (hdr_get L h ''host'') (value_to_str L) in
      outcome_bind (some_or_panic (value_from_str L request_id)) (\<lambda>id_value.
      let h = hdr_insert L h ''x-request-id'' id_value in
      outcome_bind (add_forwarded_for L client_ip h) (\<lambda>h.
      let h = hdr_insert L h ''x-forwarded-proto'' (value_from_static L ''http'');
          h = (case original_host of
                 None \<Rightarrow> h
               | Some host \<Rightarrow>
                   (case value_from_str L host of
                      None \<Rightarrow> h
                    | Some val \<Rightarrow> hdr_insert L h ''x-forwarded-host'' val))
      in Val (strip_hop_by_hop_headers L h))))"

section \<open>One upstream\<close>

definition forward_once ::
    "('h, 'v, 'u) http \<Rightarrow> ('h, 'u) request \<Rightarrow> string \<Rightarrow> string \<Rightarrow> string \<Rightarrow> ip_addr option \<Rightarrow> duration \<Rightarrow>
     ('h, 'u, proxy_error + 'h response) app_task" where
  "forward_once L req upstream final_path request_id client_ip request_timeout =
     (case uri_parse L (upstream @ final_path) of
        None \<Rightarrow> Return (Inl UpstreamFailure)
      | Some parsed \<Rightarrow>
          unwrap (normalize_headers L request_id client_ip (req_headers req)) (\<lambda>h.
          await (Send (req\<lparr>req_uri := parsed, req_headers := h\<rparr>) request_timeout) reply (\<lambda>r.
            case r of
              Responded resp \<Rightarrow>
                Return (Inr (resp\<lparr>resp_headers := strip_hop_by_hop_headers L (resp_headers resp)\<rparr>))
            | Connect_Error \<Rightarrow> Return (Inl UpstreamFailure)
            | Timed_Out \<Rightarrow> Return (Inl UpstreamTimeout))))"

section \<open>Paths\<close>

definition strip_prefix :: "string \<Rightarrow> string \<Rightarrow> string option" where
  "strip_prefix s p = (if starts_with s p then Some (drop (length p) s) else None)"

definition final_path_of :: "string option \<Rightarrow> string \<Rightarrow> string" where
  "final_path_of path_and_query route_pre =
     (let original_path = (case path_and_query of Some s \<Rightarrow> s | None \<Rightarrow> ''/'');
          stripped_path = (case strip_prefix original_path route_pre of Some s \<Rightarrow> s | None \<Rightarrow> original_path)
      in if stripped_path = [] then ''/'' else stripped_path)"

section \<open>The retry loop\<close>

text \<open>What the loop has in scope.\<close>

record 'h call_ctx =
  cx_start :: instant
  cx_method :: string
  cx_request_id :: string
  cx_client_ip :: "ip_addr option"
  cx_headers :: 'h
  cx_body :: string
  cx_table :: nat
  cx_route :: nat
  cx_prefix :: string
  cx_upstreams :: "string list"
  cx_final_path :: string
  cx_timeout :: duration
  cx_start_index :: nat
  cx_any_healthy :: bool
  cx_max_attempts :: usize
  cx_backoff_ms :: u64

text \<open>\<open>1 << k\<close> on \<open>u64\<close>: checked in the debug profile, the shift masked in the release profile.\<close>

definition shl_one :: "profile \<Rightarrow> nat \<Rightarrow> u64 outcome" where
  "shl_one bp k =
     (if k < 64 then Val (push_bit k 1)
      else case bp of Debug \<Rightarrow> Panic Arith_Overflow | Release \<Rightarrow> Val (push_bit (k mod 64) 1))"

definition backoff_delay :: "profile \<Rightarrow> u64 \<Rightarrow> nat \<Rightarrow> (u64 \<Rightarrow> u64) \<Rightarrow> u64 outcome" where
  "backoff_delay bp backoff_base_ms attempts_made random_range =
     outcome_bind (shl_one bp (attempts_made - 1)) (\<lambda>factor.
     let exp_delay = saturating_mul backoff_base_ms factor;
         jitter = random_range (exp_delay div 2)
     in add_word bp exp_delay jitter)"

definition fail_status :: "proxy_error \<Rightarrow> string" where
  "fail_status error = (case error of UpstreamTimeout \<Rightarrow> ''504'' | _ \<Rightarrow> ''502'')"

definition finish ::
    "'h call_ctx \<Rightarrow> proxy_error option \<Rightarrow> ('h, 'u, proxy_error + 'h response) app_task" where
  "finish cx last_error =
     given (\<lambda>e. as_secs_f64 (duration_since (clk e 0) (cx_start cx))) (\<lambda>elapsed.
     let error = (case last_error of None \<Rightarrow> UpstreamFailure | Some e \<Rightarrow> e);
         status = fail_status error in
     call (on_metrics (inc requests_total [cx_method cx, cx_prefix cx, status])) (\<lambda>_.
     call (on_metrics (observe request_duration_seconds [cx_method cx, cx_prefix cx] elapsed)) (\<lambda>_.
       Return (Inl error))))"

text \<open>The success path of the loop's body: the answer goes to the client.\<close>

definition succeed ::
    "'h call_ctx \<Rightarrow> string \<Rightarrow> 'h response \<Rightarrow> ('h, 'u, proxy_error + 'h response) app_task" where
  "succeed cx selected resp =
     call (on_health (\<lambda>e h. record_success h selected)) (\<lambda>_.
     given (\<lambda>e. as_secs_f64 (duration_since (clk e 0) (cx_start cx))) (\<lambda>elapsed.
     call (on_metrics (inc requests_total [cx_method cx, cx_prefix cx, decimal (status resp)])) (\<lambda>_.
     call (on_metrics (observe request_duration_seconds [cx_method cx, cx_prefix cx] elapsed)) (\<lambda>_.
       Return (Inr resp)))))"

text \<open>The failure paths: the tracker and the error counter, then on with the loop.\<close>

definition failed ::
    "profile \<Rightarrow> 'h call_ctx \<Rightarrow> string \<Rightarrow> string \<Rightarrow> ('h, 'u, 'a) app_task \<Rightarrow> ('h, 'u, 'a) app_task" where
  "failed bp cx selected error_type continue_loop =
     call (on_health (\<lambda>e h. record_failure bp (clk e 0) h selected)) (\<lambda>_.
     call (on_metrics (inc errors_total [cx_prefix cx, error_type])) (\<lambda>_. continue_loop))"

text \<open>Skipping an unhealthy upstream, unless all were unhealthy.\<close>

definition skip_check :: "'h call_ctx \<Rightarrow> string \<Rightarrow> (bool \<Rightarrow> ('h, 'u, 'a) app_task) \<Rightarrow> ('h, 'u, 'a) app_task" where
  "skip_check cx selected k =
     (if cx_any_healthy cx
      then call (on_health (\<lambda>e h. is_healthy (clk e 0) h selected)) (\<lambda>healthy. k (\<not> healthy))
      else k False)"

text \<open>The budget and the backoff before a retry; the first attempt has neither.\<close>

definition before_attempt ::
    "profile \<Rightarrow> 'h call_ctx \<Rightarrow> nat \<Rightarrow> ('h, 'u, 'a) app_task \<Rightarrow> ('h, 'u, 'a) app_task \<Rightarrow> ('h, 'u, 'a) app_task" where
  "before_attempt bp cx attempts_made break_loop go =
     (if attempts_made = 0 then go
      else call (on_budget (\<lambda>e. allow_retry (clk e 0) (clk e 1))) (\<lambda>allowed.
        if \<not> allowed then break_loop
        else call (on_metrics (inc retries_total [cx_prefix cx])) (\<lambda>_.
          given random_upto (\<lambda>random_range.
          unwrap (backoff_delay bp (cx_backoff_ms cx) attempts_made random_range) (\<lambda>total_delay.
          await (Sleep (from_millis total_delay)) (\<lambda>_. ()) (\<lambda>_. go))))))"

text \<open>The placeholder request with the client's method, headers and body.\<close>

definition new_request :: "('h, 'v, 'u) http \<Rightarrow> 'h call_ctx \<Rightarrow> ('h, 'u) request outcome" where
  "new_request L cx =
     outcome_bind (some_or_panic (uri_parse L ''/'')) (\<lambda>u.
       Val \<lparr>req_method = cx_method cx, req_uri = u, req_headers = cx_headers cx,
            req_body = cx_body cx, remote_addr = None\<rparr>)"

fun attempts ::
    "profile \<Rightarrow> ('h, 'v, 'u) http \<Rightarrow> 'h call_ctx \<Rightarrow> nat list \<Rightarrow> nat \<Rightarrow> proxy_error option \<Rightarrow>
     ('h, 'u, proxy_error + 'h response) app_task" where
  "attempts bp L cx [] attempts_made last_error = finish cx last_error"
| "attempts bp L cx (offset # offsets) attempts_made last_error =
     (if unat (cx_max_attempts cx) \<le> attempts_made then finish cx last_error
      else
        unwrap (rem_nat (cx_start_index cx + offset) (length (cx_upstreams cx))) (\<lambda>i.
        unwrap (index (cx_upstreams cx) i) (\<lambda>selected.
        skip_check cx selected (\<lambda>skip.
        if skip then attempts bp L cx offsets attempts_made last_error
        else
          before_attempt bp cx attempts_made (finish cx last_error)
          (unwrap (new_request L cx) (\<lambda>new_req.
           call (on_balancer (cx_table cx) (cx_route cx) (\<lambda>b. (lb_record_start b i, Val ()))) (\<lambda>_.
           bind (forward_once L new_req selected (cx_final_path cx) (cx_request_id cx)
                   (cx_client_ip cx) (cx_timeout cx)) (\<lambda>result.
           call (on_balancer (cx_table cx) (cx_route cx) (\<lambda>b. (lb_record_done b i, Val ()))) (\<lambda>_.
           case result of
             Inr resp \<Rightarrow>
               if is_server_error (status resp)
               then failed bp cx selected ''5xx''
                      (attempts bp L cx offsets (Suc attempts_made) (Some UpstreamFailure))
               else succeed cx selected resp
           | Inl UpstreamFailure \<Rightarrow>
               failed bp cx selected ''connection''
                 (attempts bp L cx offsets (Suc attempts_made) (Some UpstreamFailure))
           | Inl UpstreamTimeout \<Rightarrow>
               failed bp cx selected ''timeout''
                 (attempts bp L cx offsets (Suc attempts_made) (Some UpstreamTimeout))
           | Inl e \<Rightarrow> Return (Inl e))))))))))"

section \<open>The handler\<close>

text \<open>\<open>upstreams.iter().any(is_healthy)\<close>: one lock section per upstream, up to the first healthy one.\<close>

fun any_healthy :: "string list \<Rightarrow> (bool \<Rightarrow> ('h, 'u, 'a) app_task) \<Rightarrow> ('h, 'u, 'a) app_task" where
  "any_healthy [] k = k False"
| "any_healthy (u # us) k =
     call (on_health (\<lambda>e h. is_healthy (clk e 0) h u)) (\<lambda>healthy.
       if healthy then k True else any_healthy us k)"

definition not_found_response :: "('h, 'v, 'u) http \<Rightarrow> 'h response" where
  "not_found_response L =
     \<lparr>status = 404, resp_headers = no_headers L, resp_body = ''No matching route''\<rparr>"

definition proxy_request ::
    "profile \<Rightarrow> ('h, 'v, 'u) http \<Rightarrow> ('h, 'u) request \<Rightarrow>
     ('h, 'u, proxy_error + 'h response) app_task" where
  "proxy_request bp L req =
     given (\<lambda>e. clk e 0) (\<lambda>start.
     let path = uri_path L (req_uri req) in
     given fresh_uuid (\<lambda>request_id.
     load app_config (\<lambda>cfg.
     load (\<lambda>s. (router_ref s, router_heap s ! router_ref s)) (\<lambda>(table, router).
     case match_route router path of
       None \<Rightarrow>
         call (on_metrics (inc requests_total [req_method req, ''unmatched'', ''404''])) (\<lambda>_.
           Return (Inr (not_found_response L)))
     | Some r \<Rightarrow>
         let route = router_routes router ! r;
             upstream_count = length (upstreams route) in
         await (Read_Body (req_body req)) body_read (\<lambda>whole_body.
         case whole_body of
           None \<Rightarrow> Return (Inl UpstreamFailure)
         | Some whole_body \<Rightarrow>
             call (on_balancer table r (\<lambda>b. lb_next_index_for_key b upstream_count path)) (\<lambda>start_index.
             any_healthy (upstreams route) (\<lambda>any.
             unwrap (add_word bp (max_retries (server cfg)) 1) (\<lambda>max_attempts.
             call (on_budget (\<lambda>e. record_request (clk e 0))) (\<lambda>_.
             attempts bp L
               \<lparr>cx_start = start, cx_method = req_method req, cx_request_id = request_id,
                cx_client_ip = remote_addr req, cx_headers = req_headers req, cx_body = whole_body,
                cx_table = table, cx_route = r, cx_prefix = route_prefix route,
                cx_upstreams = upstreams route,
                cx_final_path = final_path_of (uri_path_and_query L (req_uri req)) (route_prefix route),
                cx_timeout = from_secs (request_timeout_secs (server cfg)),
                cx_start_index = start_index, cx_any_healthy = any, cx_max_attempts = max_attempts,
                cx_backoff_ms = retry_backoff_ms (server cfg)\<rparr>
               [0..<upstream_count] 0 None)))))))))"

end
