(* ===== verification/Proxy_Runs.thy ===== *)
theory Proxy_Runs
  imports Proxy
begin

text \<open>
  What a request asks of the outside and what it returns, under any interference: which upstreams
  it contacts and how often, the headers it sends them, the delays between the attempts, and the
  results it can have.
\<close>

section \<open>The loop's pieces under a monitor of the questions\<close>

lemma skip_check_asks:
  assumes "\<And>b. wp (ask_monitor ok sh delta) (k b) Q m"
  shows "wp (ask_monitor ok sh delta) (skip_check cx u k) Q m"
  using assms by (simp add: skip_check_def wp_ask_ops)

lemma any_healthy_asks:
  assumes "\<And>b. wp (ask_monitor ok sh delta) (k b) Q m"
  shows "wp (ask_monitor ok sh delta) (any_healthy us k) Q m"
  by (induction us) (auto simp: wp_ask_ops assms)

section \<open>Answers\<close>

definition stripped :: "('h, 'v, 'u) http \<Rightarrow> 'h \<Rightarrow> bool" where
  "stripped L h \<longleftrightarrow> (\<forall>name \<in> set HOP_BY_HOP_HEADERS. hdr_get L h name = None)"

fun good_result :: "('h, 'v, 'u) http \<Rightarrow> proxy_error + 'h response \<Rightarrow> bool" where
  "good_result L (Inl e) = (e = UpstreamFailure \<or> e = UpstreamTimeout)"
| "good_result L (Inr resp) = (\<not> is_server_error (status resp) \<and> stripped L (resp_headers resp))"

lemma get_strip_hop_by_hop:
  assumes "http_laws L"
  shows "hdr_get L (strip_hop_by_hop_headers L h) n
       = (if n \<in> set HOP_BY_HOP_HEADERS then None else hdr_get L h n)"
proof -
  have "hdr_get L (fold (\<lambda>name h. hdr_remove L h name) ns h) n
       = (if n \<in> set ns then None else hdr_get L h n)" for ns
    by (induction ns arbitrary: h) (simp_all add: http_get [OF assms])
  then show ?thesis by (simp add: strip_hop_by_hop_headers_def)
qed

lemma finish_answers:
  "le \<in> {None, Some UpstreamFailure, Some UpstreamTimeout} \<Longrightarrow>
   wp (ask_monitor ok sh delta) (finish cx le) (\<lambda>m r. good_result L r) m"
  by (auto simp: finish_def wp_ask_ops Let_def)

lemma attempts_answers:
  assumes "http_laws L"
  shows "le \<in> {None, Some UpstreamFailure, Some UpstreamTimeout} \<Longrightarrow>
   wp (ask_monitor ok sh (\<lambda>m q. Some m)) (attempts bp L cx offsets made le) (\<lambda>m r. good_result L r) m"
proof (induction offsets arbitrary: made le)
  case Nil
  then show ?case by (simp add: finish_answers)
next
  case (Cons offset offsets)
  note IH = Cons.IH [of "Some UpstreamFailure"] Cons.IH [of "Some UpstreamTimeout"] Cons.IH [OF Cons.prems]
  show ?case
    using IH
    by (auto intro!: skip_check_asks finish_answers [OF Cons.prems] simp: wp_ask_ops wp_bind
      before_attempt_def forward_once_def failed_def succeed_def Let_def stripped_def
      get_strip_hop_by_hop [OF assms] split: reply.splits option.splits)
qed

lemma proxy_request_answers:
  assumes "http_laws L"
  shows "wp (ask_monitor ok sh (\<lambda>m q. Some m)) (proxy_request bp L req) (\<lambda>m r. good_result L r) m"
  unfolding proxy_request_def
  by (auto simp: wp_ask_ops Let_def not_found_response_def is_server_error_def stripped_def
      http_get [OF assms] intro!: any_healthy_asks attempts_answers [OF assms] split: option.splits)

section \<open>Which upstreams are asked\<close>

primrec sent :: "('h, 'u) question list \<Rightarrow> ('h, 'u) request list" where
  "sent [] = []"
| "sent (q # qs) = (case q of Send r d \<Rightarrow> r # sent qs | _ \<Rightarrow> sent qs)"

fun next_send :: "'u option list \<times> nat \<Rightarrow> ('h, 'u) question \<Rightarrow> ('u option list \<times> nat) option" where
  "next_send (ts, n) (Send r d) =
     (case (dropWhile (\<lambda>t. t \<noteq> Some (req_uri r)) ts, n) of
        (t # ts', Suc n') \<Rightarrow> Some (ts', n') | _ \<Rightarrow> None)"
| "next_send m q = Some m"

lemma dropWhile_subseq:
  "subseq (x # xs) ts \<Longrightarrow> \<exists>ts'. dropWhile (\<lambda>t. t \<noteq> x) ts = x # ts' \<and> subseq xs ts'"
  by (induction ts) (auto simp: subseq_Cons2_iff)

lemma subseq_dropWhile: "dropWhile P ts = t # ts' \<Longrightarrow> subseq xs ts' \<Longrightarrow> subseq (t # xs) ts"
  by (induction ts) (auto split: if_splits dest: subseq_Cons')

lemma accepts_next_send:
  "accepts next_send (ts, n) qs = Some m \<Longrightarrow>
     subseq (map (\<lambda>r. Some (req_uri r)) (sent qs)) ts \<and> length (sent qs) \<le> n"
proof (induction qs arbitrary: ts n)
  case (Cons q qs)
  show ?case
  proof (cases q)
    case (Send r d)
    with Cons.prems obtain t ts' n' where d: "dropWhile (\<lambda>t. t \<noteq> Some (req_uri r)) ts = t # ts'"
      and n: "n = Suc n'" and acc: "accepts next_send (ts', n') qs = Some m"
      by (auto split: list.splits nat.splits)
    have "t = Some (req_uri r)" using hd_dropWhile [of "\<lambda>t. t \<noteq> Some (req_uri r)" ts] d by simp
    with Cons.IH [OF acc] subseq_dropWhile [OF d] n Send show ?thesis by simp
  qed (use Cons in auto)
qed simp

text \<open>The URI of the upstream at an offset of the loop.\<close>

definition target :: "('h, 'v, 'u) http \<Rightarrow> string list \<Rightarrow> nat \<Rightarrow> string \<Rightarrow> nat \<Rightarrow> 'u option" where
  "target L us start path offset = uri_parse L (us ! ((start + offset) mod length us) @ path)"

lemma attempts_sends:
  "subseq (map (target L (cx_upstreams cx) (cx_start_index cx) (cx_final_path cx)) offsets) ts \<Longrightarrow>
   unat (cx_max_attempts cx) \<le> made + n \<Longrightarrow>
   wp (ask_monitor ok sh next_send) (attempts bp L cx offsets made le) (\<lambda>m r. True) (ts, n)"
proof (induction offsets arbitrary: made le ts n)
  case Nil
  then show ?case by (simp add: finish_def wp_ask_ops Let_def)
next
  case (Cons offset offsets)
  let ?t = "target L (cx_upstreams cx) (cx_start_index cx) (cx_final_path cx)"
  obtain ts' where ts': "dropWhile (\<lambda>t. t \<noteq> ?t offset) ts = ?t offset # ts'" "subseq (map ?t offsets) ts'"
    using dropWhile_subseq [of "?t offset" "map ?t offsets" ts] Cons.prems(1) by auto
  have stay: "subseq (map ?t offsets) ts" using Cons.prems(1) by (auto intro: subseq_Cons')
  have skip: "wp (ask_monitor ok sh next_send) (attempts bp L cx offsets made le) (\<lambda>m r. True) (ts, n)" for le
    by (rule Cons.IH [OF stay Cons.prems(2)])
  have pass: "wp (ask_monitor ok sh next_send) (attempts bp L cx offsets (Suc made) le) (\<lambda>m r. True) (ts, n)" for le
    using Cons.IH [OF stay] Cons.prems(2) by simp
  have go: "n = Suc n' \<Longrightarrow> wp (ask_monitor ok sh next_send) (attempts bp L cx offsets (Suc made) le) (\<lambda>m r. True) (ts', n')" for n' le
    using Cons.IH [OF ts'(2)] Cons.prems(2) by simp
  have tgt: "?t offset = uri_parse L (cx_upstreams cx ! ((cx_start_index cx + offset) mod length (cx_upstreams cx)) @ cx_final_path cx)"
    by (simp add: target_def)
  show ?case
    using ts'(1) skip pass go Cons.prems(2) unfolding tgt
    by (cases n) (auto intro!: skip_check_asks simp: wp_ask_ops wp_bind finish_def
      before_attempt_def forward_once_def failed_def succeed_def Let_def
      split: reply.splits option.splits)
qed


text \<open>The URIs of the whole rotation a request may try, for a route table and a start.\<close>

definition rotation :: "('h, 'v, 'u) http \<Rightarrow> ('h, 'u) request \<Rightarrow> router \<Rightarrow> nat \<Rightarrow> 'u option list" where
  "rotation L req table start =
     (case match_route table (uri_path L (req_uri req)) of
        None \<Rightarrow> []
      | Some r \<Rightarrow>
          let route = router_routes table ! r in
          map (target L (upstreams route) start
                 (final_path_of (uri_path_and_query L (req_uri req)) (route_prefix route)))
            [0..<length (upstreams route)])"

lemma max_attempts_le: "add_word bp (a :: usize) 1 = Val v \<Longrightarrow> unat v \<le> Suc (unat a)"
proof -
  assume "add_word bp a 1 = Val v"
  then have "v = a + 1" by (auto simp: add_word_def split: if_splits profile.splits)
  then show ?thesis by (simp add: unat_word_ariths)
qed

text \<open>The plans a request may follow, for the states it may find: the rotation through the route a
  table gives it, and the number of attempts a configuration gives it.\<close>

definition plans :: "('h, 'v, 'u) http \<Rightarrow> ('h, 'u) request \<Rightarrow> app_state set \<Rightarrow> ('u option list \<times> nat) set" where
  "plans L req S =
     insert ([], 0)
       {(rotation L req (router_heap s' ! router_ref s') start,
         Suc (unat (max_retries (server (app_config s))))) | s s' start. s \<in> S \<and> s' \<in> S}"

lemma proxy_request_sends:
  "wp (ask_monitor ok (\<lambda>s. s \<in> S) (some_of next_send)) (proxy_request bp L req) (\<lambda>m r. True) (plans L req S)"
proof -
  have stay: "some_of next_send (plans L req S) (Read_Body b) = Some (plans L req S)" for b
    by (rule some_of_same) (auto simp: plans_def)
  let ?M = "ask_monitor ok (\<lambda>s. s \<in> S)"
  have loop: "wp (?M (some_of next_send)) (attempts bp L cx [0..<length (cx_upstreams cx)] 0 None)
      (\<lambda>m r. True) (plans L req S)"
    if "s \<in> S" "s' \<in> S"
      and "map (target L (cx_upstreams cx) (cx_start_index cx) (cx_final_path cx)) [0..<length (cx_upstreams cx)]
         = rotation L req (router_heap s' ! router_ref s') (cx_start_index cx)"
      and "unat (cx_max_attempts cx) \<le> Suc (unat (max_retries (server (app_config s))))"
    for cx s s'
    by (rule wp_some_of [OF attempts_sends [where n = "Suc (unat (max_retries (server (app_config s))))"]])
      (use that in \<open>auto simp: plans_def\<close>)
  show ?thesis
    unfolding proxy_request_def
    by (auto simp: wp_ask_ops Let_def stay split: option.splits intro!: any_healthy_asks
        loop [of _ _ "call_ctx.make _ _ _ _ _ _ _ _ _ _ _ _ _ _ _ _", simplified call_ctx.defs call_ctx.simps]
        simp: rotation_def dest: max_attempts_le)
qed

lemma accepts_plans:
  assumes "accepts (some_of next_send) (plans L req S) qs = Some P"
  shows "sent qs = [] \<or>
    (\<exists>s \<in> S. \<exists>s' \<in> S. \<exists>start.
       subseq (map (\<lambda>r. Some (req_uri r)) (sent qs)) (rotation L req (router_heap s' ! router_ref s') start) \<and>
       length (sent qs) \<le> Suc (unat (max_retries (server (app_config s)))))"
proof -
  have "plans L req S \<noteq> {}" by (simp add: plans_def)
  from accepts_some_of [OF assms this] obtain x x'
    where "x \<in> plans L req S" "accepts next_send x qs = Some x'" by blast
  then show ?thesis by (auto simp: plans_def dest!: accepts_next_send)
qed

lemma set_sent: "r \<in> set (sent qs) \<Longrightarrow> \<exists>d. Send r d \<in> set qs"
  by (induction qs) (auto split: question.splits)

section \<open>Headers\<close>

definition prior_forwarded_for :: "('h, 'v, 'u) http \<Rightarrow> 'h \<Rightarrow> string" where
  "prior_forwarded_for L h =
     (case hdr_get L h ''x-forwarded-for'' of
        None \<Rightarrow> []
      | Some v \<Rightarrow> (case value_to_str L v of Some s \<Rightarrow> s | None \<Rightarrow> []) @ '', '')"

definition forwarded :: "('h, 'v, 'u) http \<Rightarrow> 'h \<Rightarrow> ip_addr option \<Rightarrow> 'h \<Rightarrow> bool" where
  "forwarded L h client_ip h' \<longleftrightarrow>
     stripped L h' \<and>
     (\<exists>v. hdr_get L h' ''x-request-id'' = Some v \<and> value_to_str L v \<noteq> None) \<and>
     Option.bind (hdr_get L h' ''x-forwarded-proto'') (value_to_str L) = Some ''http'' \<and>
     (case client_ip of
        None \<Rightarrow> hdr_get L h' ''x-forwarded-for'' = hdr_get L h ''x-forwarded-for''
      | Some ip \<Rightarrow> Option.bind (hdr_get L h' ''x-forwarded-for'') (value_to_str L)
                     = Some (prior_forwarded_for L h @ ip_to_string ip)) \<and>
     (case Option.bind (hdr_get L h ''host'') (value_to_str L) of
        None \<Rightarrow> hdr_get L h' ''x-forwarded-host'' = hdr_get L h ''x-forwarded-host''
      | Some host \<Rightarrow> Option.bind (hdr_get L h' ''x-forwarded-host'') (value_to_str L) = Some host) \<and>
     (\<forall>n. n \<notin> set HOP_BY_HOP_HEADERS \<union>
          {''x-request-id'', ''x-forwarded-for'', ''x-forwarded-proto'', ''x-forwarded-host''} \<longrightarrow>
        hdr_get L h' n = hdr_get L h n)"

lemma prior_header_text:
  "http_laws L \<Longrightarrow> header_text (prior_forwarded_for L h)"
  by (auto simp: prior_forwarded_for_def header_text_def dest: http_to_str split: option.splits)

lemma add_forwarded_for_ok:
  assumes L: "http_laws L"
  shows "\<exists>h'. add_forwarded_for L client_ip h = Val h' \<and>
     (\<forall>n. n \<noteq> ''x-forwarded-for'' \<longrightarrow> hdr_get L h' n = hdr_get L h n) \<and>
     (case client_ip of
        None \<Rightarrow> hdr_get L h' ''x-forwarded-for'' = hdr_get L h ''x-forwarded-for''
      | Some ip \<Rightarrow> Option.bind (hdr_get L h' ''x-forwarded-for'') (value_to_str L)
                     = Some (prior_forwarded_for L h @ ip_to_string ip))"
proof (cases client_ip)
  case None
  then show ?thesis by (simp add: add_forwarded_for_def)
next
  case (Some ip)
  have "header_text (prior_forwarded_for L h @ ip_to_string ip)"
    using prior_header_text [OF L] by simp
  from http_from_str [OF L this] obtain v
    where v: "value_from_str L (prior_forwarded_for L h @ ip_to_string ip) = Some v"
      "value_to_str L v = Some (prior_forwarded_for L h @ ip_to_string ip)" by blast
  have "add_forwarded_for L client_ip h = Val (hdr_insert L h ''x-forwarded-for'' v)"
    using v(1) Some
    by (cases "hdr_get L h ''x-forwarded-for''")
      (auto simp: add_forwarded_for_def prior_forwarded_for_def some_or_panic_def split: option.splits)
  then show ?thesis using v(2) Some by (simp add: http_get [OF L])
qed

lemma normalize_forwards:
  assumes L: "http_laws L" and id: "header_text request_id"
  shows "\<exists>h'. normalize_headers L request_id client_ip h = Val h' \<and> forwarded L h client_ip h'"
proof -
  note get = http_get [OF L] get_strip_hop_by_hop [OF L]
  obtain iv where iv: "value_from_str L request_id = Some iv" "value_to_str L iv = Some request_id"
    using http_from_str [OF L id] by blast
  have "header_text ''http''" by (simp add: header_text_def)
  note proto = http_static [OF L this]
  let ?h1 = "hdr_insert L h ''x-request-id'' iv"
  obtain h2 where h2: "add_forwarded_for L client_ip ?h1 = Val h2"
    "\<forall>n. n \<noteq> ''x-forwarded-for'' \<longrightarrow> hdr_get L h2 n = hdr_get L ?h1 n"
    "case client_ip of
        None \<Rightarrow> hdr_get L h2 ''x-forwarded-for'' = hdr_get L ?h1 ''x-forwarded-for''
      | Some ip \<Rightarrow> Option.bind (hdr_get L h2 ''x-forwarded-for'') (value_to_str L)
                     = Some (prior_forwarded_for L ?h1 @ ip_to_string ip)"
    using add_forwarded_for_ok [OF L] by blast
  have prior: "prior_forwarded_for L ?h1 = prior_forwarded_for L h"
    by (simp add: prior_forwarded_for_def get)
  have hop: "''x-request-id'' \<notin> set HOP_BY_HOP_HEADERS" "''x-forwarded-for'' \<notin> set HOP_BY_HOP_HEADERS"
    "''x-forwarded-proto'' \<notin> set HOP_BY_HOP_HEADERS" "''x-forwarded-host'' \<notin> set HOP_BY_HOP_HEADERS"
    by (simp_all add: HOP_BY_HOP_HEADERS_def)
  show ?thesis
  proof (cases "Option.bind (hdr_get L h ''host'') (value_to_str L)")
    case None
    then show ?thesis
      using h2 iv prior proto
      by (cases client_ip)
        (auto simp: normalize_headers_def some_or_panic_def forwarded_def stripped_def get hop Let_def)
  next
    case (Some host)
    then have "header_text host" using http_to_str [OF L] by (auto simp: bind_eq_Some_conv)
    from http_from_str [OF L this] obtain hv
      where "value_from_str L host = Some hv" "value_to_str L hv = Some host" by blast
    with Some show ?thesis
      using h2 iv prior proto
      by (cases client_ip)
        (auto simp: normalize_headers_def some_or_panic_def forwarded_def stripped_def get hop Let_def)
  qed
qed

fun forwards :: "('h, 'v, 'u) http \<Rightarrow> ('h, 'u) request \<Rightarrow> ('h, 'u) question \<Rightarrow> bool" where
  "forwards L req (Send r d) =
     (req_method r = req_method req \<and> forwarded L (req_headers req) (remote_addr req) (req_headers r))"
| "forwards L req q = True"

lemma attempts_forward:
  assumes L: "http_laws L" and id: "header_text (cx_request_id cx)"
    and cx: "cx_method cx = req_method req" "cx_headers cx = req_headers req" "cx_client_ip cx = remote_addr req"
  shows "wp (ask_monitor ok sh (every (forwards L req))) (attempts bp L cx offsets made le) (\<lambda>m r. True) m"
proof (induction offsets arbitrary: made le)
  case Nil
  then show ?case by (simp add: finish_def wp_ask_ops Let_def)
next
  case (Cons offset offsets)
  obtain h' where h': "normalize_headers L (cx_request_id cx) (remote_addr req) (req_headers req) = Val h'"
    "forwarded L (req_headers req) (remote_addr req) h'"
    using normalize_forwards [OF L id] by blast
  show ?case
    using Cons.IH h'
    by (auto intro!: skip_check_asks simp: wp_ask_ops wp_bind finish_def every_def new_request_def cx
      before_attempt_def forward_once_def failed_def succeed_def Let_def
      split: reply.splits option.splits)
qed

lemma proxy_request_forwards:
  assumes "http_laws L"
  shows "wp (ask_monitor reading_ok sh (every (forwards L req))) (proxy_request bp L req) (\<lambda>m r. True) m"
  unfolding proxy_request_def
  by (auto simp: wp_ask_ops Let_def every_def reading_ok_def split: option.splits
      intro!: any_healthy_asks attempts_forward [OF assms])

lemma accepts_forwards:
  assumes "accepts (every (forwards L req)) m qs = Some m'" and "r \<in> set (sent qs)"
  shows "req_method r = req_method req \<and> forwarded L (req_headers req) (remote_addr req) (req_headers r)"
  using accepts_every [OF assms(1)] set_sent [OF assms(2)] by (fastforce simp: list_all_iff)

section \<open>Backoff\<close>

text \<open>The delay before the retry that follows \<open>k\<close> others: \<open>base * 2 ^ k\<close> saturated, and at most
  half as much of jitter, where the sum fits.\<close>

definition delay_ok :: "u64 \<Rightarrow> nat \<Rightarrow> duration \<Rightarrow> bool" where
  "delay_ok base k d =
     (let exp_delay = min (unat base * 2 ^ (k mod 64)) (2 ^ 64 - 1) in
      if exp_delay + exp_delay div 2 < 2 ^ 64
      then exp_delay * 1000000 \<le> d \<and> d \<le> (exp_delay + exp_delay div 2) * 1000000
      else True)"

text \<open>No two sends without a delay between them; \<open>k\<close> counts the delays.\<close>

fun paced :: "u64 \<Rightarrow> nat \<times> bool \<Rightarrow> ('h, 'u) question \<Rightarrow> (nat \<times> bool) option" where
  "paced base (k, used) (Send r d) = (if used then None else Some (k, True))"
| "paced base (k, used) (Sleep d) = (if delay_ok base k d then Some (Suc k, False) else None)"
| "paced base m q = Some m"

lemma backoff_delay_ok:
  assumes "backoff_delay bp base (Suc k) rnd = Val d" and "\<forall>n. rnd n \<le> n"
  shows "delay_ok base k (from_millis d)"
proof -
  obtain f where f: "shl_one bp k = Val f" using assms(1) by (auto simp: backoff_delay_def)
  have uf: "unat f = 2 ^ (k mod 64)"
  proof -
    have "f = push_bit (k mod 64) 1" using f by (auto simp: shl_one_def split: if_splits profile.splits)
    moreover have "(2 :: nat) ^ (k mod 64) < 2 ^ 64" by (rule power_strict_increasing) simp_all
    moreover have "unat (push_bit n (1 :: u64)) = take_bit 64 (2 ^ n)" for n
      by (simp only: unsigned_push_bit_eq) (simp add: push_bit_eq_mult)
    ultimately show ?thesis by (simp only: take_bit_nat_eq_self)
  qed
  let ?e = "saturating_mul base f"
  have ue: "unat ?e = min (unat base * 2 ^ (k mod 64)) (2 ^ 64 - 1)"
    by (simp add: unat_saturating_mul uf)
  have j: "unat (rnd (?e div 2)) \<le> unat ?e div 2"
    using assms(2) [rule_format, of "?e div 2"] by (simp add: word_le_nat_alt unat_div_distrib)
  show ?thesis
  proof (cases "unat ?e + unat ?e div 2 < 2 ^ 64")
    case True
    then have fits: "unat ?e + unat (rnd (?e div 2)) < 2 ^ LENGTH(64)" using j by simp
    then have "d = ?e + rnd (?e div 2)"
      using assms(1) f by (simp add: backoff_delay_def Let_def add_word_fits)
    then have "unat d = unat ?e + unat (rnd (?e div 2))" using unat_add_fits [OF fits] by simp
    with True j show ?thesis
      unfolding delay_ok_def ue [symmetric] Let_def from_millis_def by simp
  next
    case False
    then show ?thesis unfolding delay_ok_def ue [symmetric] Let_def by simp
  qed
qed

lemma reading_ok_random [dest]: "reading_ok e \<Longrightarrow> \<forall>n. random_upto e n \<le> n"
  by (simp add: reading_ok_def)

lemma attempts_paced:
  "made = 0 \<and> used = False \<and> k = 0 \<or> made = Suc k \<Longrightarrow>
   wp (ask_monitor reading_ok sh (paced (cx_backoff_ms cx))) (attempts bp L cx offsets made le) (\<lambda>m r. True) (k, used)"
proof (induction offsets arbitrary: made le k used)
  case Nil
  then show ?case by (simp add: finish_def wp_ask_ops Let_def)
next
  case (Cons offset offsets)
  have again: "made = 0 \<and> k = 0 \<or> made = k \<Longrightarrow>
      wp (ask_monitor reading_ok sh (paced (cx_backoff_ms cx))) (attempts bp L cx offsets (Suc made) le) (\<lambda>m r. True) (k, used)"
    for le k used by (rule Cons.IH) auto
  have skip: "wp (ask_monitor reading_ok sh (paced (cx_backoff_ms cx))) (attempts bp L cx offsets made le) (\<lambda>m r. True) (k, used)"
    by (rule Cons.IH [OF Cons.prems])
  have gap: "backoff_delay bp (cx_backoff_ms cx) (Suc k) (random_upto e) = Val d \<Longrightarrow>
      reading_ok e \<Longrightarrow> delay_ok (cx_backoff_ms cx) k (from_millis d)" for e d
    by (auto intro: backoff_delay_ok)
  note simps = wp_ask_ops wp_bind finish_def before_attempt_def forward_once_def failed_def succeed_def Let_def
    ex_bool_eq
  from Cons.prems consider "made = 0" "used = False" "k = 0" | "made = Suc k" by auto
  then show ?case
  proof cases
    case 1
    then show ?thesis using again skip
      by (auto intro!: skip_check_asks simp: simps split: reply.splits option.splits)
  next
    case 2
    then show ?thesis using again skip
      by (auto intro!: skip_check_asks intro: gap simp: simps split: reply.splits option.splits)
  qed
qed

lemma proxy_request_paced:
  assumes "\<And>s. sh s \<Longrightarrow> retry_backoff_ms (server (app_config s)) = base"
  shows "wp (ask_monitor reading_ok sh (paced base)) (proxy_request bp L req) (\<lambda>m r. True) (0, False)"
proof -
  have loop: "wp (ask_monitor reading_ok sh (paced base)) (attempts bp L cx offsets 0 None) (\<lambda>m r. True) (0, False)"
    if "cx_backoff_ms cx = base" for cx :: "'a call_ctx" and offsets
    using attempts_paced [of 0 False 0] that by auto
  show ?thesis
    unfolding proxy_request_def
    by (auto simp: wp_ask_ops Let_def assms split: option.splits intro!: any_healthy_asks loop)
qed

end
