(* ===== verification/Proxy_Accounts.thy ===== *)
theory Proxy_Accounts
  imports Proxy_Runs
begin

text \<open>
  What a request leaves behind in the shared state, under any interference: the samples it adds to
  the metrics, and its changes to the counters of active requests of the least-connections
  balancers.
\<close>

text \<open>
  An account follows one quantity of the shared state through the effects of a task. The interface
  asks that an access to anything but the route tables, the metrics and the log leaves it alone; the
  pieces of the program that make only such accesses are then transparent to it. Where the log does
  not count either, so is the logging layer.
\<close>

locale account =
  fixes ok :: "'h reading \<Rightarrow> bool" and ex :: bool and sh :: "app_state \<Rightarrow> bool"
    and acc :: "'m \<Rightarrow> app_state \<Rightarrow> app_state \<Rightarrow> 'm option" and A R :: "'m \<Rightarrow> bool"
  assumes quiet: "sh s \<Longrightarrow> router_heap s' = router_heap s \<Longrightarrow> app_metrics s' = app_metrics s \<Longrightarrow>
    request_log s' = request_log s \<Longrightarrow> acc m s s' = Some m"
begin

lemma skip_check_wp:
  assumes "\<And>b. wp (effect_monitor ok ex sh acc A R) (k b) Q m" and "R m"
  shows "wp (effect_monitor ok ex sh acc A R) (skip_check cx u k) Q m"
  using assms by (simp add: skip_check_def wp_effect_ops quiet)

lemma any_healthy_wp:
  assumes "\<And>b. wp (effect_monitor ok ex sh acc A R) (k b) Q m" and "R m"
  shows "wp (effect_monitor ok ex sh acc A R) (any_healthy us k) Q m"
  by (induction us) (auto simp: wp_effect_ops quiet assms)

end

locale unlogged_account = account +
  assumes unlogged: "sh s \<Longrightarrow> acc m s (s\<lparr>request_log := l\<rparr>) = Some m"

section \<open>Samples\<close>

definition new_samples :: "sample list \<Rightarrow> app_state \<Rightarrow> app_state \<Rightarrow> sample list option" where
  "new_samples m s s' = Some (m @ drop (length (samples (app_metrics s))) (samples (app_metrics s')))"

lemma new_samples_same [simp]: "app_metrics s' = app_metrics s \<Longrightarrow> new_samples m s s' = Some m"
  by (simp add: new_samples_def)

lemma metric_step [simp]:
  assumes "metrics_ok (app_metrics s)"
  shows "snd (on_metrics (inc requests_total [a, b, c]) e s) = Val ()"
    and "snd (on_metrics (inc retries_total [a]) e s) = Val ()"
    and "snd (on_metrics (inc errors_total [a, b]) e s) = Val ()"
    and "snd (on_metrics (observe request_duration_seconds [a, b] x) e s) = Val ()"
    and "new_samples m s (fst (on_metrics (inc requests_total [a, b, c]) e s)) = Some (m @ [Inc ''proxy_requests_total'' [a, b, c]])"
    and "new_samples m s (fst (on_metrics (inc retries_total [a]) e s)) = Some (m @ [Inc ''proxy_retries_total'' [a]])"
    and "new_samples m s (fst (on_metrics (inc errors_total [a, b]) e s)) = Some (m @ [Inc ''proxy_errors_total'' [a, b]])"
    and "new_samples m s (fst (on_metrics (observe request_duration_seconds [a, b] x) e s))
       = Some (m @ [Observe ''proxy_request_duration_seconds'' [a, b] x])"
  using assms by (simp_all add: on_metrics_def inc_ok observe_ok new_samples_def)

fun counts_request :: "sample \<Rightarrow> bool" where
  "counts_request (Inc name labels) = (name = ''proxy_requests_total'')"
| "counts_request (Observe name labels x) = False"

text \<open>The status the client is answered with.\<close>

fun answer_status :: "proxy_error + 'h response \<Rightarrow> nat" where
  "answer_status (Inl e) = status (into_response () e)"
| "answer_status (Inr resp) = status resp"

lemma status_into_response: "status (into_response nh e) = status (into_response () e)"
  by (cases e) simp_all

lemma decimal_codes: "decimal 502 = ''502''" "decimal 504 = ''504''" "decimal 404 = ''404''"
  by (simp_all add: decimal.simps char_of_def bit_Suc_0_iff)

lemma fail_status_label:
  "e = UpstreamFailure \<or> e = UpstreamTimeout \<Longrightarrow> fail_status e = decimal (status (into_response () e))"
  by (auto simp: fail_status_def status_codes decimal_codes)

text \<open>A task that is counted is not suspended any more.\<close>

definition uncounted :: "sample list \<Rightarrow> bool" where
  "uncounted m \<longleftrightarrow> filter counts_request m = []"

lemma uncounted_simps [simp]:
  "uncounted []" "uncounted (m @ m') \<longleftrightarrow> uncounted m \<and> uncounted m'"
  "uncounted (x # m) \<longleftrightarrow> \<not> counts_request x \<and> uncounted m"
  by (auto simp: uncounted_def)

lemma uncountedD [simp]: "uncounted m \<Longrightarrow> filter counts_request m = []"
  by (simp add: uncounted_def)

abbreviation sample_monitor where
  "sample_monitor ok \<equiv>
     effect_monitor ok True (\<lambda>s. metrics_ok (app_metrics s)) new_samples uncounted (\<lambda>m. True)"

interpretation samples: unlogged_account ok True "\<lambda>s. metrics_ok (app_metrics s)" new_samples uncounted "\<lambda>m. True" for ok
  by unfold_locales simp_all

definition counted_as :: "string \<Rightarrow> string \<Rightarrow> sample list \<Rightarrow> proxy_error + 'h response \<Rightarrow> bool" where
  "counted_as meth pre m r \<longleftrightarrow>
     filter counts_request m = [Inc ''proxy_requests_total'' [meth, pre, decimal (answer_status r)]]"

lemma finish_counted:
  "uncounted m \<Longrightarrow> le \<in> {None, Some UpstreamFailure, Some UpstreamTimeout} \<Longrightarrow>
   wp (sample_monitor ok) (finish cx le) (counted_as (cx_method cx) (cx_prefix cx)) m"
  by (auto simp: finish_def wp_effect_ops Let_def counted_as_def fail_status_label)

lemma success_counted:
  "counted_as meth pre m (Inr resp) \<longleftrightarrow>
     filter counts_request m = [Inc ''proxy_requests_total'' [meth, pre, decimal (status resp)]]"
  by (simp add: counted_as_def)

lemma attempts_counted:
  "uncounted m \<Longrightarrow> le \<in> {None, Some UpstreamFailure, Some UpstreamTimeout} \<Longrightarrow>
   wp (sample_monitor ok) (attempts bp L cx offsets made le) (counted_as (cx_method cx) (cx_prefix cx)) m"
proof (induction offsets arbitrary: made le m)
  case Nil
  then show ?case by (simp add: finish_counted)
next
  case (Cons offset offsets)
  note IH = Cons.IH [OF _ Cons.prems(2)] Cons.IH [of _ "Some UpstreamFailure", simplified]
    Cons.IH [of _ "Some UpstreamTimeout", simplified]
  show ?case
    using IH Cons.prems(1)
    by (auto intro!: samples.skip_check_wp finish_counted [OF _ Cons.prems(2)] simp: wp_effect_ops wp_bind success_counted
      before_attempt_def forward_once_def failed_def succeed_def Let_def
      split: reply.splits option.splits)
qed


definition body_arrives :: "'h reading \<Rightarrow> bool" where
  "body_arrives e \<longleftrightarrow> body_read e \<noteq> None"

lemma body_arrives_Some [simp]: "body_arrives e \<Longrightarrow> body_read e \<noteq> None"
  by (simp add: body_arrives_def)

text \<open>The samples a task added in a run.\<close>

definition added_samples :: "(app_state, 'q, 'e, 'a) task \<Rightarrow> (app_state \<times> 'e choice) list \<Rightarrow> sample list" where
  "added_samples t w = the (effects new_samples [] (fst (follow t w)))"

lemma proxy_request_counted:
  "wp (sample_monitor body_arrives) (proxy_request bp L req) (\<lambda>m r. \<exists>pre. counted_as (req_method req) pre m r) []"
proof -
  let ?M = "sample_monitor body_arrives"
  let ?Q = "\<lambda>m r. \<exists>pre. counted_as (req_method req) pre m r"
  have loop: "wp ?M (attempts bp L cx offsets 0 None) ?Q []" if "cx_method cx = req_method req" for cx offsets
    by (rule wp_mono [OF attempts_counted]) (auto simp: that)
  have unmatched: "?Q [Inc ''proxy_requests_total'' [req_method req, ''unmatched'', ''404'']]
      (Inr (not_found_response L))"
    by (simp add: counted_as_def not_found_response_def decimal_codes)
  show ?thesis
    unfolding proxy_request_def
    by (auto simp: wp_effect_ops Let_def unmatched split: option.splits
        intro!: samples.any_healthy_wp loop)
qed

section \<open>Requests in flight\<close>

text \<open>The counter \<open>j\<close> of a balancer, zero where there is none.\<close>

definition slot :: "nat \<Rightarrow> load_balancer \<Rightarrow> usize" where
  "slot j b = (case b of LC lc \<Rightarrow> if j < length (active lc) then active lc ! j else 0 | _ \<Rightarrow> 0)"

definition active_at :: "nat \<Rightarrow> nat \<Rightarrow> nat \<Rightarrow> app_state \<Rightarrow> usize" where
  "active_at rid i j s = slot j (the_balancer rid i s)"

definition lc_size :: "load_balancer \<Rightarrow> nat option" where
  "lc_size b = (case b of LC lc \<Rightarrow> Some (length (active lc)) | _ \<Rightarrow> None)"

text \<open>The table \<open>rid\<close> is in the heap, has \<open>n\<close> routes, and the balancer of route \<open>i\<close> keeps \<open>k\<close>
  counters (\<open>None\<close> for a strategy that counts nothing).\<close>

definition has_table :: "nat \<Rightarrow> nat \<Rightarrow> nat \<Rightarrow> nat option \<Rightarrow> app_state \<Rightarrow> bool" where
  "has_table rid n i k s \<longleftrightarrow>
     rid < length (router_heap s) \<and> length (router_routes (router_heap s ! rid)) = n \<and>
     lc_size (the_balancer rid i s) = k"

abbreviation in_flight_change where
  "in_flight_change rid n i k j \<equiv> balance (has_table rid n i k) (active_at rid i j)"

lemma in_flight_same [simp]:
  "has_table rid n i k s \<Longrightarrow> router_heap s' = router_heap s \<Longrightarrow> in_flight_change rid n i k j m s s' = Some m"
  by (simp add: balance_def has_table_def active_at_def the_balancer_def)

lemma the_balancer_on:
  assumes "has_table rid n i k s" and "t = rid \<longrightarrow> r < n"
  shows "the_balancer rid i (fst (on_balancer t r f e s))
       = (if (rid, i) = (t, r) then fst (f (the_balancer rid i s)) else the_balancer rid i s)"
  using assms
  by (auto simp: on_balancer_def case_prod_beta the_balancer_other has_table_def the_balancer_set)

definition counted_slot :: "nat option \<Rightarrow> nat \<Rightarrow> bool" where
  "counted_slot k j \<longleftrightarrow> (case k of None \<Rightarrow> False | Some l \<Rightarrow> j < l)"

lemma has_table_on:
  assumes "has_table rid n i k s" and "t = rid \<longrightarrow> r < n"
    and "\<And>b. lc_size (fst (f b)) = lc_size b"
  shows "has_table rid n i k (fst (on_balancer t r f e s))"
proof -
  have "length (router_routes (router_heap (set_balancer t r b s) ! rid)) = length (router_routes (router_heap s ! rid))" for b
    by (cases "t < length (router_heap s)"; cases "t = rid") (simp_all add: set_balancer_def list_update_beyond)
  then have "length (router_routes (router_heap (fst (on_balancer t r f e s)) ! rid)) = n"
    "length (router_heap (fst (on_balancer t r f e s))) = length (router_heap s)"
    using assms(1) by (simp_all add: has_table_def on_balancer_def case_prod_beta)
  moreover have "lc_size (the_balancer rid i (fst (on_balancer t r f e s))) = lc_size (the_balancer rid i s)"
    unfolding the_balancer_on [OF assms(1,2)] by (simp add: assms(3))
  ultimately show ?thesis using assms(1) by (simp add: has_table_def)
qed

lemma lc_size_ops:
  "lc_size (fst (lb_next_index_for_key b sz key)) = lc_size b"
  "lc_size (lb_record_start b u) = lc_size b" "lc_size (lb_record_done b u) = lc_size b"
  by (cases b; simp add: lc_size_def split: prod.splits)+

lemma in_flight_op:
  assumes "has_table rid n i k s" and "t = rid \<longrightarrow> r < n"
    and "\<And>b. lc_size (fst (f b)) = lc_size b"
  shows "in_flight_change rid n i k j m s (fst (on_balancer t r f e s))
       = Some (m + (if (rid, i) = (t, r)
                    then slot j (fst (f (the_balancer rid i s))) - slot j (the_balancer rid i s) else 0))"
  using has_table_on [OF assms, of e]
  by (auto simp: balance_def active_at_def the_balancer_on [OF assms(1,2)])

lemma slot_ops:
  "slot j (fst (lb_next_index_for_key b sz key)) = slot j b"
  "slot j (lb_record_start b u) - slot j b = (if u = j \<and> counted_slot (lc_size b) j then 1 else 0)"
  "slot j (lb_record_done b u) - slot j b = - (if u = j \<and> counted_slot (lc_size b) j then 1 else 0)"
  by (cases b; auto simp: slot_def lc_size_def counted_slot_def lc_record_start_def lc_record_done_def
      split: prod.splits)+

lemma in_flight_on:
  assumes "has_table rid n i k s" and "t = rid \<longrightarrow> r < n"
  shows "in_flight_change rid n i k j m s (fst (on_balancer t r (\<lambda>b. lb_next_index_for_key b sz key) e s)) = Some m"
    and "in_flight_change rid n i k j m s (fst (on_balancer t r (\<lambda>b. (lb_record_start b u, Val ())) e s))
       = Some (m + (if t = rid \<and> r = i \<and> u = j \<and> counted_slot k j then 1 else 0))"
    and "in_flight_change rid n i k j m s (fst (on_balancer t r (\<lambda>b. (lb_record_done b u, Val ())) e s))
       = Some (m - (if t = rid \<and> r = i \<and> u = j \<and> counted_slot k j then 1 else 0))"
proof -
  have k: "lc_size (the_balancer rid i s) = k" using assms(1) by (simp add: has_table_def)
  show "in_flight_change rid n i k j m s (fst (on_balancer t r (\<lambda>b. lb_next_index_for_key b sz key) e s)) = Some m"
    by (simp add: in_flight_op [OF assms] lc_size_ops slot_ops)
  show "in_flight_change rid n i k j m s (fst (on_balancer t r (\<lambda>b. (lb_record_start b u, Val ())) e s))
       = Some (m + (if t = rid \<and> r = i \<and> u = j \<and> counted_slot k j then 1 else 0))"
    using k by (auto simp: in_flight_op [OF assms] lc_size_ops slot_ops)
  show "in_flight_change rid n i k j m s (fst (on_balancer t r (\<lambda>b. (lb_record_done b u, Val ())) e s))
       = Some (m - (if t = rid \<and> r = i \<and> u = j \<and> counted_slot k j then 1 else 0))"
    using k by (auto simp: in_flight_op [OF assms] lc_size_ops slot_ops)
qed

abbreviation flight_monitor where
  "flight_monitor rid n i k j \<equiv> balance_monitor reading_ok (has_table rid n i k) (active_at rid i j)"

interpretation flight: unlogged_account reading_ok False "has_table rid n i k"
    "in_flight_change rid n i k j" "\<lambda>m. True" "\<lambda>m. m = 0"
  for rid n i k j by unfold_locales simp_all

lemma attempts_flight:
  assumes "http_laws L" and "header_text (cx_request_id cx)" and "cx_table cx = rid \<longrightarrow> cx_route cx < n"
  shows "wp (flight_monitor rid n i k j) (attempts bp L cx offsets made le) (\<lambda>m r. m = 0) 0"
proof (induction offsets arbitrary: made le)
  case Nil
  then show ?case by (simp add: finish_def wp_effect_ops Let_def)
next
  case (Cons offset offsets)
  have norm: "normalize_headers L (cx_request_id cx) ip h \<noteq> Panic p" for ip h p
    using normalize_forwards [OF assms(1,2), of ip h] by auto
  show ?case
    using Cons
    by (auto intro!: flight.skip_check_wp simp: norm wp_effect_ops wp_bind finish_def in_flight_on assms(3)
      before_attempt_def forward_once_def failed_def succeed_def Let_def
      split: reply.splits option.splits)
qed


lemma proxy_request_flight:
  assumes "http_laws L"
  shows "wp (flight_monitor rid n i k j) (proxy_request bp L req) (\<lambda>m r. m = 0) 0"
proof -
  have loop: "wp (flight_monitor rid n i k j) (attempts bp L cx offsets 0 None) (\<lambda>m r. m = 0) 0"
    if "header_text (cx_request_id cx)" "cx_table cx = rid \<longrightarrow> cx_route cx < n" for cx offsets
    by (rule attempts_flight [OF assms that])
  have route: "router_ref s = rid \<longrightarrow> r < n"
    if "match_route (router_heap s ! router_ref s) path = Some r" "has_table rid n i k s" for s r path
    using that(2) match_route_SomeD(1) [OF that(1)] by (auto simp: has_table_def matches_def)
  have uuid: "reading_ok e \<Longrightarrow> header_text (fresh_uuid e)" for e :: "'a reading"
    by (simp add: reading_ok_def)
  show ?thesis
    unfolding proxy_request_def
    by (auto simp: wp_effect_ops Let_def uuid in_flight_on split: option.splits
        intro!: flight.any_healthy_wp loop dest!: route)
qed


end
