(* ===== verification/Middleware.thy ===== *)
theory Middleware
  imports Proxy_Accounts
begin

text \<open>
  middleware.rs: the services around the handler, and the stack server.rs builds of them for every
  connection. A service is a function from requests to tasks.
\<close>

section \<open>Model\<close>

type_synonym ('h, 'u) service = "('h, 'u) request \<Rightarrow> ('h, 'u, 'h response) app_task"

definition proxy_service :: "profile \<Rightarrow> ('h, 'v, 'u) http \<Rightarrow> ('h, 'u) service" where
  "proxy_service bp L req =
     bind (proxy_request bp L req) (\<lambda>r.
       case r of Inr resp \<Rightarrow> Return resp | Inl e \<Rightarrow> Return (into_response (no_headers L) e))"

definition logging_layer :: "('h, 'v, 'u) http \<Rightarrow> ('h, 'u) service \<Rightarrow> ('h, 'u) service" where
  "logging_layer L inner req =
     (let meth = req_method req; path = uri_path L (req_uri req) in
      given (\<lambda>e. clk e 0) (\<lambda>start.
      bind (inner req) (\<lambda>resp.
      given (\<lambda>e. duration_since (clk e 0) start) (\<lambda>elapsed.
      update (\<lambda>s. s\<lparr>request_log := request_log s @
          [\<lparr>log_method = meth, log_path = path, log_status = status resp,
            log_duration_ms = of_nat (elapsed div 1000000)\<rparr>]\<rparr>)
        (Return resp)))))"

definition timeout_response :: "('h, 'v, 'u) http \<Rightarrow> 'h response" where
  "timeout_response L =
     \<lparr>status = GATEWAY_TIMEOUT, resp_headers = no_headers L, resp_body = ''Request timed out''\<rparr>"

definition request_timeout_layer ::
    "('h, 'v, 'u) http \<Rightarrow> duration \<Rightarrow> ('h, 'u) service \<Rightarrow> ('h, 'u) service" where
  "request_timeout_layer L timeout_duration inner req =
     bind (timeout timeout_duration (inner req)) (\<lambda>r.
       case r of Some resp \<Rightarrow> Return resp | None \<Rightarrow> Return (timeout_response L))"

definition inject_addr_service :: "ip_addr \<Rightarrow> ('h, 'u) service \<Rightarrow> ('h, 'u) service" where
  "inject_addr_service remote_ip inner req = inner (req\<lparr>remote_addr := Some remote_ip\<rparr>)"

text \<open>\<open>RateLimiter::check\<close> as its accesses: the counter, the sweep and the bucket are three.\<close>

definition take_token :: "ip_addr \<Rightarrow> (bool \<Rightarrow> ('h, 'u, 'a) app_task) \<Rightarrow> ('h, 'u, 'a) app_task" where
  "take_token ip k = call (on_limiter (\<lambda>e l. acquire_for (clk e 0) (clk e 1) l ip)) k"

definition rate_check :: "ip_addr \<Rightarrow> (bool \<Rightarrow> ('h, 'u, 'a) app_task) \<Rightarrow> ('h, 'u, 'a) app_task" where
  "rate_check ip k =
     load (\<lambda>s. enabled (limiter s)) (\<lambda>en.
     if \<not> en then k True
     else
       call (on_limiter (\<lambda>e l. (l\<lparr>cleanup_counter := cleanup_counter l + 1\<rparr>, Val (cleanup_counter l)))) (\<lambda>count.
       if unat count mod 1000 = 0
       then call (on_limiter (\<lambda>e. cleanup (clk e 0))) (\<lambda>_. take_token ip k)
       else take_token ip k))"

definition too_many_requests :: "('h, 'v, 'u) http \<Rightarrow> 'h response" where
  "too_many_requests L =
     \<lparr>status = TOO_MANY_REQUESTS,
      resp_headers = hdr_insert L (no_headers L) ''retry-after'' (value_from_static L ''1''),
      resp_body = ''Rate limit exceeded''\<rparr>"

definition rate_limit_layer :: "('h, 'v, 'u) http \<Rightarrow> ('h, 'u) service \<Rightarrow> ('h, 'u) service" where
  "rate_limit_layer L inner req =
     (case remote_addr req of
        None \<Rightarrow> inner req
      | Some ip \<Rightarrow>
          rate_check ip (\<lambda>admitted. if \<not> admitted then Return (too_many_requests L) else inner req))"

definition service_stack ::
    "profile \<Rightarrow> ('h, 'v, 'u) http \<Rightarrow> duration \<Rightarrow> ip_addr \<Rightarrow> ('h, 'u) service" where
  "service_stack bp L overall_timeout remote_ip =
     inject_addr_service remote_ip
       (logging_layer L
         (rate_limit_layer L
           (request_timeout_layer L overall_timeout (proxy_service bp L))))"

section \<open>The layers under a monitor of the questions\<close>

lemma rate_check_asks:
  assumes "\<And>b. wp (ask_monitor ok sh delta) (k b) Q m"
  shows "wp (ask_monitor ok sh delta) (rate_check ip k) Q m"
  using assms by (auto simp: rate_check_def take_token_def wp_ask_ops)

lemma layers_ask:
  "wp (ask_monitor ok sh delta) (inner req) Q m \<Longrightarrow> wp (ask_monitor ok sh delta) (logging_layer L inner req) Q m"
  "wp (ask_monitor ok sh delta) (inner req) Q m \<Longrightarrow> Q m (too_many_requests L) \<Longrightarrow>
     wp (ask_monitor ok sh delta) (rate_limit_layer L inner req) Q m"
  "wp (ask_monitor ok sh delta) (inner req) Q m \<Longrightarrow> (\<And>m. Q m (timeout_response L)) \<Longrightarrow>
     wp (ask_monitor ok sh delta) (request_timeout_layer L d inner req) Q m"
  "wp (ask_monitor ok sh delta) (proxy_request bp L req)
      (\<lambda>m r. Q m (case r of Inr resp \<Rightarrow> resp | Inl e \<Rightarrow> into_response (no_headers L) e)) m \<Longrightarrow>
     wp (ask_monitor ok sh delta) (proxy_service bp L req) Q m"
proof -
  show "wp (ask_monitor ok sh delta) (inner req) Q m \<Longrightarrow> wp (ask_monitor ok sh delta) (logging_layer L inner req) Q m"
    by (simp add: logging_layer_def wp_ask_ops wp_bind Let_def)
  show "wp (ask_monitor ok sh delta) (inner req) Q m \<Longrightarrow> Q m (too_many_requests L) \<Longrightarrow>
     wp (ask_monitor ok sh delta) (rate_limit_layer L inner req) Q m"
    by (auto simp: rate_limit_layer_def intro!: rate_check_asks split: option.splits)
  show "wp (ask_monitor ok sh delta) (inner req) Q m \<Longrightarrow> (\<And>m. Q m (timeout_response L)) \<Longrightarrow>
     wp (ask_monitor ok sh delta) (request_timeout_layer L d inner req) Q m"
    by (auto simp: request_timeout_layer_def wp_bind intro!: wp_timeout)
  show "wp (ask_monitor ok sh delta) (proxy_request bp L req)
      (\<lambda>m r. Q m (case r of Inr resp \<Rightarrow> resp | Inl e \<Rightarrow> into_response (no_headers L) e)) m \<Longrightarrow>
     wp (ask_monitor ok sh delta) (proxy_service bp L req) Q m"
    by (auto simp: proxy_service_def wp_bind elim!: wp_mono split: sum.splits)
qed

lemma stack_ask:
  assumes "wp (ask_monitor ok sh delta) (proxy_request bp L (req\<lparr>remote_addr := Some ip\<rparr>))
      (\<lambda>m r. Q m (case r of Inr resp \<Rightarrow> resp | Inl e \<Rightarrow> into_response (no_headers L) e)) m"
    and "Q m (too_many_requests L)" and "\<And>m. Q m (timeout_response L)"
  shows "wp (ask_monitor ok sh delta) (service_stack bp L overall ip req) Q m"
  unfolding service_stack_def inject_addr_service_def by (intro layers_ask assms)

lemma rotation_addr [simp]: "rotation L (req\<lparr>remote_addr := a\<rparr>) = rotation L req"
  by (intro ext) (simp add: rotation_def cong: option.case_cong)

lemma rate_check_refuses:
  assumes "\<forall>s. sh s \<longrightarrow> enabled (limiter s) \<and> (\<forall>t t'. snd (acquire_for t t' (limiter s) ip) \<noteq> Val True)"
    and "wp (ask_monitor ok sh delta) (k False) Q m"
  shows "wp (ask_monitor ok sh delta) (rate_check ip k) Q m"
proof -
  have taken: "wp (ask_monitor ok sh delta) (take_token ip k) Q m"
  proof -
    have "wp (ask_monitor ok sh delta) (k b) Q m"
      if "sh s" "snd (on_limiter (\<lambda>e l. acquire_for (clk e 0) (clk e 1) l ip) e s) = Val b"
      for b s and e :: "'a reading"
      using that assms by (cases b) (auto simp: on_limiter_def case_prod_beta)
    then show ?thesis unfolding take_token_def wp_ask_ops by blast
  qed
  show ?thesis
    using assms(1) taken by (simp add: rate_check_def wp_ask_ops)
qed

section \<open>The layers under a monitor of the effects\<close>

context account
begin

lemma rate_check_wp:
  assumes "\<And>b. wp (effect_monitor ok ex sh acc A R) (kk b) Q m" and "R m"
  shows "wp (effect_monitor ok ex sh acc A R) (rate_check ip kk) Q m"
  using assms by (simp add: rate_check_def take_token_def wp_effect_ops quiet)

lemma rate_limit_wp:
  assumes "wp (effect_monitor ok ex sh acc A R) (inner req) Q m" and "Q m (too_many_requests L)" and "R m"
  shows "wp (effect_monitor ok ex sh acc A R) (rate_limit_layer L inner req) Q m"
  using assms by (auto simp: rate_limit_layer_def intro!: rate_check_wp split: option.splits)

lemma limited_wp:
  assumes "wp (effect_monitor ok ex sh acc A R) (proxy_request bp L req)
      (\<lambda>m r. Q m (case r of Inr resp \<Rightarrow> resp | Inl e \<Rightarrow> into_response (no_headers L) e)) m"
    and "Q m (too_many_requests L)" and "R m" and "ex \<Longrightarrow> (\<And>m. A m \<Longrightarrow> Q m (timeout_response L))"
  shows "wp (effect_monitor ok ex sh acc A R)
    (rate_limit_layer L (request_timeout_layer L overall (proxy_service bp L)) req) Q m"
proof -
  have "wp (effect_monitor ok ex sh acc A R) (proxy_service bp L req) Q m"
    using assms(1) by (auto simp: proxy_service_def wp_bind elim!: wp_mono split: sum.splits)
  then have "wp (effect_monitor ok ex sh acc A R) (request_timeout_layer L overall (proxy_service bp L) req) Q m"
    using assms(4) by (auto simp: request_timeout_layer_def wp_bind intro!: wp_timeout split: if_splits)
  then show ?thesis by (intro rate_limit_wp assms)
qed

end

context unlogged_account
begin

lemma logging_wp:
  assumes "wp (effect_monitor ok ex sh acc A R) (inner req) Q m"
  shows "wp (effect_monitor ok ex sh acc A R) (logging_layer L inner req) Q m"
  using assms by (simp add: logging_layer_def wp_effect_ops wp_bind Let_def quiet unlogged)

lemma stack_wp:
  assumes "wp (effect_monitor ok ex sh acc A R) (proxy_request bp L (req\<lparr>remote_addr := Some ip\<rparr>))
      (\<lambda>m r. Q m (case r of Inr resp \<Rightarrow> resp | Inl e \<Rightarrow> into_response (no_headers L) e)) m"
    and "Q m (too_many_requests L)" and "R m" and "ex \<Longrightarrow> (\<And>m. A m \<Longrightarrow> Q m (timeout_response L))"
  shows "wp (effect_monitor ok ex sh acc A R) (service_stack bp L overall ip req) Q m"
  unfolding service_stack_def inject_addr_service_def
  by (intro logging_wp limited_wp assms)

end

end
