(* ===== verification/Config_Reloader.thy ===== *)
theory Config_Reloader
  imports Proxy_Accounts
begin

text \<open>
  config_reloader.rs: a new route table and configuration for the running proxy. The two stores are
  two accesses, the table first. The parser of the configuration file is a parameter.
\<close>

section \<open>Model\<close>

definition store_router :: "router \<Rightarrow> app_state \<Rightarrow> app_state" where
  "store_router r s = s\<lparr>router_heap := router_heap s @ [r], router_ref := length (router_heap s)\<rparr>"

definition store_config :: "config \<Rightarrow> app_state \<Rightarrow> app_state" where
  "store_config c s = s\<lparr>app_config := c\<rparr>"

definition apply_config :: "config \<Rightarrow> ('h, 'u, 'a) app_task \<Rightarrow> ('h, 'u, 'a) app_task" where
  "apply_config c k = update (store_router (router_of_config c)) (update (store_config c) k)"

datatype reload_error = Read_Failed | Parse_Failed

definition reload_config ::
    "(string \<Rightarrow> config option) \<Rightarrow> (reload_error + unit \<Rightarrow> ('h, 'u, 'a) app_task) \<Rightarrow> ('h, 'u, 'a) app_task" where
  "reload_config parse k =
     given config_file (\<lambda>contents.
       case contents of
         None \<Rightarrow> k (Inl Read_Failed)
       | Some config_str \<Rightarrow>
           (case parse config_str of
              None \<Rightarrow> k (Inl Parse_Failed)
            | Some c \<Rightarrow> apply_config c (k (Inr ()))))"

text \<open>The loop of the background task, for \<open>n\<close> hangup signals; a failed reload is only logged.\<close>

fun reload_loop :: "(string \<Rightarrow> config option) \<Rightarrow> nat \<Rightarrow> ('h, 'u, unit) app_task" where
  "reload_loop parse 0 = Return ()"
| "reload_loop parse (Suc n) =
     await Hangup (\<lambda>_. ()) (\<lambda>_. reload_config parse (\<lambda>_. reload_loop parse n))"

section \<open>Facts\<close>

lemma store_simps [simp]:
  "health (store_router r s) = health s" "health (store_config c s) = health s"
  "budget (store_router r s) = budget s" "budget (store_config c s) = budget s"
  "limiter (store_router r s) = limiter s" "limiter (store_config c s) = limiter s"
  "app_metrics (store_router r s) = app_metrics s" "app_metrics (store_config c s) = app_metrics s"
  "app_config (store_router r s) = app_config s" "app_config (store_config c s) = c"
  "router_heap (store_config c s) = router_heap s" "router_ref (store_config c s) = router_ref s"
  "router_heap (store_router r s) = router_heap s @ [r]"
  "router_ref (store_router r s) = length (router_heap s)"
  by (simp_all add: store_router_def store_config_def)

lemma store_router_flight [simp]:
  "has_table rid n i k s \<Longrightarrow> in_flight_change rid n i k j m s (store_router r s) = Some m"
  by (simp add: balance_def has_table_def active_at_def the_balancer_def nth_append)

lemma reload_loop_flight:
  "wp (flight_monitor rid n i k j) (reload_loop parse c) (\<lambda>m r. m = 0) 0"
  by (induction c) (auto simp: wp_effect_ops reload_config_def apply_config_def split: option.splits)

end
