(* ===== verification/Scenario.thy ===== *)
theory Scenario
  imports Middleware Config_Reloader
begin

text \<open>
  A concrete request through the whole stack, for the witnesses: two upstreams under least
  connections, \<open>GET /api/users\<close> with a hop-by-hop header, on the plain instance of the http crate.
  The first ten steps lead to the retry loop, two more to the suspended \<open>Send\<close>, eight more to the
  answer; instead the overall deadline may pass at the \<open>Send\<close>.
\<close>

section \<open>The proxy and the request\<close>

definition demo_metrics :: metrics where
  "demo_metrics =
     \<lparr>registry = [''proxy_requests_total'', ''proxy_request_duration_seconds'',
                  ''proxy_retries_total'', ''proxy_errors_total''],
      requests_total = requests_total_vec,
      request_duration_seconds = request_duration_seconds_vec,
      retries_total = retries_total_vec, errors_total = errors_total_vec, samples = []\<rparr>"

definition demo_server :: server_config where
  "demo_server =
     \<lparr>bind_addr = ''127.0.0.1:8080'', request_timeout_secs = 2, max_retries = 1,
      failure_threshold = 3, health_cooldown_secs = 30, health_check = None, retry_backoff_ms = 100,
      retry_budget_percent = Fin 20, retry_budget_window_secs = 10, metrics_bind = None,
      overall_timeout_secs = 30, rate_limit = None, drain_timeout_secs = 30,
      pool_idle_timeout_secs = 90, pool_max_idle_per_host = 32\<rparr>"

definition demo_config :: config where
  "demo_config =
     \<lparr>server = demo_server,
      routes = [\<lparr>rc_prefix = ''/api'', rc_upstream = [''http://a'', ''http://b''],
                 rc_strategy = LeastConnections, rc_weights = None\<rparr>]\<rparr>"

definition demo_state :: app_state where
  "demo_state =
     \<lparr>router_heap = [router_of_config demo_config], router_ref = 0, app_config = demo_config,
      client = \<lparr>pool_idle_timeout = from_secs 90, pool_max_idle = 32\<rparr>,
      health = health_new 3 (from_secs 30), budget = retry_budget_new (Fin 20) 10,
      app_metrics = demo_metrics, limiter = rate_limiter_disabled, request_log = []\<rparr>"

definition demo_request :: "(string \<Rightarrow> string option, string \<times> string) request" where
  "demo_request =
     \<lparr>req_method = ''GET'', req_uri = ([], ''/api/users''),
      req_headers = [''host'' \<mapsto> ''proxy'', ''connection'' \<mapsto> ''close''], req_body = [], remote_addr = None\<rparr>"

definition demo_answer :: "(string \<Rightarrow> string option) response" where
  "demo_answer = \<lparr>status = 200, resp_headers = Map.empty, resp_body = ''ok''\<rparr>"

definition demo_reading :: "(string \<Rightarrow> string option) reading" where
  "demo_reading =
     \<lparr>clk = (\<lambda>i. 0), random_upto = (\<lambda>n. 0), fresh_uuid = ''id'', body_read = Some [],
      reply = Responded demo_answer, probe = Probed 200, config_file = None,
      serving = None, draining = True\<rparr>"

definition demo_task ::
    "(string \<Rightarrow> string option, string \<times> string, (string \<Rightarrow> string option) response) app_task" where
  "demo_task = service_stack Release plain_http (from_secs 30) (V4 1) demo_request"

section \<open>Projections\<close>

lemma demo_metrics_ok [simp]: "metrics_ok demo_metrics"
  by (simp add: demo_metrics_def metrics_ok_def)

lemma demo_router:
  "router_of_config demo_config =
     \<lparr>router_routes = [\<lparr>route_prefix = ''/api'', upstreams = [''http://a'', ''http://b''],
                        balancer = LC \<lparr>active = [0, 0]\<rparr>\<rparr>]\<rparr>"
  by (simp add: router_of_config_def router_new_def route_of_config_def demo_config_def
      create_balancer_def lc_new_def)

lemma demo_server: "server demo_config = demo_server"
  by (simp add: demo_config_def)

lemma demo_state_simps:
  "router_heap demo_state = [router_of_config demo_config]" "router_ref demo_state = 0"
  "app_config demo_state = demo_config" "health demo_state = health_new 3 (from_secs 30)"
  "budget demo_state = retry_budget_new (Fin 20) 10" "app_metrics demo_state = demo_metrics"
  "limiter demo_state = rate_limiter_disabled" "request_log demo_state = []"
  by (simp_all add: demo_state_def)

lemma demo_request_simps:
  "req_method demo_request = ''GET''" "req_uri demo_request = ([], ''/api/users'')"
  "req_body demo_request = []"
  by (simp_all add: demo_request_def)

lemma demo_reading_simps:
  "clk demo_reading i = 0" "random_upto demo_reading = (\<lambda>n. 0)" "fresh_uuid demo_reading = ''id''"
  "body_read demo_reading = Some []" "reply demo_reading = Responded demo_answer"
  "config_file demo_reading = None"
  by (simp_all add: demo_reading_def)

lemma demo_reading_ok [simp]: "reading_ok demo_reading" "body_arrives demo_reading"
  by (simp_all add: reading_ok_def body_arrives_def demo_reading_def header_text_def)

lemma plain_simps:
  "no_headers plain_http = Map.empty" "hdr_get plain_http h n = h n"
  "hdr_insert plain_http h n v = h(n \<mapsto> v)" "hdr_remove plain_http h n = h(n := None)"
  "value_to_str plain_http v = (if header_text v then Some v else None)"
  "value_from_str plain_http v = (if header_text v then Some v else None)"
  "value_from_static plain_http v = v" "uri_parse plain_http t = plain_parse t"
  "uri_path plain_http u = takeWhile (\<lambda>c. c \<noteq> CHR ''?'') (snd u)"
  "uri_path_and_query plain_http u = Some (snd u)"
  by (simp_all add: plain_http_def)

lemma decimal_200: "decimal 200 = ''200''"
  by (simp add: decimal.simps char_of_def bit_Suc_0_iff)

text \<open>The headers the request is sent with.\<close>

definition demo_headers :: "string \<Rightarrow> string option" where
  "demo_headers =
     (case normalize_headers plain_http ''id'' (Some (V4 1)) (req_headers demo_request) of
        Val h \<Rightarrow> h | Panic p \<Rightarrow> Map.empty)"

lemma demo_headers:
  "normalize_headers plain_http ''id'' (Some (V4 1)) (req_headers demo_request) = Val demo_headers"
  using normalize_forwards [OF plain_http_laws, of "''id''" "Some (V4 1)" "req_headers demo_request"]
  by (auto simp: demo_headers_def header_text_def)

definition demo_sent :: "(string \<Rightarrow> string option, string \<times> string) request" where
  "demo_sent =
     \<lparr>req_method = ''GET'', req_uri = (''a'', ''/users''), req_headers = demo_headers,
      req_body = [], remote_addr = None\<rparr>"

section \<open>Up to the loop\<close>

definition demo_ctx :: "(string \<Rightarrow> string option) call_ctx" where
  "demo_ctx =
     \<lparr>cx_start = 0, cx_method = ''GET'', cx_request_id = ''id'', cx_client_ip = Some (V4 1),
      cx_headers = req_headers demo_request, cx_body = [], cx_table = 0, cx_route = 0,
      cx_prefix = ''/api'', cx_upstreams = [''http://a'', ''http://b''], cx_final_path = ''/users'',
      cx_timeout = from_secs 2, cx_start_index = 0, cx_any_healthy = True, cx_max_attempts = 2,
      cx_backoff_ms = 100\<rparr>"

lemma demo_ctx_simps:
  "cx_headers demo_ctx = req_headers demo_request" "cx_body demo_ctx = []" "cx_method demo_ctx = ''GET''"
  "cx_request_id demo_ctx = ''id''" "cx_client_ip demo_ctx = Some (V4 1)" "cx_table demo_ctx = 0"
  "cx_route demo_ctx = 0" "cx_upstreams demo_ctx = [''http://a'', ''http://b'']"
  "cx_final_path demo_ctx = ''/users''" "cx_timeout demo_ctx = from_secs 2"
  "cx_start_index demo_ctx = 0" "cx_any_healthy demo_ctx" "cx_max_attempts demo_ctx = 2"
  by (simp_all add: demo_ctx_def)

text \<open>The loop, with what the layers put around it.\<close>

definition demo_loop ::
    "(string \<Rightarrow> string option, string \<times> string, (string \<Rightarrow> string option) response) app_task" where
  "demo_loop =
     bind (bind (timeout (from_secs 30) (bind (attempts Release plain_http demo_ctx [0, 1] 0 None) (\<lambda>r.
       case r of Inr resp \<Rightarrow> Return resp | Inl e \<Rightarrow> Return (into_response Map.empty e))))
      (\<lambda>r. case r of Some resp \<Rightarrow> Return resp | None \<Rightarrow> Return (timeout_response plain_http)))
      (\<lambda>resp. given (\<lambda>e. duration_since (clk e 0) 0) (\<lambda>elapsed.
        update (\<lambda>s. s\<lparr>request_log := request_log s @
          [\<lparr>log_method = ''GET'', log_path = ''/api/users'', log_status = status resp,
            log_duration_ms = of_nat (elapsed div 1000000)\<rparr>]\<rparr>)
        (Return resp)))"

lemmas demo_prefix_defs = task_ops service_stack_def inject_addr_service_def logging_layer_def
  rate_limit_layer_def rate_check_def proxy_service_def request_timeout_layer_def proxy_request_def
  demo_task_def demo_loop_def demo_ctx_def demo_state_simps demo_request_simps demo_reading_simps
  demo_server demo_server_def demo_router plain_simps
  match_route_def max_by_key_def starts_with_def strip_prefix_def final_path_of_def
  on_health_def on_budget_def on_balancer_def the_balancer_def set_balancer_def
  lc_next_index_def is_healthy_def health_new_def record_request_def retry_budget_new_def
  rate_limiter_disabled_def add_word_def index_def Let_def

lemmas demo_loop_defs = task_ops demo_loop_def demo_ctx_simps demo_state_simps demo_reading_simps
  demo_router demo_headers plain_simps plain_parse_def split_authority_def
  skip_check_def before_attempt_def new_request_def some_or_panic_def forward_once_def succeed_def
  strip_hop_by_hop_headers_def HOP_BY_HOP_HEADERS_def is_server_error_def demo_answer_def decimal_200
  on_health_def on_balancer_def the_balancer_def set_balancer_def
  lc_record_start_def lc_record_done_def is_healthy_def record_success_def health_new_def
  rem_nat_def index_def Let_def

section \<open>Runs of the request alone\<close>

abbreviation "go \<equiv> (demo_state, Go demo_reading)"

abbreviation "ten_steps x \<equiv> [x, x, x, x, x, x, x, x, x, x]"

lemma demo_prefix:
  "final demo_task (ten_steps go) = demo_loop"
  "questions (fst (follow demo_task (ten_steps go))) = [Read_Body []]"
  by (simp_all add: final_def demo_prefix_defs del: attempts.simps)

lemma demo_suspended: "asked demo_task (ten_steps go @ [go, go]) = [Read_Body [], Send demo_sent (from_secs 2)]"
proof -
  have "asked demo_loop [go, go] = [Send demo_sent (from_secs 2)]"
    unfolding demo_loop_def
    by (subst attempts.simps(2)) (simp add: asked_def demo_sent_def demo_loop_defs del: attempts.simps)
  then show ?thesis using demo_prefix unfolding asked_append by (simp add: final_def split: prod.split)
qed

lemma demo_suspended_at:
  "\<exists>q c ds. final demo_task (ten_steps go @ [go, go]) = Await q c ds"
proof -
  have "\<exists>q c ds. final demo_loop [go, go] = Await q c ds"
    unfolding demo_loop_def
    by (subst attempts.simps(2)) (simp add: final_def demo_loop_defs del: attempts.simps)
  then show ?thesis unfolding final_append demo_prefix .
qed

lemma demo_answered: "final demo_task (ten_steps go @ ten_steps go) = Return demo_answer"
proof -
  have "final demo_loop (ten_steps go) = Return demo_answer"
    unfolding demo_loop_def
    by (subst attempts.simps(2)) (simp add: final_def demo_loop_defs del: attempts.simps)
  then show ?thesis unfolding final_append demo_prefix .
qed

section \<open>Runs beside the reload task\<close>

lemma metrics_ok_on [simp]:
  "metrics_ok (app_metrics (fst (on_metrics (inc vec labels) e s))) = metrics_ok (app_metrics s)"
  "metrics_ok (app_metrics (fst (on_metrics (observe vec labels x) e s))) = metrics_ok (app_metrics s)"
  by (simp_all add: on_metrics_def inc_def observe_def)

definition demo_tasks where
  "demo_tasks = [bind demo_task (\<lambda>resp. Return ()), reload_loop (\<lambda>s. None) 1]"

definition demo_started :: app_state where
  "demo_started = demo_state\<lparr>budget := (budget demo_state)\<lparr>rb_requests := [0]\<rparr>\<rparr>"

lemma demo_started:
  "interleave demo_state demo_tasks (ten_steps (0, Go demo_reading)) =
     (demo_started, [bind demo_loop (\<lambda>resp. Return ()), reload_loop (\<lambda>s. None) 1])"
  by (simp add: demo_prefix_defs demo_tasks_def demo_started_def del: attempts.simps reload_loop.simps)

definition demo_finish where
  "demo_finish = ten_steps (0, Go demo_reading) @ ten_steps (0, Go demo_reading)
     @ [(1, Go demo_reading), (1, Go demo_reading)]"

lemma demo_finished: "list_all finished (snd (interleave demo_state demo_tasks demo_finish))"
proof -
  have "list_all finished (snd (interleave demo_started [bind demo_loop (\<lambda>resp. Return ()), reload_loop (\<lambda>s. None) 1]
      (ten_steps (0, Go demo_reading) @ [(1, Go demo_reading), (1, Go demo_reading)])))"
    unfolding demo_loop_def
    by (subst attempts.simps(2))
      (simp add: reload_config_def demo_started_def demo_loop_defs del: attempts.simps)
  then show ?thesis unfolding demo_finish_def by (simp only: interleave_append demo_started prod.case)
qed

text \<open>The overall deadline passes while the request waits for its upstream.\<close>

definition demo_cut where
  "demo_cut = ten_steps (0, Go demo_reading)
     @ [(0, Go demo_reading), (0, Go demo_reading), (0, Expire 0), (0, Go demo_reading), (0, Go demo_reading),
        (1, Go demo_reading), (1, Go demo_reading)]"

lemma demo_cut:
  "(case interleave demo_state demo_tasks demo_cut of (s', ts) \<Rightarrow>
      list_all finished ts \<and> active_at 0 0 0 s' = 1 \<and> map log_status (request_log s') = [GATEWAY_TIMEOUT])"
proof -
  have "(case interleave demo_started [bind demo_loop (\<lambda>resp. Return ()), reload_loop (\<lambda>s. None) 1]
      [(0, Go demo_reading), (0, Go demo_reading), (0, Expire 0), (0, Go demo_reading), (0, Go demo_reading),
       (1, Go demo_reading), (1, Go demo_reading)] of
      (s', ts) \<Rightarrow> list_all finished ts \<and> active_at 0 0 0 s' = 1 \<and> map log_status (request_log s') = [GATEWAY_TIMEOUT])"
    unfolding demo_loop_def
    by (subst attempts.simps(2))
      (simp add: reload_config_def demo_started_def demo_loop_defs timeout_response_def active_at_def slot_def
        del: attempts.simps)
  then show ?thesis unfolding demo_cut_def by (simp only: interleave_append demo_started prod.case)
qed

lemma demo_at_rest: "active_at 0 0 j demo_state = 0" "has_table 0 1 0 (Some 2) demo_state"
  by (simp_all add: active_at_def slot_def has_table_def lc_size_def the_balancer_def demo_state_simps demo_router
      nth_Cons split: nat.split)

end
