(* ===== verification/Health_Check.thy ===== *)
theory Health_Check
  imports Scenario
begin

text \<open>
  health_check.rs: the background task that probes every upstream of the configuration it was
  spawned with, forever. \<open>health_check_rounds\<close> is its loop for a number of rounds; the order in
  which a \<open>HashSet\<close> iterates is a parameter, constrained by \<open>hash_set_order\<close>. The probe's own
  timeout is the HTTP client's: its expiry is a \<open>Probe_Error\<close>.
\<close>

section \<open>Model\<close>

text \<open>One probe, and what its outcome does to the tracker.\<close>

definition probe_upstream ::
    "profile \<Rightarrow> health_check_config \<Rightarrow> string \<Rightarrow> ('h, 'u, 'a) app_task \<Rightarrow> ('h, 'u, 'a) app_task" where
  "probe_upstream bp hc u k =
     await (Probe (u @ hc_path hc) (from_secs (hc_timeout_secs hc))) probe (\<lambda>r.
       case r of
         Probed st \<Rightarrow>
           if is_success st then call (on_health (\<lambda>e h. record_success h u)) (\<lambda>_. k)
           else call (on_health (\<lambda>e h. record_failure bp (clk e 0) h u)) (\<lambda>_. k)
       | Probe_Error \<Rightarrow> call (on_health (\<lambda>e h. record_failure bp (clk e 0) h u)) (\<lambda>_. k))"

fun probe_upstreams ::
    "profile \<Rightarrow> health_check_config \<Rightarrow> string list \<Rightarrow> ('h, 'u, 'a) app_task \<Rightarrow> ('h, 'u, 'a) app_task" where
  "probe_upstreams bp hc [] k = k"
| "probe_upstreams bp hc (u # us) k = probe_upstream bp hc u (probe_upstreams bp hc us k)"

fun health_check_rounds ::
    "profile \<Rightarrow> health_check_config \<Rightarrow> string list \<Rightarrow> nat \<Rightarrow> ('h, 'u, unit) app_task" where
  "health_check_rounds bp hc us 0 = Return ()"
| "health_check_rounds bp hc us (Suc n) =
     await (Sleep (from_secs (hc_interval_secs hc))) (\<lambda>_. ()) (\<lambda>_.
       probe_upstreams bp hc us (health_check_rounds bp hc us n))"

text \<open>All upstreams of a configuration, in the order of its routes; the set's order of them.\<close>

definition configured_upstreams :: "config \<Rightarrow> string list" where
  "configured_upstreams cfg = concat (map rc_upstream (routes cfg))"

definition hash_set_order :: "(string list \<Rightarrow> string list) \<Rightarrow> bool" where
  "hash_set_order order \<longleftrightarrow> (\<forall>xs. distinct (order xs) \<and> set (order xs) = set xs)"

definition run_health_check_loop ::
    "profile \<Rightarrow> (string list \<Rightarrow> string list) \<Rightarrow> health_check_config \<Rightarrow> nat \<Rightarrow> ('h, 'u, unit) app_task" where
  "run_health_check_loop bp order hc rounds =
     load (\<lambda>s. order (configured_upstreams (app_config s))) (\<lambda>us. health_check_rounds bp hc us rounds)"

text \<open>The task that is spawned for a state, if any.\<close>

definition spawn_active_health_checker ::
    "profile \<Rightarrow> (string list \<Rightarrow> string list) \<Rightarrow> nat \<Rightarrow> app_state \<Rightarrow> ('h, 'u, unit) app_task option" where
  "spawn_active_health_checker bp order rounds s =
     (case health_check (server (app_config s)) of
        None \<Rightarrow> None
      | Some hc \<Rightarrow> Some (run_health_check_loop bp order hc rounds))"

section \<open>The questions of the checker\<close>

definition round_questions :: "health_check_config \<Rightarrow> string list \<Rightarrow> ('h, 'u) question list" where
  "round_questions hc us =
     Sleep (from_secs (hc_interval_secs hc)) #
     map (\<lambda>u. Probe (u @ hc_path hc) (from_secs (hc_timeout_secs hc))) us"

lemma probe_upstream_asks:
  "wp (ask_monitor ok sh expects) k Q qs \<Longrightarrow>
   wp (ask_monitor ok sh expects) (probe_upstream bp hc u k) Q
     (Probe (u @ hc_path hc) (from_secs (hc_timeout_secs hc)) # qs)"
  by (auto simp: probe_upstream_def wp_ask_ops split: probe_reply.split)

lemma probe_upstreams_asks:
  "wp (ask_monitor ok sh expects) k Q qs \<Longrightarrow>
   wp (ask_monitor ok sh expects) (probe_upstreams bp hc us k) Q
     (map (\<lambda>u. Probe (u @ hc_path hc) (from_secs (hc_timeout_secs hc))) us @ qs)"
  by (induction us) (simp_all add: probe_upstream_asks)

lemma health_check_rounds_asks:
  "wp (ask_monitor ok sh expects) (health_check_rounds bp hc us n) (\<lambda>m r. True)
     (concat (replicate n (round_questions hc us)))"
  by (induction n) (auto simp: wp_ask_ops round_questions_def intro: probe_upstreams_asks)

section \<open>The checker under a monitor of the effects\<close>

context account
begin

lemma probe_upstreams_wp:
  assumes "wp (effect_monitor ok ex sh acc A R) k Q m" and "A m" and "R m"
  shows "wp (effect_monitor ok ex sh acc A R) (probe_upstreams bp hc us k) Q m"
  using assms by (induction us) (auto simp: probe_upstream_def wp_effect_ops quiet split: probe_reply.split)

lemma checker_wp:
  assumes "Q m ()" and "A m" and "R m"
  shows "wp (effect_monitor ok ex sh acc A R) (run_health_check_loop bp order hc n) Q m"
proof -
  have "wp (effect_monitor ok ex sh acc A R) (health_check_rounds bp hc us n) Q m" for us
    by (induction n) (auto simp: assms wp_effect_ops intro!: probe_upstreams_wp)
  then show ?thesis by (auto simp: run_health_check_loop_def wp_effect_ops quiet)
qed

end

lemma checker_flight:
  "wp (flight_monitor rid n i k j) (run_health_check_loop bp order hc c) (\<lambda>m r. m = 0) 0"
  by (rule flight.checker_wp) simp_all

section \<open>The effect of a round\<close>

definition probe_op :: "'h reading \<Rightarrow> string \<Rightarrow> health_op" where
  "probe_op e u =
     (case probe e of
        Probed st \<Rightarrow> if is_success st then Succeed u else Fail u (clk e 0)
      | Probe_Error \<Rightarrow> Fail u (clk e 0))"

text \<open>What a probe's outcome does to the breaker of its upstream.\<close>

definition probed :: "'h reading \<Rightarrow> breaker \<Rightarrow> breaker" where
  "probed e b =
     (case probe_op e ''u'' of
        Succeed u \<Rightarrow> b\<lparr>failed_in_a_row := 0\<rparr>
      | Fail u now \<Rightarrow> \<lparr>failed_in_a_row = Suc (failed_in_a_row b), last_failure = now\<rparr>
      | Query u now \<Rightarrow> b)"

text \<open>The steps of a round that nothing interrupts: each probe is answered, and its record made, with
  one reading.\<close>

definition round_steps :: "'h reading list \<Rightarrow> (nat \<times> 'h reading choice) list" where
  "round_steps es = concat (map (\<lambda>e. [(0, Go e), (0, Go e)]) es)"

lemma fst_breaker_step_probe:
  "fst (breaker_step thr cd b (probe_op e u)) = b(u := probed e (b u))"
  "snd (breaker_step thr cd b (probe_op e u)) = Val True"
  by (auto simp: probe_op_def probed_def split: probe_reply.split)

lemma probe_upstream_alone:
  assumes "breaker_rel thr cd (health s) b" and "thr \<noteq> -1"
  shows "\<exists>h. interleave s [probe_upstream bp hc u k] ((0, Go e) # (0, Go e) # w) = interleave (s\<lparr>health := h\<rparr>) [k] w \<and>
    breaker_rel thr cd h (b(u := probed e (b u)))"
proof -
  let ?h = "fst (health_step bp (health s) (probe_op e u))"
  have rel: "breaker_rel thr cd ?h (b(u := probed e (b u)))"
    and val: "snd (health_step bp (health s) (probe_op e u)) = Val True"
    using breaker_step_rel [OF assms(2,1), of bp "probe_op e u"] by (simp_all add: fst_breaker_step_probe)
  have "interleave s [probe_upstream bp hc u k] ((0, Go e) # (0, Go e) # w) = interleave (s\<lparr>health := ?h\<rparr>) [k] w"
    using val
    by (auto simp: probe_upstream_def probe_op_def task_ops on_health_def wp_unwrap
        split: probe_reply.splits prod.splits outcome.splits if_splits)
  with rel show ?thesis by blast
qed

lemma round_alone:
  assumes "breaker_rel thr cd (health s) b" and "thr \<noteq> -1" and "length es = length us" and "distinct us"
  shows "\<exists>h. interleave s [probe_upstreams bp hc us k] (round_steps es @ w) = interleave (s\<lparr>health := h\<rparr>) [k] w \<and>
    breaker_rel thr cd h (\<lambda>u. case map_of (zip us es) u of None \<Rightarrow> b u | Some e \<Rightarrow> probed e (b u))"
  using assms
proof (induction us es arbitrary: s b rule: list_induct2')
  case 1
  then show ?case by (intro exI [of _ "health s"]) (simp add: round_steps_def)
next
  case (4 u us e es)
  let ?b = "b(u := probed e (b u))"
  have steps: "round_steps (e # es) @ w = (0, Go e) # (0, Go e) # (round_steps es @ w)"
    by (simp add: round_steps_def)
  obtain h where h: "interleave s [probe_upstreams bp hc (u # us) k] (round_steps (e # es) @ w)
      = interleave (s\<lparr>health := h\<rparr>) [probe_upstreams bp hc us k] (round_steps es @ w)"
    "breaker_rel thr cd (health (s\<lparr>health := h\<rparr>)) ?b"
    using probe_upstream_alone [OF "4.prems"(1,2), of bp hc u "probe_upstreams bp hc us k" e "round_steps es @ w"]
    unfolding steps by auto
  have u: "map_of (zip us es) u = None"
    using "4.prems"(4) by (auto simp: map_of_eq_None_iff dest: set_zip_leftD)
  have same: "(\<lambda>v. case map_of (zip us es) v of None \<Rightarrow> ?b v | Some e' \<Rightarrow> probed e' (?b v))
      = (\<lambda>v. case map_of (zip (u # us) (e # es)) v of None \<Rightarrow> b v | Some e' \<Rightarrow> probed e' (b v))"
    using u by (auto simp: fun_eq_iff split: option.split)
  obtain h' where h': "interleave (s\<lparr>health := h\<rparr>) [probe_upstreams bp hc us k] (round_steps es @ w)
      = interleave (s\<lparr>health := h\<rparr>\<lparr>health := h'\<rparr>) [k] w"
    "breaker_rel thr cd h' (\<lambda>v. case map_of (zip us es) v of None \<Rightarrow> ?b v | Some e' \<Rightarrow> probed e' (?b v))"
    using "4.IH" [OF h(2) "4.prems"(2)] "4.prems"(3,4) by auto
  show ?case using h(1) h'(1) h'(2) [unfolded same] by auto
qed simp_all

section \<open>Properties\<close>


definition demo_check :: health_check_config where
  "demo_check = \<lparr>hc_path = ''/health'', hc_interval_secs = 10, hc_timeout_secs = 3\<rparr>"

definition demo_checker :: "(string \<Rightarrow> string option, string \<times> string, unit) app_task" where
  "demo_checker = run_health_check_loop Release remdups demo_check 2"

lemma demo_upstreams: "remdups (configured_upstreams demo_config) = [''http://a'', ''http://b'']"
  by (simp add: configured_upstreams_def demo_config_def)

lemma demo_checker_asked:
  "asked demo_checker [go, go, go, go]
     = [Sleep (from_secs 10), Probe ''http://a/health'' (from_secs 3), Probe ''http://b/health'' (from_secs 3)]"
  by (simp add: asked_def demo_checker_def run_health_check_loop_def demo_upstreams demo_state_simps task_ops
      probe_upstream_def demo_check_def demo_reading_def is_success_def on_health_def record_success_def
      health_new_def numeral_2_eq_2)


text \<open>Property C17. One round is one step of every breaker: an upstream whose probe answers with a 2xx
  status has its failures cleared, any other answer and no answer count as one more failure at the
  time of the record, and the breakers of other upstreams stay as they are.\<close>

theorem checker_round:
  assumes "breaker_rel thr cd (health s) b" and "thr \<noteq> -1" and "length es = length us" and "distinct us"
  shows "\<exists>h. interleave s [health_check_rounds bp hc us 1] ((0, Go e0) # round_steps es) = (s\<lparr>health := h\<rparr>, [Return ()]) \<and>
    breaker_rel thr cd h (\<lambda>u. case map_of (zip us es) u of None \<Rightarrow> b u | Some e \<Rightarrow> probed e (b u))"
  using round_alone [OF assms, of bp hc "Return ()" "[]"] by (simp add: task_ops)

theorem checker_round_witness:
  "\<exists>h. interleave demo_state [health_check_rounds Debug demo_check [''http://a'', ''http://b''] 1]
      ((0, Go demo_reading) # round_steps [demo_reading\<lparr>probe := Probe_Error\<rparr>, demo_reading])
      = (demo_state\<lparr>health := h\<rparr>, [Return ()]) \<and>
    breaker_rel 3 (from_secs 30) h
      (breaker_init(''http://a'' := \<lparr>failed_in_a_row = 1, last_failure = 0\<rparr>))"
proof -
  have rel: "breaker_rel 3 (from_secs 30) (health demo_state) breaker_init"
    by (simp add: demo_state_simps breaker_rel_new)
  have b: "(\<lambda>u. case map_of (zip [''http://a'', ''http://b''] [demo_reading\<lparr>probe := Probe_Error\<rparr>, demo_reading]) u of
        None \<Rightarrow> breaker_init u | Some e \<Rightarrow> probed e (breaker_init u))
      = breaker_init(''http://a'' := \<lparr>failed_in_a_row = 1, last_failure = 0\<rparr>)"
    by (auto simp: fun_eq_iff probed_def probe_op_def breaker_init_def demo_reading_def is_success_def)
  show ?thesis using checker_round [OF rel, of "[demo_reading\<lparr>probe := Probe_Error\<rparr>, demo_reading]"
      "[''http://a'', ''http://b'']" Debug demo_check demo_reading] unfolding b by simp
qed

end
