(* ===== verification/Stack.thy ===== *)
theory Stack
  imports Health_Check
begin

text \<open>
  What the client of the whole stack can rely on: the properties of a request through all layers,
  under any interference of other tasks, and of any number of requests beside the background tasks.
\<close>

section \<open>What is sent to the upstreams\<close>


text \<open>Property C4. Every request sent upstream has the client's method, the client's headers without
  the hop-by-hop ones, a request id, the client's address appended to \<open>X-Forwarded-For\<close>, the
  protocol and the original host.\<close>

theorem stack_forwards:
  assumes "http_laws L" and "readings_ok reading_ok True w"
    and "r \<in> set (sent (asked (service_stack bp L overall ip req) w))"
  shows "req_method r = req_method req \<and> forwarded L (req_headers req) (Some ip) (req_headers r)"
proof -
  let ?req = "req\<lparr>remote_addr := Some ip\<rparr>"
  have "wp (ask_monitor reading_ok (\<lambda>s. True) (every (forwards L ?req))) (service_stack bp L overall ip req) (\<lambda>m r. True) (0 :: nat)"
    by (intro stack_ask proxy_request_forwards assms(1) TrueI)
  from ask_sound(1) [OF this assms(2)] obtain m'
    where "accepts (every (forwards L ?req)) (0 :: nat) (asked (service_stack bp L overall ip req) w) = Some m'" by auto
  from accepts_forwards [OF this assms(3)] show ?thesis by simp
qed

theorem stack_forwards_witness:
  "demo_sent \<in> set (sent (asked demo_task (ten_steps go @ [go, go]))) \<and>
   req_method demo_sent = req_method demo_request \<and>
   forwarded plain_http (req_headers demo_request) (Some (V4 1)) (req_headers demo_sent)"
proof -
  have sent: "demo_sent \<in> set (sent (asked demo_task (ten_steps go @ [go, go])))"
    by (simp only: demo_suspended) simp
  have "readings_ok reading_ok True (ten_steps go @ [go, go])" by (simp add: readings_ok_def)
  from stack_forwards [OF plain_http_laws this sent [unfolded demo_task_def]] sent show ?thesis by blast
qed



section \<open>What the client gets\<close>




definition demo_refusing :: app_state where
  "demo_refusing = demo_state\<lparr>limiter := rate_limiter_new (Fin 1) 0\<rparr>"


text \<open>Property C11. Wherever a request is suspended, the overall deadline is armed: when it passes, the
  request answers 504 with two more accesses, the log line's, and asks nothing any more.\<close>

theorem overall_deadline:
  assumes "final (service_stack bp L overall ip req) w = Await q c ds"
  shows "\<exists>t. (overall, t) \<in> set ds \<and> ends_in (timeout_response L) t"
proof -
  let ?P = "\<lambda>ds. \<exists>t. (overall, t) \<in> set ds \<and> ends_in (timeout_response L) t"
  let ?inner = "rate_limit_layer L (request_timeout_layer L overall (proxy_service bp L))"
  have "all_awaits (cut_to overall (Return (timeout_response L))) (request_timeout_layer L overall svc req)" for svc req
    unfolding request_timeout_layer_def
    by (rule all_awaits_bind [OF all_awaits_timeout]) (force split: option.split simp: cut_to_def)+
  then have inner: "all_awaits (cut_to overall (Return (timeout_response L))) (?inner req)" for req
    by (auto simp: rate_limit_layer_def rate_check_def take_token_def all_awaits_ops split: option.splits)
  have log: "all_awaits ?P (bind (?inner req) (\<lambda>resp. given f (\<lambda>x. update (h resp x) (Return resp))))" for req f h
    by (rule all_awaits_bind [OF inner]) (simp_all only: all_awaits_ops all_awaits.simps cut_ends ends_in_log simp_thms)
  have "all_awaits ?P (service_stack bp L overall ip req)"
    unfolding service_stack_def inject_addr_service_def logging_layer_def Let_def all_awaits_ops
    by (rule allI) (rule log)
  from all_awaits_final [OF this, of w] show ?thesis using assms by simp
qed

theorem overall_deadline_witness:
  "\<exists>q c ds t. final demo_task (ten_steps go @ [go, go]) = Await q c ds \<and>
     (from_secs 30, t) \<in> set ds \<and> ends_in (timeout_response plain_http) t"
proof -
  obtain q c ds where s: "final demo_task (ten_steps go @ [go, go]) = Await q c ds"
    using demo_suspended_at by blast
  from overall_deadline [OF this [unfolded demo_task_def]] s show ?thesis by blast
qed

section \<open>Accounts\<close>



text \<open>Property C2. However any number of requests, the reload task and the health checker interleave, when all have run to
  their end without a deadline passing, every counter of every balancer is back where it was: no
  request in flight is lost or counted twice, also across reloads.\<close>

theorem in_flight_returns_to_rest:
  assumes "http_laws L" and "has_table rid n i k s"
    and "\<forall>t \<in> set ts. (\<exists>bp overall ip req. t = bind (service_stack bp L overall ip req) (\<lambda>resp. Return ()))
           \<or> (\<exists>parse c. t = reload_loop parse c) \<or> (\<exists>bp order hc c. t = run_health_check_loop bp order hc c)"
    and "list_all (\<lambda>(i, ch). choice_ok reading_ok False ch) w"
    and "\<forall>t \<in> set (snd (interleave s ts w)). finished t"
  shows "active_at rid i j (fst (interleave s ts w)) = active_at rid i j s"
proof (rule interleave_balanced [where sh = "has_table rid n i k" and ok = reading_ok, OF _ assms(2,4,5)])
  have "wp (flight_monitor rid n i k j) (service_stack bp L overall ip req) (\<lambda>m r. m = 0) 0" for bp overall ip req
    by (rule flight.stack_wp) (use proxy_request_flight [OF assms(1)] in auto)
  then show "\<forall>t \<in> set ts. wp (flight_monitor rid n i k j) t (\<lambda>m r. m = 0) 0"
    using assms(3) reload_loop_flight checker_flight by (fastforce simp: wp_bind)
qed

theorem in_flight_returns_to_rest_witness:
  "list_all finished (snd (interleave demo_state demo_tasks demo_finish)) \<and>
   active_at 0 0 0 (fst (interleave demo_state demo_tasks demo_finish)) = active_at 0 0 0 demo_state"
proof -
  have fin: "\<forall>t \<in> set (snd (interleave demo_state demo_tasks demo_finish)). finished t"
    using demo_finished by (simp add: list_all_iff)
  moreover have "\<forall>t \<in> set demo_tasks. (\<exists>bp overall ip req. t = bind (service_stack bp plain_http overall ip req) (\<lambda>resp. Return ()))
           \<or> (\<exists>parse c. t = reload_loop parse c) \<or> (\<exists>bp order hc c. t = run_health_check_loop bp order hc c)"
    unfolding demo_tasks_def demo_task_def by (simp only: list.set Set.ball_simps simp_thms) blast
  moreover have "list_all (\<lambda>(i, ch). choice_ok reading_ok False ch) demo_finish"
    by (simp add: demo_finish_def)
  ultimately show ?thesis
    using in_flight_returns_to_rest [OF plain_http_laws demo_at_rest(2), of demo_tasks demo_finish] demo_finished by blast
qed


section \<open>Reloading\<close>

text \<open>Property C34. A reload that reads and parses a configuration installs exactly its route table,
  with fresh balancers, and the configuration; the trackers, the limiter and the metrics keep their
  state and settings, and every older table stays as the requests that hold it left it.\<close>

theorem reload_installs:
  assumes "config_file e = Some text" and "parse text = Some c"
    and "interleave s [reload_config parse (\<lambda>r. Return r)] [(0, Go e), (0, Go e1), (0, Go e2)] = (s', ts)"
  shows "ts = [Return (Inr ())] \<and>
    router_heap s' ! router_ref s' = router_of_config c \<and> app_config s' = c \<and>
    (\<forall>rid < length (router_heap s). router_heap s' ! rid = router_heap s ! rid) \<and>
    health s' = health s \<and> budget s' = budget s \<and> limiter s' = limiter s \<and> app_metrics s' = app_metrics s"
  using assms
  by (auto simp: reload_config_def apply_config_def task_ops nth_append)

definition demo_parse :: "string \<Rightarrow> config option" where
  "demo_parse s = (if s = ''routes'' then Some demo_config else None)"

definition demo_file :: "(string \<Rightarrow> string option) reading" where
  "demo_file = demo_reading\<lparr>config_file := Some ''routes''\<rparr>"

definition demo_reload :: "(string \<Rightarrow> string option, string \<times> string, reload_error + unit) app_task" where
  "demo_reload = reload_config demo_parse (\<lambda>r. Return r)"

theorem reload_installs_witness:
  "\<exists>s' ts. interleave demo_state [demo_reload]
      [(0, Go demo_file), (0, Go demo_file), (0, Go demo_file)] = (s', ts) \<and>
    ts = [Return (Inr ())] \<and> router_heap s' ! router_ref s' = router_of_config demo_config \<and>
    router_heap s' ! 0 = router_heap demo_state ! 0 \<and> budget s' = budget demo_state"
proof -
  obtain s' ts where run: "interleave demo_state [demo_reload]
      [(0, Go demo_file), (0, Go demo_file), (0, Go demo_file)] = (s', ts)" by fastforce
  have "config_file demo_file = Some ''routes''" "demo_parse ''routes'' = Some demo_config"
    by (simp_all add: demo_file_def demo_parse_def)
  note r = reload_installs [OF this run [unfolded demo_reload_def]]
  show ?thesis
    by (rule exI [of _ s'], rule exI [of _ ts]) (use r run in \<open>simp del: interleave.simps add: demo_state_simps\<close>)
qed

text \<open>Property C35. A reload whose file cannot be read or parsed changes nothing.\<close>

theorem reload_failure_keeps:
  assumes "config_file e = None \<or> (\<exists>text. config_file e = Some text \<and> parse text = None)"
  shows "\<exists>err. interleave s [reload_config parse (\<lambda>r. Return r)] [(0, Go e)] = (s, [Return (Inl err)])"
  using assms by (auto simp: reload_config_def apply_config_def task_ops)

theorem reload_failure_keeps_witness:
  "\<exists>err. interleave demo_state [demo_reload] [(0, Go demo_reading)] = (demo_state, [Return (Inl err)])"
  unfolding demo_reload_def by (rule reload_failure_keeps) (simp add: demo_reading_simps)


end
