(* ===== verification/Server.thy ===== *)
theory Server
  imports Stack
begin

text \<open>
  server.rs and main.rs: the state a configuration starts with, the start-up with its errors, the
  service every connection gets, the metrics endpoint, and the shutdown. The listener, address
  parsing and the hyper server itself are the operating system's and the library's: they are
  answers of the environment, or fields of \<open>os\<close>.
\<close>

section \<open>The state of a configuration\<close>

definition new_limiter :: "server_config \<Rightarrow> rate_limiter" where
  "new_limiter sc =
     (case rate_limit sc of
        Some rl \<Rightarrow> rate_limiter_new (requests_per_second rl) (burst_size rl)
      | None \<Rightarrow> rate_limiter_disabled)"

definition new_app_state :: "config \<Rightarrow> app_state outcome" where
  "new_app_state cfg =
     (let sc = server cfg in
      outcome_bind metrics_new (\<lambda>m.
        Val \<lparr>router_heap = [router_of_config cfg], router_ref = 0, app_config = cfg,
             client = \<lparr>pool_idle_timeout = from_secs (pool_idle_timeout_secs sc),
                       pool_max_idle = pool_max_idle_per_host sc\<rparr>,
             health = health_new (failure_threshold sc) (from_secs (health_cooldown_secs sc)),
             budget = retry_budget_new (retry_budget_percent sc) (retry_budget_window_secs sc),
             app_metrics = m, limiter = new_limiter sc, request_log = []\<rparr>))"

section \<open>Serving\<close>

text \<open>The service of a connection from \<open>remote_ip\<close>: the overall timeout is that of the configuration
  the server was started with.\<close>

definition connection_service ::
    "profile \<Rightarrow> ('h, 'v, 'u) http \<Rightarrow> config \<Rightarrow> ip_addr \<Rightarrow> ('h, 'u) service" where
  "connection_service bp L started_with remote_ip =
     service_stack bp L (from_secs (overall_timeout_secs (server started_with))) remote_ip"

datatype server_end = Shut_Down_Gracefully | Server_Error | Drain_Timeout_Exceeded

definition server_result :: "bool \<Rightarrow> server_end" where
  "server_result ok = (if ok then Shut_Down_Gracefully else Server_Error)"

text \<open>The \<open>select!\<close> of \<open>start_server\<close>: the server's future against the shutdown signal followed by
  the drain timeout.\<close>

definition draining_server :: "duration \<Rightarrow> ('h, 'u, server_end) app_task" where
  "draining_server drain_timeout =
     bind (timeout drain_timeout (await Drain draining Return)) (\<lambda>r.
       case r of
         Some ok \<Rightarrow> Return (server_result ok)
       | None \<Rightarrow> Return Drain_Timeout_Exceeded)"

definition serving_server :: "duration \<Rightarrow> ('h, 'u, server_end) app_task" where
  "serving_server drain_timeout =
     await Serve serving (\<lambda>result.
       case result of
         Some ok \<Rightarrow> Return (server_result ok)
       | None \<Rightarrow> draining_server drain_timeout)"

definition start_server :: "('h, 'u, server_end) app_task" where
  "start_server =
     load app_config (\<lambda>cfg. serving_server (from_secs (drain_timeout_secs (server cfg))))"

text \<open>The metrics endpoint answers every request with the rendered registry; \<open>encode\<close> is the
  prometheus text encoder.\<close>

definition metrics_service ::
    "('h, 'v, 'u) http \<Rightarrow> (string list \<Rightarrow> sample list \<Rightarrow> string) \<Rightarrow> ('h, 'u) service" where
  "metrics_service L encode req =
     load (\<lambda>s. render encode (app_metrics s)) (\<lambda>body.
       Return \<lparr>status = 200,
               resp_headers = hdr_insert L (no_headers L) ''content-type''
                 (value_from_static L ''text/plain; version=0.0.4''),
               resp_body = body\<rparr>)"

datatype os_signal = SIGINT | SIGTERM | SIGHUP

text \<open>\<open>shutdown_signal\<close> on unix: it resolves at the first of these.\<close>

definition shutdown_signal :: "os_signal \<Rightarrow> bool" where
  "shutdown_signal sig = (sig = SIGINT \<or> sig = SIGTERM)"

section \<open>Start-up\<close>

text \<open>What makes a running server stop: nothing, a signal, or the handle a test holds, whether it is
  used or dropped.\<close>

datatype shutdown_trigger = Never | On_Signal | On_Handle

record ('h, 'u, 'addr) running =
  run_state :: app_state
  run_addr :: 'addr
  run_tasks :: "('h, 'u, unit) app_task list"
  run_trigger :: shutdown_trigger
  run_metrics_addr :: "'addr option"

text \<open>\<open>bound\<close> is the outcome of binding to port 0 of the loopback address; \<open>background\<close> says what is
  left open in the background tasks: the build profile, the set's order, the rounds considered.\<close>

definition build_proxy ::
    "(app_state \<Rightarrow> ('h, 'u, unit) app_task option) \<Rightarrow> 'addr option \<Rightarrow> shutdown_trigger \<Rightarrow> config \<Rightarrow>
     ('h, 'u, 'addr) running outcome" where
  "build_proxy checker bound trigger cfg =
     outcome_bind (some_or_panic bound) (\<lambda>addr.
     outcome_bind (new_app_state cfg) (\<lambda>s.
       Val \<lparr>run_state = s, run_addr = addr,
            run_tasks = (case checker s of None \<Rightarrow> [] | Some t \<Rightarrow> [t]),
            run_trigger = trigger, run_metrics_addr = None\<rparr>))"

definition start_proxy_with_config ::
    "(app_state \<Rightarrow> ('h, 'u, unit) app_task option) \<Rightarrow> 'addr option \<Rightarrow> config \<Rightarrow> ('h, 'u, 'addr) running outcome" where
  "start_proxy_with_config checker bound cfg = build_proxy checker bound Never cfg"

definition start_proxy_with_shutdown ::
    "(app_state \<Rightarrow> ('h, 'u, unit) app_task option) \<Rightarrow> 'addr option \<Rightarrow> config \<Rightarrow> ('h, 'u, 'addr) running outcome" where
  "start_proxy_with_shutdown checker bound cfg = build_proxy checker bound On_Handle cfg"

definition test_config :: config where
  "test_config =
     \<lparr>server =
        \<lparr>bind_addr = ''127.0.0.1:8080'', request_timeout_secs = 2, max_retries = 5,
         failure_threshold = 3, health_cooldown_secs = 30, health_check = None,
         retry_backoff_ms = 10, retry_budget_percent = Fin 20, retry_budget_window_secs = 10,
         metrics_bind = None, overall_timeout_secs = 30, rate_limit = None,
         drain_timeout_secs = 30, pool_idle_timeout_secs = 90, pool_max_idle_per_host = 32\<rparr>,
      routes =
        [\<lparr>rc_prefix = ''/'', rc_upstream = [''http://127.0.0.1:9001'', ''http://127.0.0.1:9002''],
          rc_strategy = default_strategy, rc_weights = None\<rparr>]\<rparr>"

definition start_proxy_for_test ::
    "(app_state \<Rightarrow> ('h, 'u, unit) app_task option) \<Rightarrow> 'addr option \<Rightarrow> ('h, 'u, 'addr) running outcome" where
  "start_proxy_for_test checker bound = start_proxy_with_config checker bound test_config"

record 'addr os =
  read_file :: "string \<Rightarrow> string option"
  parse_socket_addr :: "string \<Rightarrow> 'addr option"
  bind_listener :: "'addr \<Rightarrow> bool"

datatype main_error =
    Config_Unreadable
  | Config_Invalid
  | Bind_Address_Invalid
  | Bind_Failed
  | Metrics_Address_Invalid
  | Metrics_Bind_Failed

definition start_metrics :: "'addr os \<Rightarrow> string option \<Rightarrow> main_error + 'addr option" where
  "start_metrics os metrics_bind_text =
     (case metrics_bind_text of
        None \<Rightarrow> Inr None
      | Some b \<Rightarrow>
          (case parse_socket_addr os b of
             None \<Rightarrow> Inl Metrics_Address_Invalid
           | Some addr \<Rightarrow> if bind_listener os addr then Inr (Some addr) else Inl Metrics_Bind_Failed))"

text \<open>\<open>main\<close> up to \<open>start_server\<close>: every \<open>?\<close> is an error, in the order of the program.\<close>

definition main_start ::
    "(app_state \<Rightarrow> ('h, 'u, unit) app_task option) \<Rightarrow> ('h, 'u, unit) app_task \<Rightarrow> 'addr os \<Rightarrow>
     (string \<Rightarrow> config option) \<Rightarrow> (main_error + ('h, 'u, 'addr) running) outcome" where
  "main_start checker reloader os parse =
     (case read_file os ''config.yaml'' of
        None \<Rightarrow> Val (Inl Config_Unreadable)
      | Some config_str \<Rightarrow>
     (case parse config_str of
        None \<Rightarrow> Val (Inl Config_Invalid)
      | Some cfg \<Rightarrow>
     (case parse_socket_addr os (bind_addr (server cfg)) of
        None \<Rightarrow> Val (Inl Bind_Address_Invalid)
      | Some addr \<Rightarrow>
          outcome_bind (new_app_state cfg) (\<lambda>s.
          if \<not> bind_listener os addr then Val (Inl Bind_Failed)
          else
            let background = (case checker s of None \<Rightarrow> [] | Some t \<Rightarrow> [t]) @ [reloader] in
            case start_metrics os (metrics_bind (server (app_config s))) of
              Inl e \<Rightarrow> Val (Inl e)
            | Inr metrics_addr \<Rightarrow>
                Val (Inr \<lparr>run_state = s, run_addr = addr, run_tasks = background,
                          run_trigger = On_Signal, run_metrics_addr = metrics_addr\<rparr>)))))"

lemmas server_tasks = start_server_def serving_server_def draining_server_def task_ops

lemma new_app_state_Val: "\<exists>s. new_app_state cfg = Val s \<and> app_config s = cfg"
  using metrics_new_Val by (auto simp: new_app_state_def Let_def)

section \<open>Properties\<close>


text \<open>Property C37. The server stops in bounded time: while it serves no deadline is armed, and once it
  drains the only other way out than its own end is the drain timeout of the configuration it was
  started with, which ends it at once. No reload while it runs changes that timeout.\<close>

theorem server_drains:
  assumes "final start_server ((s, Go e) # w) = Await q c ds"
  shows "q = Serve \<and> ds = [] \<or>
    q = Drain \<and> ds = [(from_secs (drain_timeout_secs (server (app_config s))), Return Drain_Timeout_Exceeded)]"
proof -
  let ?d = "from_secs (drain_timeout_secs (server (app_config s)))"
  have first: "final start_server ((s, Go e) # w) = final (serving_server ?d) w"
    by (simp add: start_server_def load_def final_def split: prod.split)
  have "Await q c ds \<in> {serving_server ?d, draining_server ?d} \<union> range Return"
    unfolding assms [symmetric] first
  proof (rule final_in)
    fix s' ch t ob t'
    assume "t \<in> {serving_server ?d, draining_server ?d} \<union> range Return" and "advance s' ch t = Some (ob, t')"
    then show "t' \<in> {serving_server ?d, draining_server ?d} \<union> range Return"
      by (cases ch) (auto simp: server_tasks split: option.splits if_splits)
  qed simp
  then show ?thesis by (auto simp: server_tasks)
qed

definition demo_server_task :: "(string \<Rightarrow> string option, string \<times> string, server_end) app_task" where
  "demo_server_task = start_server"

theorem server_drains_witness:
  "\<exists>c. final demo_server_task [go, go] = Await Drain c [(from_secs 30, Return Drain_Timeout_Exceeded)]"
proof -
  obtain c ds where f: "final demo_server_task [go, go] = Await Drain c ds"
    by (simp add: demo_server_task_def server_tasks final_def demo_reading_def)
  from server_drains [OF f [unfolded demo_server_task_def]] f show ?thesis
    by (simp add: demo_server demo_server_def demo_state_simps)
qed

end
