(* ===== verification/Secure.thy ===== *)
theory Secure
  imports Task
begin

text \<open>
  A second logic for tasks: invariants of the shared state that only hold from some moment on, such
  as the presence of a table a task has loaded.
\<close>

section \<open>Tasks that keep an invariant\<close>

text \<open>
  \<open>secure ok R t Q s\<close>: from \<open>s\<close> on, whatever the other tasks do as long as they only move the state
  along \<open>R\<close>, and whatever deadline passes, the task moves the state along \<open>R\<close> itself, never panics,
  and returns only what \<open>Q\<close> accepts. Unlike a monitor it may use that an earlier state is still
  related to a later one.
\<close>

primrec secure :: "('e \<Rightarrow> bool) \<Rightarrow> ('s \<Rightarrow> 's \<Rightarrow> bool) \<Rightarrow> ('s, 'q, 'e, 'a) task \<Rightarrow> ('s \<Rightarrow> 'a \<Rightarrow> bool) \<Rightarrow> 's \<Rightarrow> bool" where
  "secure ok R (Return a) = (\<lambda>Q s. Q s a)"
| "secure ok R (Abort p) = (\<lambda>Q s. False)"
| "secure ok R (Atomic u c) = (\<lambda>Q s. \<forall>e s'. ok e \<longrightarrow> R s s' \<longrightarrow> R s' (u e s') \<and> secure ok R (c e s') Q (u e s'))"
| "secure ok R (Await q c ds) = (\<lambda>Q s. (\<forall>e. ok e \<longrightarrow> secure ok R (c e) Q s) \<and>
     list_all (\<lambda>(d, holds). holds Q s) (map (map_prod id (secure ok R)) ds))"

lemma secure_Await [simp]:
  "secure ok R (Await q c ds) Q s \<longleftrightarrow>
     (\<forall>e. ok e \<longrightarrow> secure ok R (c e) Q s) \<and> (\<forall>(d, t) \<in> set ds. secure ok R t Q s)"
  by (simp add: list_all_iff case_prod_beta)

declare secure.simps(4) [simp del]

lemma secure_mono: "secure ok R t Q s \<Longrightarrow> (\<And>s a. Q s a \<Longrightarrow> Q' s a) \<Longrightarrow> secure ok R t Q' s"
proof (induction t arbitrary: s rule: task_induct)
  case (Await q c ds)
  have "\<forall>(d, t) \<in> set ds. secure ok R t Q' s" using Await.prems Await.IH(2) by fastforce
  moreover have "\<forall>e. ok e \<longrightarrow> secure ok R (c e) Q' s" using Await.prems Await.IH(1) by (metis secure_Await)
  ultimately show ?case by simp
qed (simp, simp, fastforce)

lemma secure_bind: "secure ok R (bind t k) Q s \<longleftrightarrow> secure ok R t (\<lambda>s a. secure ok R (k a) Q s) s"
proof (induction t arbitrary: s rule: task_induct)
  case (Await q c ds)
  have "(\<forall>(d, t) \<in> set (map (map_prod id (\<lambda>t. bind t k)) ds). secure ok R t Q s) \<longleftrightarrow>
      (\<forall>(d, t) \<in> set ds. secure ok R t (\<lambda>s a. secure ok R (k a) Q s) s)"
    using Await.IH(2) by (fastforce simp: image_iff)
  then show ?case using Await.IH(1) by simp
qed simp_all

lemma secure_timeout:
  assumes "secure ok R t (\<lambda>s a. Q s (Some a)) s" and "\<And>s. Q s None"
  shows "secure ok R (timeout d t) Q s"
  using assms(1)
proof (induction t arbitrary: s rule: task_induct)
  case (Await q c ds)
  then have "\<forall>(d', t) \<in> set (map (map_prod id (timeout d)) ds @ [(d, Return None)]). secure ok R t Q s"
    using assms(2) by fastforce
  moreover have "\<forall>e. ok e \<longrightarrow> secure ok R (timeout d (c e)) Q s" using Await by simp
  ultimately show ?case by simp
qed (simp, simp, fastforce)

text \<open>States move along a relation that is transitive, and reflexive where it leads.\<close>

locale evolution =
  fixes ok :: "'e \<Rightarrow> bool" and R :: "'s \<Rightarrow> 's \<Rightarrow> bool"
  assumes trans: "R s s' \<Longrightarrow> R s' s'' \<Longrightarrow> R s s''"
    and stays: "R s s' \<Longrightarrow> R s' s'"
begin

lemma secure_later:
  assumes "secure ok R t Q s" and "R s s'" and "\<And>s s' a. Q s a \<Longrightarrow> R s s' \<Longrightarrow> Q s' a"
  shows "secure ok R t Q s'"
  using assms(1,2)
proof (induction t arbitrary: s s' rule: task_induct)
  case (Return a)
  then show ?case using assms(3) by simp
next
  case (Atomic u c)
  have "R s s''" if "R s' s''" for s'' by (rule trans [OF Atomic.prems(2) that])
  then show ?case using Atomic.prems(1) by simp
next
  case (Await q c ds)
  have "\<forall>(d, t) \<in> set ds. secure ok R t Q s'" using Await.prems Await.IH(2) by fastforce
  moreover have "\<forall>e. ok e \<longrightarrow> secure ok R (c e) Q s'" using Await.prems Await.IH(1) by (metis secure_Await)
  ultimately show ?case by simp
qed simp

lemma secure_ops:
  "(\<And>e s'. ok e \<Longrightarrow> R s s' \<Longrightarrow> secure ok R (k (f e)) Q s') \<Longrightarrow> secure ok R (given f k) Q s"
  "(\<And>e s'. ok e \<Longrightarrow> R s s' \<Longrightarrow> secure ok R (k (g s')) Q s') \<Longrightarrow> secure ok R (load g k) Q s"
  "(\<And>e s'. ok e \<Longrightarrow> R s s' \<Longrightarrow> R s' (h s') \<and> secure ok R t Q (h s')) \<Longrightarrow> secure ok R (update h t) Q s"
  "(\<And>e s'. ok e \<Longrightarrow> R s s' \<Longrightarrow> R s' (fst (c e s')) \<and>
      (\<exists>v. snd (c e s') = Val v \<and> secure ok R (l v) Q (fst (c e s')))) \<Longrightarrow> secure ok R (call c l) Q s"
  "(\<And>e. ok e \<Longrightarrow> secure ok R (k' (f e)) Q s) \<Longrightarrow> secure ok R (await q f k') Q s"
proof -
  assume c: "\<And>e s'. ok e \<Longrightarrow> R s s' \<Longrightarrow> R s' (fst (c e s')) \<and>
      (\<exists>v. snd (c e s') = Val v \<and> secure ok R (l v) Q (fst (c e s')))"
  show "secure ok R (call c l) Q s" using c by (fastforce simp: task_ops)
qed (auto simp: task_ops dest: stays)

lemma secure_fine: "secure ok R t Q s \<Longrightarrow> R s s \<Longrightarrow> secure ok R t (\<lambda>s a. Q s a \<and> R s s) s"
proof (induction t arbitrary: s rule: task_induct)
  case (Atomic u c)
  have "R (u e s') (u e s')" if "ok e" "R s s'" for e s'
    using stays Atomic.prems(1) that by auto
  then show ?case using Atomic.prems(1) Atomic.IH by simp
next
  case (Await q c ds)
  have "\<forall>(d, t) \<in> set ds. secure ok R t (\<lambda>s a. Q s a \<and> R s s) s" using Await.prems Await.IH(2) by fastforce
  then show ?case using Await.prems Await.IH(1) by simp
qed simp_all

lemma secure_advance:
  assumes "secure ok R t (\<lambda>s a. True) s" and "R s s" and "choice_ok ok True ch" and "advance s ch t = Some (ob, t')"
  shows "R s (case ob of Effect s0 s' \<Rightarrow> s' | Ask q \<Rightarrow> s) \<and>
    secure ok R t' (\<lambda>s a. True) (case ob of Effect s0 s' \<Rightarrow> s' | Ask q \<Rightarrow> s)"
  using assms
proof (cases "(s, ch, t)" rule: advance.cases)
  case (3 s i q c ds)
  then have "(fst (ds ! i), t') \<in> set ds" using assms(4) by (auto split: if_splits)
  with 3 assms show ?thesis by (fastforce split: if_splits)
qed auto

text \<open>One step of a list of secure tasks keeps them all secure.\<close>

lemma secure_step:
  assumes "\<forall>t \<in> set ts. secure ok R t (\<lambda>s a. True) s" and "R s s" and "choice_ok ok True ch"
    and "i < length ts" and "advance s ch (ts ! i) = Some (ob, t)"
  shows "R s (case ob of Effect s0 s' \<Rightarrow> s' | Ask q \<Rightarrow> s) \<and>
    (\<forall>t' \<in> set (ts[i := t]). secure ok R t' (\<lambda>s a. True) (case ob of Effect s0 s' \<Rightarrow> s' | Ask q \<Rightarrow> s))"
proof -
  let ?s = "case ob of Effect s0 s' \<Rightarrow> s' | Ask q \<Rightarrow> s"
  have "secure ok R (ts ! i) (\<lambda>s a. True) s" using assms(1,4) by simp
  note new = secure_advance [OF this assms(2,3,5)]
  have "secure ok R t' (\<lambda>s a. True) ?s" if "t' \<in> set ts" for t'
    by (rule secure_later) (use assms(1) that new in auto)
  with new show ?thesis by (auto dest!: set_update_subset_insert [THEN subsetD])
qed

end

lemma secure_not_Abort: "secure ok R t Q s \<Longrightarrow> t \<noteq> Abort p"
  by auto

end
