(* ===== verification/State_Invariant.thy ===== *)
theory State_Invariant
  imports Server Secure
begin

text \<open>
  The invariant of the shared state, and that every access of the program to it keeps the invariant
  and does not panic.
\<close>

section \<open>The invariant\<close>

definition route_ok :: "route \<Rightarrow> bool" where
  "route_ok r \<longleftrightarrow> upstreams r \<noteq> [] \<and> (\<exists>m. lb_ok (balancer r) (length (upstreams r)) m)"

text \<open>Retry settings whose arithmetic fits: \<open>max_retries + 1\<close>, the shift and the delay with its jitter.\<close>

definition retry_bounds :: "config \<Rightarrow> bool" where
  "retry_bounds c \<longleftrightarrow> unat (max_retries (server c)) \<le> 32 \<and> unat (retry_backoff_ms (server c)) \<le> 2 ^ 31"

definition state_ok :: "u32 \<Rightarrow> duration \<Rightarrow> app_state \<Rightarrow> bool" where
  "state_ok thr win s \<longleftrightarrow>
     router_ref s < length (router_heap s) \<and>
     (\<forall>table \<in> set (router_heap s). list_all route_ok (router_routes table)) \<and>
     retry_bounds (app_config s) \<and>
     (\<exists>b. breaker_rel thr (h_cooldown (health s)) (health s) b) \<and>
     \<not> rb_poisoned (budget s) \<and> rb_window (budget s) = win \<and>
     metrics_ok (app_metrics s) \<and> \<not> rl_poisoned (limiter s)"

text \<open>Tables are only added, and an installed table keeps its routes and their upstreams.\<close>

definition table_shape :: "router \<Rightarrow> (string \<times> string list) list" where
  "table_shape table = map (\<lambda>r. (route_prefix r, upstreams r)) (router_routes table)"

definition moves :: "u32 \<Rightarrow> duration \<Rightarrow> app_state \<Rightarrow> app_state \<Rightarrow> bool" where
  "moves thr win s s' \<longleftrightarrow> state_ok thr win s' \<and> prefix (map table_shape (router_heap s)) (map table_shape (router_heap s'))"

text \<open>Readings of a clock that is far enough from its lower end.\<close>

definition live :: "duration \<Rightarrow> 'h reading \<Rightarrow> bool" where
  "live win e \<longleftrightarrow> reading_ok e \<and> (\<forall>i. sweepable (clk e i) \<and> instant_min \<le> clk e i - int win)"

interpretation moves: evolution "live win" "moves thr win" for thr win
  by unfold_locales (auto simp: moves_def intro: prefix_order.trans)

lemma live_simps:
  "live win e \<Longrightarrow> random_upto e n \<le> n" "live win e \<Longrightarrow> header_text (fresh_uuid e)"
  "live win e \<Longrightarrow> sweepable (clk e i)" "live win e \<Longrightarrow> instant_min \<le> clk e i - int win"
  by (auto simp: live_def reading_ok_def)

section \<open>The accesses\<close>

text \<open>An access that leaves the heap alone moves the state if it keeps its component in order.\<close>

lemma moves_put:
  assumes "moves thr win s s'"
  shows "breaker_rel thr (h_cooldown (health s')) h b \<Longrightarrow> moves thr win s' (s'\<lparr>health := h\<rparr>)"
    and "\<not> rb_poisoned bu \<Longrightarrow> rb_window bu = win \<Longrightarrow> moves thr win s' (s'\<lparr>budget := bu\<rparr>)"
    and "metrics_ok m \<Longrightarrow> moves thr win s' (s'\<lparr>app_metrics := m\<rparr>)"
    and "\<not> rl_poisoned l \<Longrightarrow> moves thr win s' (s'\<lparr>limiter := l\<rparr>)"
    and "moves thr win s' (s'\<lparr>request_log := ls\<rparr>)"
    and "retry_bounds c \<Longrightarrow> moves thr win s' (s'\<lparr>app_config := c\<rparr>)"
proof -
  have ok: "state_ok thr win s'" using assms by (simp add: moves_def)
  show "moves thr win s' (s'\<lparr>health := h\<rparr>)" if "breaker_rel thr (h_cooldown (health s')) h b"
    using ok that breaker_rel_frame [OF that] by (auto simp: moves_def state_ok_def)
qed (use assms in \<open>auto simp: moves_def state_ok_def\<close>)

lemma health_access:
  assumes "moves thr win s s'" and "thr \<noteq> -1"
  shows "moves thr win s' (fst (on_health (\<lambda>e h. is_healthy (clk e 0) h u) e s')) \<and>
      (\<exists>v. snd (on_health (\<lambda>e h. is_healthy (clk e 0) h u) e s') = Val v)"
    and "moves thr win s' (fst (on_health (\<lambda>e h. record_success h u) e s')) \<and>
      snd (on_health (\<lambda>e h. record_success h u) e s') = Val ()"
    and "moves thr win s' (fst (on_health (\<lambda>e h. record_failure bp (clk e 0) h u) e s')) \<and>
      snd (on_health (\<lambda>e h. record_failure bp (clk e 0) h u) e s') = Val ()"
proof -
  obtain b where b: "breaker_rel thr (h_cooldown (health s')) (health s') b"
    using assms(1) by (auto simp: moves_def state_ok_def)
  note step = breaker_step_rel [OF assms(2) b] and put = moves_put(1) [OF assms(1)]
  show "moves thr win s' (fst (on_health (\<lambda>e h. is_healthy (clk e 0) h u) e s')) \<and>
      (\<exists>v. snd (on_health (\<lambda>e h. is_healthy (clk e 0) h u) e s') = Val v)"
    using step [of bp "Query u (clk e 0)"] by (auto simp: on_health_def case_prod_beta intro: put split: if_splits)
  show "moves thr win s' (fst (on_health (\<lambda>e h. record_success h u) e s')) \<and>
      snd (on_health (\<lambda>e h. record_success h u) e s') = Val ()"
    using step [of bp "Succeed u"] by (auto simp: on_health_def case_prod_beta intro: put)
  show "moves thr win s' (fst (on_health (\<lambda>e h. record_failure bp (clk e 0) h u) e s')) \<and>
      snd (on_health (\<lambda>e h. record_failure bp (clk e 0) h u) e s') = Val ()"
    using step [of bp "Fail u (clk e 0)"] by (auto simp: on_health_def case_prod_beta intro: put)
qed

lemma allow_retry_Val:
  assumes "instant_min \<le> now - int (rb_window rb)" and "\<not> rb_poisoned rb"
  shows "\<exists>rb' v. allow_retry now now' rb = (rb', Val v) \<and> \<not> rb_poisoned rb' \<and> rb_window rb' = rb_window rb"
  using assms by (auto simp: allow_retry_def instant_sub_def Let_def)

lemma budget_access:
  assumes "moves thr win s s'" and "live win e"
  shows "moves thr win s' (fst (on_budget (\<lambda>e. record_request (clk e 0)) e s')) \<and>
      snd (on_budget (\<lambda>e. record_request (clk e 0)) e s') = Val ()"
    and "moves thr win s' (fst (on_budget (\<lambda>e. allow_retry (clk e 0) (clk e 1)) e s')) \<and>
      (\<exists>v. snd (on_budget (\<lambda>e. allow_retry (clk e 0) (clk e 1)) e s') = Val v)"
proof -
  have b: "\<not> rb_poisoned (budget s')" "rb_window (budget s') = win"
    using assms(1) by (simp_all add: moves_def state_ok_def)
  note put = moves_put(2) [OF assms(1)]
  show "moves thr win s' (fst (on_budget (\<lambda>e. record_request (clk e 0)) e s')) \<and>
      snd (on_budget (\<lambda>e. record_request (clk e 0)) e s') = Val ()"
    using b by (simp add: on_budget_def record_request_def put)
  have "instant_min \<le> clk e 0 - int (rb_window (budget s'))" using live_simps(4) [OF assms(2)] b by simp
  from allow_retry_Val [OF this b(1), of "clk e 1"] obtain rb' v
    where r: "allow_retry (clk e 0) (clk e 1) (budget s') = (rb', Val v)" "\<not> rb_poisoned rb'"
      "rb_window rb' = win" using b(2) by auto
  show "moves thr win s' (fst (on_budget (\<lambda>e. allow_retry (clk e 0) (clk e 1)) e s')) \<and>
      (\<exists>v. snd (on_budget (\<lambda>e. allow_retry (clk e 0) (clk e 1)) e s') = Val v)"
    using put [OF r(2,3)] r(1) by (simp add: on_budget_def)
qed

lemma metrics_access:
  assumes "moves thr win s s'"
  shows "moves thr win s' (fst (on_metrics (inc vec labels) e s'))"
    and "moves thr win s' (fst (on_metrics (observe vec labels x) e s'))"
    and "metrics_ok (app_metrics s')"
proof -
  show ok: "metrics_ok (app_metrics s')" using assms by (simp add: moves_def state_ok_def)
  show "moves thr win s' (fst (on_metrics (inc vec labels) e s'))"
    and "moves thr win s' (fst (on_metrics (observe vec labels x) e s'))"
    using ok by (simp_all add: on_metrics_def inc_def observe_def moves_put(3) [OF assms] moves.stays [OF assms])
qed

lemma limiter_access:
  assumes "moves thr win s s'" and "live win e"
  shows "moves thr win s' (fst (on_limiter (\<lambda>e l. (l\<lparr>cleanup_counter := cleanup_counter l + 1\<rparr>, Val (cleanup_counter l))) e s'))"
    and "moves thr win s' (fst (on_limiter (\<lambda>e. cleanup (clk e 0)) e s')) \<and>
      snd (on_limiter (\<lambda>e. cleanup (clk e 0)) e s') = Val ()"
    and "moves thr win s' (fst (on_limiter (\<lambda>e l. acquire_for (clk e 0) (clk e 1) l ip) e s')) \<and>
      (\<exists>v. snd (on_limiter (\<lambda>e l. acquire_for (clk e 0) (clk e 1) l ip) e s') = Val v)"
proof -
  have np: "\<not> rl_poisoned (limiter s')" using assms(1) by (simp add: moves_def state_ok_def)
  note put = moves_put(4) [OF assms(1)]
  show "moves thr win s' (fst (on_limiter (\<lambda>e l. (l\<lparr>cleanup_counter := cleanup_counter l + 1\<rparr>, Val (cleanup_counter l))) e s'))"
    using np by (simp add: on_limiter_def put)
  show "moves thr win s' (fst (on_limiter (\<lambda>e. cleanup (clk e 0)) e s')) \<and>
      snd (on_limiter (\<lambda>e. cleanup (clk e 0)) e s') = Val ()"
    using np by (simp add: on_limiter_def cleanup_Val [OF live_simps(3) [OF assms(2)] np] put)
  obtain b r where "acquire_for (clk e 0) (clk e 1) (limiter s') ip = ((limiter s')\<lparr>buckets := (buckets (limiter s'))(ip \<mapsto> b)\<rparr>, Val r)"
    using acquire_for_Val [OF np] by blast
  then show "moves thr win s' (fst (on_limiter (\<lambda>e l. acquire_for (clk e 0) (clk e 1) l ip) e s')) \<and>
      (\<exists>v. snd (on_limiter (\<lambda>e l. acquire_for (clk e 0) (clk e 1) l ip) e s') = Val v)"
    using np by (simp add: on_limiter_def put)
qed

section \<open>Tables and their balancers\<close>

text \<open>Route \<open>r\<close> of the table \<open>rid\<close> is there and has the upstreams \<open>us\<close>.\<close>

definition serves :: "nat \<Rightarrow> nat \<Rightarrow> string list \<Rightarrow> app_state \<Rightarrow> bool" where
  "serves rid r us s \<longleftrightarrow>
     rid < length (router_heap s) \<and> r < length (router_routes (router_heap s ! rid)) \<and>
     upstreams (router_routes (router_heap s ! rid) ! r) = us"

lemma serves_later:
  assumes "serves rid r us s" and "moves thr win s s'"
  shows "serves rid r us s'"
proof -
  obtain zs where zs: "map table_shape (router_heap s') = map table_shape (router_heap s) @ zs"
    using assms(2) by (auto simp: moves_def prefix_def)
  then have len: "length (router_heap s) \<le> length (router_heap s')"
    by (metis length_append length_map le_add1)
  have "table_shape (router_heap s' ! rid) = map table_shape (router_heap s') ! rid"
    using assms(1) len by (simp add: serves_def)
  also have "\<dots> = table_shape (router_heap s ! rid)"
    using assms(1) unfolding zs by (simp add: serves_def nth_append)
  finally have shape: "table_shape (router_heap s' ! rid) = table_shape (router_heap s ! rid)" .
  then have n: "length (router_routes (router_heap s' ! rid)) = length (router_routes (router_heap s ! rid))"
    unfolding table_shape_def by (metis length_map)
  have "table_shape (router_heap s' ! rid) ! r = table_shape (router_heap s ! rid) ! r" by (simp add: shape)
  with assms(1) len n show ?thesis by (simp add: serves_def table_shape_def)
qed

lemma serves_route_ok:
  assumes "moves thr win s s'" and "serves rid r us s'"
  shows "us \<noteq> []" and "\<exists>m. lb_ok (the_balancer rid r s') (length us) m"
proof -
  have "route_ok (router_routes (router_heap s' ! rid) ! r)"
    using assms by (auto simp: moves_def state_ok_def serves_def list_all_length)
  with assms(2) show "us \<noteq> []" and "\<exists>m. lb_ok (the_balancer rid r s') (length us) m"
    by (auto simp: route_ok_def serves_def the_balancer_def)
qed

lemma moves_balancer:
  assumes "moves thr win s s'" and "serves rid r us s'" and "lb_ok b (length us) m"
  shows "moves thr win s' (set_balancer rid r b s')"
proof -
  let ?t = "router_heap s' ! rid"
  let ?r = "(router_routes ?t ! r)\<lparr>balancer := b\<rparr>"
  let ?t' = "?t\<lparr>router_routes := (router_routes ?t)[r := ?r]\<rparr>"
  have heap: "router_heap (set_balancer rid r b s') = (router_heap s')[rid := ?t']"
    by (simp add: set_balancer_def)
  have rid: "rid < length (router_heap s')" and r: "r < length (router_routes ?t)" and us: "upstreams (router_routes ?t ! r) = us"
    using assms(2) by (simp_all add: serves_def)
  have ok: "state_ok thr win s'" using assms(1) by (simp add: moves_def)
  have tables: "\<forall>table \<in> set (router_heap s'). list_all route_ok (router_routes table)"
    using ok by (simp add: state_ok_def)
  have "route_ok ?r" using assms(3) serves_route_ok(1) [OF assms(1,2)] us by (auto simp: route_ok_def)
  moreover have "list_all route_ok (router_routes ?t)" using tables rid by simp
  ultimately have "list_all route_ok (router_routes ?t')"
    using r by (auto simp: list_all_iff dest!: set_update_subset_insert [THEN subsetD])
  with tables have all: "\<forall>table \<in> set ((router_heap s')[rid := ?t']). list_all route_ok (router_routes table)"
    by (auto dest!: set_update_subset_insert [THEN subsetD])
  have "state_ok thr win (set_balancer rid r b s')"
    using ok all by (simp add: state_ok_def heap)
  moreover have "map table_shape ((router_heap s')[rid := ?t']) = map table_shape (router_heap s')"
  proof -
    have "table_shape ?t' = table_shape ?t"
      using r by (simp add: table_shape_def map_update list_update_same_conv)
    then show ?thesis using rid by (simp add: map_update list_update_same_conv)
  qed
  ultimately show ?thesis by (simp add: moves_def heap)
qed

lemma balancer_access:
  assumes "moves thr win s s'" and "serves rid r us s'"
  shows "moves thr win s' (fst (on_balancer rid r (\<lambda>b. lb_next_index_for_key b (length us) key) e s'))"
    and "\<exists>i. snd (lb_next_index_for_key (the_balancer rid r s') (length us) key) = Val i"
    and "moves thr win s' (fst (on_balancer rid r (\<lambda>b. (lb_record_start b i, Val ())) e s'))"
    and "moves thr win s' (fst (on_balancer rid r (\<lambda>b. (lb_record_done b i, Val ())) e s'))"
proof -
  obtain m where ok: "lb_ok (the_balancer rid r s') (length us) m"
    using serves_route_ok(2) [OF assms] by blast
  note put = moves_balancer [OF assms]
  show "moves thr win s' (fst (on_balancer rid r (\<lambda>b. lb_next_index_for_key b (length us) key) e s'))"
    using put [OF lb_next_ok [OF ok]] by (simp add: on_balancer_def case_prod_beta)
  show "moves thr win s' (fst (on_balancer rid r (\<lambda>b. (lb_record_start b i, Val ())) e s'))"
    "moves thr win s' (fst (on_balancer rid r (\<lambda>b. (lb_record_done b i, Val ())) e s'))"
    using put [OF lb_record_ok(1) [OF ok]] put [OF lb_record_ok(2) [OF ok]] by (simp_all add: on_balancer_def)
  show "\<exists>i. snd (lb_next_index_for_key (the_balancer rid r s') (length us) key) = Val i"
    using lb_next_in [OF ok] by blast
qed

section \<open>The backoff\<close>

lemma backoff_fits:
  assumes "0 < made" and "made \<le> 32" and "unat base \<le> 2 ^ 31" and "\<forall>n. rnd n \<le> n"
  shows "\<exists>d. backoff_delay bp base made rnd = Val d"
proof -
  let ?f = "push_bit (made - 1) (1 :: u64)"
  have "made - 1 < 64" using assms(2) by simp
  then have "shl_one bp (made - 1) = Val ?f" by (simp only: shl_one_def if_True)
  moreover have "unat (saturating_mul base ?f) \<le> 2 ^ 62"
  proof -
    have "unat ?f \<le> 2 ^ 31"
    proof -
      have "unat ?f = take_bit 64 (2 ^ (made - 1))"
        by (simp only: unsigned_push_bit_eq) (simp add: push_bit_eq_mult)
      also have "\<dots> \<le> 2 ^ (made - 1)" by simp
      also have "\<dots> \<le> (2 :: nat) ^ 31" using assms(2) by (intro power_increasing) simp_all
      finally show ?thesis .
    qed
    with assms(3) have "unat base * unat ?f \<le> 2 ^ 31 * 2 ^ 31" by (rule mult_le_mono)
    then show ?thesis by (simp add: unat_saturating_mul flip: power_add)
  qed
  moreover have "unat (rnd (saturating_mul base ?f div 2)) \<le> unat (saturating_mul base ?f)"
  proof -
    have "unat (rnd (saturating_mul base ?f div 2)) \<le> unat (saturating_mul base ?f div 2)"
      using assms(4) by (simp add: word_le_nat_alt)
    then show ?thesis by (simp add: unat_div)
  qed
  ultimately show ?thesis
    by (auto simp: backoff_delay_def Let_def add_word_def)
qed

end
