(* ===== verification/Safety.thy ===== *)
theory Safety
  imports State_Invariant
begin

text \<open>
  Every task of the program is secure for the invariant: the handler with its layers, the reload
  task, the health checker.
\<close>

section \<open>The tasks\<close>

text \<open>A fact about the state that outlives every move.\<close>

definition lasting :: "u32 \<Rightarrow> duration \<Rightarrow> (app_state \<Rightarrow> bool) \<Rightarrow> bool" where
  "lasting thr win I \<longleftrightarrow>
     (\<forall>s. I s \<longrightarrow> moves thr win s s) \<and> (\<forall>s s'. I s \<longrightarrow> moves thr win s s' \<longrightarrow> I s')"

lemma lastingD:
  "lasting thr win I \<Longrightarrow> I s \<Longrightarrow> moves thr win s s"
  "lasting thr win I \<Longrightarrow> I s \<Longrightarrow> moves thr win s s' \<Longrightarrow> I s'"
  by (auto simp: lasting_def)

lemma lasting_fine: "lasting thr win (\<lambda>s. moves thr win s s)"
  by (auto simp: lasting_def dest: moves.stays)

lemma lasting_serves: "lasting thr win (\<lambda>s. moves thr win s s \<and> serves rid r us s)"
  by (auto simp: lasting_def dest: moves.stays serves_later)

lemma lasting_ops:
  assumes I: "lasting thr win I" "I s"
  shows "(\<And>e s'. live win e \<Longrightarrow> I s' \<Longrightarrow> secure (live win) (moves thr win) (k (f e)) Q s') \<Longrightarrow>
      secure (live win) (moves thr win) (given f k) Q s"
    and "(\<And>s'. I s' \<Longrightarrow> moves thr win s' s' \<Longrightarrow> secure (live win) (moves thr win) (k' (g s')) Q s') \<Longrightarrow>
      secure (live win) (moves thr win) (load g k') Q s"
    and "(\<And>s'. I s' \<Longrightarrow> moves thr win s' s' \<Longrightarrow> moves thr win s' (h s')) \<Longrightarrow>
      (\<And>s'. I s' \<Longrightarrow> secure (live win) (moves thr win) t Q s') \<Longrightarrow>
      secure (live win) (moves thr win) (update h t) Q s"
    and "(\<And>e s'. live win e \<Longrightarrow> I s' \<Longrightarrow> moves thr win s' s' \<Longrightarrow>
        moves thr win s' (fst (c e s')) \<and> (\<exists>v. snd (c e s') = Val v)) \<Longrightarrow>
      (\<And>v s'. I s' \<Longrightarrow> secure (live win) (moves thr win) (l v) Q s') \<Longrightarrow>
      secure (live win) (moves thr win) (call c l) Q s"
    and "(\<And>e s'. live win e \<Longrightarrow> I s' \<Longrightarrow> secure (live win) (moves thr win) (l' (f' e)) Q s') \<Longrightarrow>
      secure (live win) (moves thr win) (await q f' l') Q s"
proof -
  note D = lastingD [OF I(1)] and fine = lastingD(1) [OF I] and stays = moves.stays
  show "secure (live win) (moves thr win) (given f k) Q s"
    if "\<And>e s'. live win e \<Longrightarrow> I s' \<Longrightarrow> secure (live win) (moves thr win) (k (f e)) Q s'"
    by (rule moves.secure_ops(1)) (use that D(2) [OF I(2)] in blast)
  show "secure (live win) (moves thr win) (load g k') Q s"
    if "\<And>s'. I s' \<Longrightarrow> moves thr win s' s' \<Longrightarrow> secure (live win) (moves thr win) (k' (g s')) Q s'"
    by (rule moves.secure_ops(2)) (use that D(2) [OF I(2)] stays in blast)
  show "secure (live win) (moves thr win) (update h t) Q s"
    if "\<And>s'. I s' \<Longrightarrow> moves thr win s' s' \<Longrightarrow> moves thr win s' (h s')"
      "\<And>s'. I s' \<Longrightarrow> secure (live win) (moves thr win) t Q s'"
    by (rule moves.secure_ops(3)) (use that D(2) D(2) [OF I(2)] stays in blast)
  show "secure (live win) (moves thr win) (call c l) Q s"
    if "\<And>e s'. live win e \<Longrightarrow> I s' \<Longrightarrow> moves thr win s' s' \<Longrightarrow>
        moves thr win s' (fst (c e s')) \<and> (\<exists>v. snd (c e s') = Val v)"
      "\<And>v s'. I s' \<Longrightarrow> secure (live win) (moves thr win) (l v) Q s'"
    by (rule moves.secure_ops(4)) (use that D(2) D(2) [OF I(2)] stays in blast)
  show "secure (live win) (moves thr win) (await q f' l') Q s"
    if "\<And>e s'. live win e \<Longrightarrow> I s' \<Longrightarrow> secure (live win) (moves thr win) (l' (f' e)) Q s'"
    by (rule moves.secure_ops(5)) (use that I(2) in blast)
qed

text \<open>The calls of the handler, each with the rest of the task as its continuation.\<close>

lemma metric_calls:
  assumes "moves thr win s s'"
  shows "moves thr win s' (fst (on_metrics (inc requests_total [a, b, c]) e s')) \<and>
      (\<exists>v. snd (on_metrics (inc requests_total [a, b, c]) e s') = Val v)"
    and "moves thr win s' (fst (on_metrics (inc retries_total [a]) e s')) \<and>
      (\<exists>v. snd (on_metrics (inc retries_total [a]) e s') = Val v)"
    and "moves thr win s' (fst (on_metrics (inc errors_total [a, b]) e s')) \<and>
      (\<exists>v. snd (on_metrics (inc errors_total [a, b]) e s') = Val v)"
    and "moves thr win s' (fst (on_metrics (observe request_duration_seconds [a, b] x) e s')) \<and>
      (\<exists>v. snd (on_metrics (observe request_duration_seconds [a, b] x) e s') = Val v)"
  by (simp_all add: metrics_access(1,2) [OF assms] metric_step [OF metrics_access(3) [OF assms]])

lemma secure_unit_calls:
  assumes I: "lasting thr win I" "I s" and thr: "thr \<noteq> -1"
    and k: "\<And>s'. I s' \<Longrightarrow> secure (live win) (moves thr win) (k ()) Q s'"
  shows "secure (live win) (moves thr win) (call (on_health (\<lambda>e h. record_success h u)) k) Q s"
    and "secure (live win) (moves thr win) (call (on_health (\<lambda>e h. record_failure bp (clk e 0) h u)) k) Q s"
    and "secure (live win) (moves thr win) (call (on_budget (\<lambda>e. record_request (clk e 0))) k) Q s"
    and "secure (live win) (moves thr win) (call (on_metrics (inc requests_total [a, b, c])) k) Q s"
    and "secure (live win) (moves thr win) (call (on_metrics (inc retries_total [a])) k) Q s"
    and "secure (live win) (moves thr win) (call (on_metrics (inc errors_total [a, b])) k) Q s"
    and "secure (live win) (moves thr win) (call (on_metrics (observe request_duration_seconds [a, b] x)) k) Q s"
proof -
  have k: "\<And>v s'. I s' \<Longrightarrow> secure (live win) (moves thr win) (k v) Q s'" using k by simp
  note rule = lasting_ops(4) [OF I _ k] and H = health_access [OF _ thr] and B = budget_access
  show "secure (live win) (moves thr win) (call (on_health (\<lambda>e h. record_success h u)) k) Q s"
    by (rule rule) (use H(2) in blast)
  show "secure (live win) (moves thr win) (call (on_health (\<lambda>e h. record_failure bp (clk e 0) h u)) k) Q s"
    by (rule rule) (use H(3) in blast)
  show "secure (live win) (moves thr win) (call (on_budget (\<lambda>e. record_request (clk e 0))) k) Q s"
    by (rule rule) (use B(1) in blast)
  show "secure (live win) (moves thr win) (call (on_metrics (inc requests_total [a, b, c])) k) Q s"
    by (rule rule) (rule metric_calls)
  show "secure (live win) (moves thr win) (call (on_metrics (inc retries_total [a])) k) Q s"
    by (rule rule) (rule metric_calls)
  show "secure (live win) (moves thr win) (call (on_metrics (inc errors_total [a, b])) k) Q s"
    by (rule rule) (rule metric_calls)
  show "secure (live win) (moves thr win) (call (on_metrics (observe request_duration_seconds [a, b] x)) k) Q s"
    by (rule rule) (rule metric_calls)
qed

lemma secure_bool_calls:
  assumes I: "lasting thr win I" "I s" and thr: "thr \<noteq> -1"
    and k: "\<And>v s'. I s' \<Longrightarrow> secure (live win) (moves thr win) (k v) Q s'"
  shows "secure (live win) (moves thr win) (call (on_health (\<lambda>e h. is_healthy (clk e 0) h u)) k) Q s"
    and "secure (live win) (moves thr win) (call (on_budget (\<lambda>e. allow_retry (clk e 0) (clk e 1))) k) Q s"
    and "secure (live win) (moves thr win) (take_token ip k) Q s"
proof -
  note rule = lasting_ops(4) [OF I _ k]
  show "secure (live win) (moves thr win) (call (on_health (\<lambda>e h. is_healthy (clk e 0) h u)) k) Q s"
    by (rule rule) (rule health_access(1) [OF _ thr])
  show "secure (live win) (moves thr win) (call (on_budget (\<lambda>e. allow_retry (clk e 0) (clk e 1))) k) Q s"
    by (rule rule) (use budget_access(2) in blast)
  show "secure (live win) (moves thr win) (take_token ip k) Q s"
    unfolding take_token_def by (rule rule) (use limiter_access(3) in blast)
qed

lemma finish_secure:
  assumes "lasting thr win I" and "thr \<noteq> -1"
  shows "I s \<Longrightarrow> secure (live win) (moves thr win) (finish cx le) (\<lambda>s r. True) s"
  unfolding finish_def Let_def
  by (intro lasting_ops(1) [OF assms(1)] secure_unit_calls(4,7) [OF assms(1) _ assms(2)]) simp_all

lemma failed_secure:
  assumes "lasting thr win I" and "thr \<noteq> -1" and "\<And>s. I s \<Longrightarrow> secure (live win) (moves thr win) t Q s"
  shows "I s \<Longrightarrow> secure (live win) (moves thr win) (failed bp cx u ty t) Q s"
  unfolding failed_def by (intro secure_unit_calls(2,6) [OF assms(1) _ assms(2)] assms(3))

lemma succeed_secure:
  assumes "lasting thr win I" and "thr \<noteq> -1"
  shows "I s \<Longrightarrow> secure (live win) (moves thr win) (succeed cx u resp) (\<lambda>s r. True) s"
  unfolding succeed_def
  by (intro lasting_ops(1) [OF assms(1)] secure_unit_calls(1,4,7) [OF assms(1) _ assms(2)]) simp_all

lemma skip_check_secure:
  assumes "lasting thr win I" and "thr \<noteq> -1" and "\<And>v s. I s \<Longrightarrow> secure (live win) (moves thr win) (k v) Q s"
  shows "I s \<Longrightarrow> secure (live win) (moves thr win) (skip_check cx u k) Q s"
  by (simp add: skip_check_def assms(3) secure_bool_calls(1) [OF assms(1) _ assms(2)])

lemma before_attempt_secure:
  assumes I: "lasting thr win I" and thr: "thr \<noteq> -1"
    and stop: "\<And>s. I s \<Longrightarrow> secure (live win) (moves thr win) t Q s"
    and go: "\<And>s. I s \<Longrightarrow> secure (live win) (moves thr win) t' Q s"
    and bounds: "made \<le> 32" "unat (cx_backoff_ms cx) \<le> 2 ^ 31"
  shows "I s \<Longrightarrow> secure (live win) (moves thr win) (before_attempt bp cx made t t') Q s"
proof -
  have delay: "secure (live win) (moves thr win)
      (unwrap (backoff_delay bp (cx_backoff_ms cx) made (random_upto e))
        (\<lambda>d. await (Sleep (from_millis d)) (\<lambda>_. ()) (\<lambda>_. t'))) Q s"
    if e: "live win e" and s: "I s" and made: "made \<noteq> 0" for e :: "'a reading" and s
  proof -
    obtain d where "backoff_delay bp (cx_backoff_ms cx) made (random_upto e) = Val d"
      using backoff_fits [OF _ bounds, of "random_upto e" bp] made live_simps(1) [OF e] by auto
    then show ?thesis by (simp add: lasting_ops(5) [OF I s] go)
  qed
  show "I s \<Longrightarrow> secure (live win) (moves thr win) (before_attempt bp cx made t t') Q s"
    unfolding before_attempt_def
    by (cases "made = 0") (auto simp: go stop simp del: One_nat_def
        intro!: secure_bool_calls(2) [OF I _ thr] secure_unit_calls(5) [OF I _ thr] lasting_ops(1) [OF I] delay)
qed

lemma forward_secure:
  assumes L: "http_laws L" and I: "lasting thr win I" and id: "header_text request_id"
    and k: "\<And>r s. I s \<Longrightarrow> secure (live win) (moves thr win) (k r) Q s"
  shows "I s \<Longrightarrow> secure (live win) (moves thr win) (bind (forward_once L req u path request_id ip d) k) Q s"
proof -
  assume s: "I s"
  obtain h where "normalize_headers L request_id ip (req_headers req) = Val h"
    using normalize_forwards [OF L id] by blast
  then show ?thesis
    by (auto simp: secure_bind forward_once_def k s intro!: lasting_ops(5) [OF I s] split: option.split reply.split)
qed

lemma attempts_secure:
  assumes L: "http_laws L" and I: "lasting thr win I" and thr: "thr \<noteq> -1"
    and serves: "\<And>s. I s \<Longrightarrow> serves (cx_table cx) (cx_route cx) (cx_upstreams cx) s"
    and id: "header_text (cx_request_id cx)"
    and bounds: "unat (cx_max_attempts cx) \<le> 33" "unat (cx_backoff_ms cx) \<le> 2 ^ 31"
  shows "I s \<Longrightarrow> secure (live win) (moves thr win) (attempts bp L cx offsets made le) (\<lambda>s r. True) s"
proof (induction offsets arbitrary: made le s)
  case Nil
  then show ?case by (simp add: finish_secure [OF I thr])
next
  case (Cons offset offsets)
  have ne: "cx_upstreams cx \<noteq> []"
    using serves_route_ok(1) [OF lastingD(1) [OF I Cons.prems] serves [OF Cons.prems]] .
  obtain u where new: "new_request L cx = Val u"
    using http_root [OF L] by (auto simp: new_request_def some_or_panic_def)
  have mark: "secure (live win) (moves thr win) (call (on_balancer (cx_table cx) (cx_route cx) (\<lambda>b. (f b i, Val ()))) k) (\<lambda>s r. True) s"
    if "f = lb_record_start \<or> f = lb_record_done" "I s" "\<And>s. I s \<Longrightarrow> secure (live win) (moves thr win) (k ()) (\<lambda>s r. True) s"
    for f i k s
    using that(1)
    by (intro lasting_ops(4) [OF I that(2)])
      (auto intro: balancer_access(3,4) serves that(3))
  note finish = finish_secure [OF I thr] and failed = failed_secure [OF I thr Cons.IH]
    and succeed = succeed_secure [OF I thr] and forward = forward_secure [OF L I id]
  have after: "secure (live win) (moves thr win)
      (case result of
         Inr resp \<Rightarrow>
           if is_server_error (status resp)
           then failed bp cx selected ''5xx'' (attempts bp L cx offsets (Suc made) (Some UpstreamFailure))
           else succeed cx selected resp
       | Inl UpstreamFailure \<Rightarrow> failed bp cx selected ''connection'' (attempts bp L cx offsets (Suc made) (Some UpstreamFailure))
       | Inl UpstreamTimeout \<Rightarrow> failed bp cx selected ''timeout'' (attempts bp L cx offsets (Suc made) (Some UpstreamTimeout))
       | Inl e \<Rightarrow> Return (Inl e)) (\<lambda>s r. True) s"
    if "I s" for result selected s
    using failed [OF _ that] succeed [OF that] by (auto split: sum.split proxy_error.split)
  have step: "secure (live win) (moves thr win)
      (skip_check cx selected (\<lambda>skip.
        if skip then attempts bp L cx offsets made le
        else
          before_attempt bp cx made (finish cx le)
          (unwrap (new_request L cx) (\<lambda>new_req.
           call (on_balancer (cx_table cx) (cx_route cx) (\<lambda>b. (lb_record_start b i, Val ()))) (\<lambda>_.
           bind (forward_once L new_req selected (cx_final_path cx) (cx_request_id cx)
                   (cx_client_ip cx) (cx_timeout cx)) (\<lambda>result.
           call (on_balancer (cx_table cx) (cx_route cx) (\<lambda>b. (lb_record_done b i, Val ()))) (\<lambda>_.
           case result of
             Inr resp \<Rightarrow>
               if is_server_error (status resp)
               then failed bp cx selected ''5xx''
                      (attempts bp L cx offsets (Suc made) (Some UpstreamFailure))
               else succeed cx selected resp
           | Inl UpstreamFailure \<Rightarrow>
               failed bp cx selected ''connection''
                 (attempts bp L cx offsets (Suc made) (Some UpstreamFailure))
           | Inl UpstreamTimeout \<Rightarrow>
               failed bp cx selected ''timeout''
                 (attempts bp L cx offsets (Suc made) (Some UpstreamTimeout))
           | Inl e \<Rightarrow> Return (Inl e)))))))) (\<lambda>s r. True) s"
    if "I s" "made \<le> 32" for selected i s
    unfolding new
    by (rule skip_check_secure [OF I thr _ that(1)])
      (auto simp: Cons.IH after intro!: before_attempt_secure [OF I thr] finish that(2) bounds(2) mark forward)
  show ?case
    using ne Cons.prems bounds(1) by (auto simp: rem_nat_def index_def finish intro!: step)
qed

lemma any_healthy_secure:
  assumes "lasting thr win I" and "thr \<noteq> -1" and k: "\<And>v s. I s \<Longrightarrow> secure (live win) (moves thr win) (k v) Q s"
  shows "I s \<Longrightarrow> secure (live win) (moves thr win) (any_healthy us k) Q s"
  by (induction us arbitrary: s) (auto simp: k intro!: secure_bool_calls(1) [OF assms(1) _ assms(2)])

lemma proxy_request_secure:
  assumes L: "http_laws L" and thr: "thr \<noteq> -1" and s: "moves thr win s s"
  shows "secure (live win) (moves thr win) (proxy_request bp L req) (\<lambda>s r. True) s"
proof -
  note fine = lasting_fine [of thr win]
  have route: "secure (live win) (moves thr win)
      (await (Read_Body body) body_read (\<lambda>whole_body.
         case whole_body of
           None \<Rightarrow> Return (Inl UpstreamFailure)
         | Some whole_body \<Rightarrow>
             call (on_balancer table r (\<lambda>b. lb_next_index_for_key b (length us) path)) (\<lambda>start_index.
             any_healthy us (\<lambda>any.
             unwrap (add_word bp (max_retries (server cfg)) 1) (\<lambda>max_attempts.
             call (on_budget (\<lambda>e. record_request (clk e 0))) (\<lambda>_.
             attempts bp L (cx whole_body start_index any max_attempts) [0..<length us] 0 None))))))
      (\<lambda>s r. True) s"
    if "moves thr win s s" "serves table r us s" "retry_bounds cfg"
      and cx: "\<And>b i a m. cx_table (cx b i a m) = table \<and> cx_route (cx b i a m) = r \<and> cx_upstreams (cx b i a m) = us \<and>
        header_text (cx_request_id (cx b i a m)) \<and> cx_max_attempts (cx b i a m) = m \<and>
        cx_backoff_ms (cx b i a m) = retry_backoff_ms (server cfg)"
    for s table r us path cfg cx body
  proof -
    note I = lasting_serves [of thr win table r us]
    have m: "add_word bp (max_retries (server cfg)) 1 = Val (max_retries (server cfg) + 1)"
      "unat (max_retries (server cfg) + 1) \<le> 33"
      using that(3) by (auto simp: retry_bounds_def add_word_fits unat_add_fits)
    have loop: "secure (live win) (moves thr win)
        (attempts bp L (cx b i a (max_retries (server cfg) + 1)) [0..<length us] 0 None) (\<lambda>s r. True) s"
      if "moves thr win s s \<and> serves table r us s" for b i a s
      by (rule attempts_secure [OF L I thr]) (use that \<open>retry_bounds cfg\<close> m(2) cx in \<open>auto simp: retry_bounds_def\<close>)
    have next_index: "secure (live win) (moves thr win)
        (call (on_balancer table r (\<lambda>b. lb_next_index_for_key b (length us) path)) k) (\<lambda>s r. True) s"
      if "moves thr win s s \<and> serves table r us s"
        "\<And>v s. moves thr win s s \<and> serves table r us s \<Longrightarrow> secure (live win) (moves thr win) (k v) (\<lambda>s r. True) s" for k s
      by (rule lasting_ops(4) [OF I that(1) _ that(2)]) (auto intro: balancer_access)
    show ?thesis
      by (rule lasting_ops(5) [OF I]) (auto simp: that(1,2) m(1) split: option.split
          intro!: next_index any_healthy_secure [OF I thr] secure_unit_calls(3) [OF I _ thr] loop)
  qed
  have served: "serves (router_ref s) r (upstreams (router_routes (router_heap s ! router_ref s) ! r)) s"
    if "match_route (router_heap s ! router_ref s) path = Some r" "moves thr win s s" for s r path
    using match_route_SomeD(1) [OF that(1)] that(2)
    by (auto simp: serves_def matches_def moves_def state_ok_def)
  have cfg: "retry_bounds (app_config s)" if "moves thr win s s" for s
    using that by (simp add: moves_def state_ok_def)
  show ?thesis
    unfolding proxy_request_def Let_def
    by (rule lasting_ops(1) [OF fine s], rule lasting_ops(1) [OF fine], assumption,
        rule lasting_ops(2) [OF fine], assumption, rule lasting_ops(2) [OF fine], assumption)
      (auto split: option.split dest: served cfg live_simps(2)
        intro!: secure_unit_calls(4) [OF fine _ thr] route)
qed

lemma rate_check_secure:
  assumes thr: "thr \<noteq> -1" and s: "moves thr win s s"
    and k: "\<And>v s. moves thr win s s \<Longrightarrow> secure (live win) (moves thr win) (k v) Q s"
  shows "secure (live win) (moves thr win) (rate_check ip k) Q s"
proof -
  note fine = lasting_fine [of thr win]
  have take: "secure (live win) (moves thr win) (take_token ip k) Q s" if "moves thr win s s" for s
    by (rule secure_bool_calls(3) [OF fine that thr k])
  have sweep: "secure (live win) (moves thr win) (call (on_limiter (\<lambda>e. cleanup (clk e 0))) (\<lambda>_. take_token ip k)) Q s"
    if "moves thr win s s" for s
    by (rule lasting_ops(4) [OF fine that _ take]) (use limiter_access(2) in blast)
  have count: "secure (live win) (moves thr win)
      (call (on_limiter (\<lambda>e l. (l\<lparr>cleanup_counter := cleanup_counter l + 1\<rparr>, Val (cleanup_counter l)))) k') Q s"
    if "moves thr win s s" "\<And>v s. moves thr win s s \<Longrightarrow> secure (live win) (moves thr win) (k' v) Q s" for k' s
    by (rule lasting_ops(4) [OF fine that(1) _ that(2)]) (use limiter_access(1) in \<open>auto simp: on_limiter_def\<close>)
  show ?thesis
    unfolding rate_check_def
    by (rule lasting_ops(2) [OF fine s]) (auto intro!: k count take sweep)
qed

lemma stack_secure:
  assumes L: "http_laws L" and thr: "thr \<noteq> -1" and s: "moves thr win s s"
  shows "secure (live win) (moves thr win) (service_stack bp L overall ip req) (\<lambda>s r. True) s"
proof -
  note fine = lasting_fine [of thr win]
  have proxy: "secure (live win) (moves thr win) (proxy_service bp L req) (\<lambda>s r. True) s"
    if "moves thr win s s" for req s
    by (auto simp: proxy_service_def secure_bind intro: secure_mono [OF proxy_request_secure [OF L thr that]] split: sum.split)
  have late: "secure (live win) (moves thr win) (request_timeout_layer L overall (proxy_service bp L) req) (\<lambda>s r. True) s"
    if "moves thr win s s" for req s
    by (auto simp: request_timeout_layer_def secure_bind intro!: secure_timeout secure_mono [OF proxy [OF that]] split: option.split)
  have limited: "secure (live win) (moves thr win)
      (rate_limit_layer L (request_timeout_layer L overall (proxy_service bp L)) req) (\<lambda>s r. True) s"
    if "moves thr win s s" for req s
    using that by (auto simp: rate_limit_layer_def late intro!: rate_check_secure [OF thr] split: option.split)
  have logged: "secure (live win) (moves thr win)
      (given f (\<lambda>x. update (\<lambda>s. s\<lparr>request_log := request_log s @ l x\<rparr>) (Return r))) (\<lambda>s r. True) s"
    if "moves thr win s s" for f l r s
    by (intro lasting_ops(1) [OF fine that] lasting_ops(3) [OF fine]) (simp_all add: moves_put(5))
  show ?thesis
    unfolding service_stack_def inject_addr_service_def logging_layer_def Let_def
    by (intro lasting_ops(1) [OF fine s])
      (auto simp: secure_bind intro!: logged secure_mono [OF moves.secure_fine [OF limited]])
qed

section \<open>The background tasks\<close>

text \<open>A configuration a reload may install: pools that are not empty, weights that are usable where
  they matter, retry settings in range.\<close>

definition config_ok :: "config \<Rightarrow> bool" where
  "config_ok c \<longleftrightarrow> retry_bounds c \<and>
     list_all (\<lambda>r. rc_upstream r \<noteq> [] \<and>
       (rc_strategy r = WeightedRoundRobin \<longrightarrow> usable_weights (length (rc_upstream r)) (rc_weights r))) (routes c)"

lemma config_ok_routes: "config_ok c \<Longrightarrow> list_all route_ok (router_routes (router_of_config c))"
proof -
  assume c: "config_ok c"
  have "route_ok (route_of_config r)" if "r \<in> set (routes c)" for r
    using that c create_balancer_ok [of "length (rc_upstream r)" "rc_strategy r" "rc_weights r"]
    by (auto simp: config_ok_def list_all_iff route_ok_def route_of_config_def)
  then show ?thesis by (simp add: router_of_config_def router_new_def list_all_iff)
qed

lemma moves_store:
  assumes "moves thr win s s'" and "config_ok c"
  shows "moves thr win s' (store_router (router_of_config c) s')" and "moves thr win s' (store_config c s')"
  using assms config_ok_routes [OF assms(2)]
  by (auto simp: moves_def state_ok_def store_router_def store_config_def config_ok_def)

lemma apply_config_secure:
  assumes "config_ok c" and "\<And>s. moves thr win s s \<Longrightarrow> secure (live win) (moves thr win) t Q s"
  shows "moves thr win s s \<Longrightarrow> secure (live win) (moves thr win) (apply_config c t) Q s"
  unfolding apply_config_def
  by (intro lasting_ops(3) [OF lasting_fine] assms(2)) (auto intro: moves_store assms(1))

lemma reload_loop_secure:
  assumes "\<And>text c. parse text = Some c \<Longrightarrow> config_ok c"
  shows "moves thr win s s \<Longrightarrow> secure (live win) (moves thr win) (reload_loop parse n) (\<lambda>s r. True) s"
proof (induction n arbitrary: s)
  case (Suc n)
  then show ?case
    by (auto simp: reload_config_def intro!: lasting_ops(5,1) [OF lasting_fine] apply_config_secure assms split: option.split)
qed simp

lemma probe_upstreams_secure:
  assumes thr: "thr \<noteq> -1" and k: "\<And>s. moves thr win s s \<Longrightarrow> secure (live win) (moves thr win) k Q s"
  shows "moves thr win s s \<Longrightarrow> secure (live win) (moves thr win) (probe_upstreams bp hc us k) Q s"
  by (induction us arbitrary: s)
    (auto simp: k probe_upstream_def split: probe_reply.split
      intro!: lasting_ops(5) [OF lasting_fine] secure_unit_calls(1,2) [OF lasting_fine _ thr])

lemma checker_secure:
  assumes thr: "thr \<noteq> -1" and s: "moves thr win s s"
  shows "secure (live win) (moves thr win) (run_health_check_loop bp order hc n) (\<lambda>s r. True) s"
proof -
  have "moves thr win s s \<Longrightarrow> secure (live win) (moves thr win) (health_check_rounds bp hc us n) (\<lambda>s r. True) s" for us s
    by (induction n arbitrary: s) (auto intro!: lasting_ops(5) [OF lasting_fine] probe_upstreams_secure [OF thr])
  then show ?thesis
    unfolding run_health_check_loop_def by (intro lasting_ops(2) [OF lasting_fine s])
qed

end
