(* ===== verification/System.thy ===== *)
theory System
  imports Safety
begin

text \<open>
  The whole program as a step relation: its tasks over the shared state, from start-up on.
\<close>

section \<open>The running system\<close>

text \<open>What is assumed of the clock: it does not read before its origin.\<close>

definition sane_reading :: "'h reading \<Rightarrow> bool" where
  "sane_reading e \<longleftrightarrow> reading_ok e \<and> (\<forall>i. 0 \<le> clk e i)"

text \<open>A configuration the program can be started with: besides \<open>config_ok\<close> a failure threshold below
  the counter's maximum and a budget window the clock can go back.\<close>

definition bootable :: "config \<Rightarrow> bool" where
  "bootable c \<longleftrightarrow> config_ok c \<and> failure_threshold (server c) \<noteq> -1 \<and>
     unat (retry_budget_window_secs (server c)) \<le> 2 ^ 63"

text \<open>The tasks of the program: those of \<open>main\<close> with the server's own, one for every request on any
  connection, one for every scrape of the metrics endpoint. Any of them makes the next step.\<close>

inductive reachable ::
    "profile \<Rightarrow> ('h, 'v, 'u) http \<Rightarrow> (string list \<Rightarrow> string list) \<Rightarrow> nat \<Rightarrow> nat \<Rightarrow> 'addr os \<Rightarrow> (string \<Rightarrow> config option) \<Rightarrow>
     app_state \<Rightarrow> ('h, 'u, unit) app_task list \<Rightarrow> bool"
  for bp :: profile and L :: "('h, 'v, 'u) http" and order :: "string list \<Rightarrow> string list"
    and rounds reloads :: nat and os :: "'addr os" and parse :: "string \<Rightarrow> config option" where
  start: "main_start (spawn_active_health_checker bp order rounds) (reload_loop parse reloads) os parse = Val (Inr started) \<Longrightarrow>
     reachable bp L order rounds reloads os parse (run_state started)
       (run_tasks started @ [bind start_server (\<lambda>_. Return ())])"
| request: "reachable bp L order rounds reloads os parse s ts \<Longrightarrow>
     reachable bp L order rounds reloads os parse s (ts @ [bind (service_stack bp L overall ip req) (\<lambda>_. Return ())])"
| scrape: "reachable bp L order rounds reloads os parse s ts \<Longrightarrow>
     reachable bp L order rounds reloads os parse s (ts @ [bind (metrics_service L encode req) (\<lambda>_. Return ())])"
| step: "reachable bp L order rounds reloads os parse s ts \<Longrightarrow> i < length ts \<Longrightarrow>
     advance s ch (ts ! i) = Some (ob, t) \<Longrightarrow> choice_ok sane_reading True ch \<Longrightarrow>
     reachable bp L order rounds reloads os parse (case ob of Effect s0 s' \<Rightarrow> s' | Ask q \<Rightarrow> s) (ts[i := t])"

primrec panicked :: "('s, 'q, 'e, 'a) task \<Rightarrow> bool" where
  "panicked (Return a) = False"
| "panicked (Abort p) = True"
| "panicked (Atomic u c) = False"
| "panicked (Await q c ds) = False"

section \<open>Safety\<close>

lemma sane_live: "unat w \<le> 2 ^ 63 \<Longrightarrow> sane_reading e \<Longrightarrow> live (from_secs w) e"
proof -
  assume w: "unat w \<le> 2 ^ 63" and e: "sane_reading e"
  have five: "stale_after \<le> 2 ^ 63 * nanos_per_sec" by (simp add: stale_after_def from_secs_def nanos_per_sec_def)
  have win: "from_secs w \<le> 2 ^ 63 * nanos_per_sec" using w by (simp add: from_secs_def)
  from e have t: "0 \<le> clk e i" for i by (simp add: sane_reading_def)
  have "sweepable (clk e i)" "instant_min \<le> clk e i - int (from_secs w)" for i
    using instant_sub_ok [OF t five, of i] instant_sub_ok [OF t win, of i]
    by (auto simp: sweepable_def)
  with e show "live (from_secs w) e" by (simp add: live_def sane_reading_def)
qed

lemma new_state_ok:
  assumes "new_app_state cfg = Val s" and "config_ok cfg"
  shows "state_ok (failure_threshold (server cfg)) (from_secs (retry_budget_window_secs (server cfg))) s"
proof -
  obtain m where m: "metrics_new = Val m" "metrics_ok m" using metrics_new_Val by auto
  have s: "router_heap s = [router_of_config cfg]" "router_ref s = 0" "app_config s = cfg"
    "health s = health_new (failure_threshold (server cfg)) (from_secs (health_cooldown_secs (server cfg)))"
    "budget s = retry_budget_new (retry_budget_percent (server cfg)) (retry_budget_window_secs (server cfg))"
    "app_metrics s = m" "limiter s = new_limiter (server cfg)"
    using assms(1) unfolding new_app_state_def Let_def m(1) by auto
  have "\<not> rl_poisoned (new_limiter (server cfg))"
    by (simp add: new_limiter_def rate_limiter_new_def rate_limiter_disabled_def split: option.split)
  moreover have "breaker_rel thr cd (health_new thr cd) breaker_init \<and> h_cooldown (health_new thr cd) = cd" for thr cd
    using breaker_rel_new by (simp add: health_new_def)
  ultimately show ?thesis
    using m(2) assms(2) config_ok_routes [OF assms(2)]
    by (auto simp: state_ok_def s config_ok_def retry_budget_new_def)
qed

lemma main_start_running:
  assumes "main_start checker reloader os parse = Val (Inr started)"
  shows "\<exists>str cfg. parse str = Some cfg \<and> new_app_state cfg = Val (run_state started) \<and>
    run_tasks started = (case checker (run_state started) of None \<Rightarrow> [] | Some t \<Rightarrow> [t]) @ [reloader]"
  using assms by (fastforce simp: main_start_def Let_def split: option.splits sum.splits if_splits)

lemma server_secure:
  assumes "moves thr win s s"
  shows "secure (live win) (moves thr win) start_server (\<lambda>s r. True) s"
  unfolding start_server_def serving_server_def
  by (rule lasting_ops(2) [OF lasting_fine assms])
    (auto simp: draining_server_def secure_bind split: option.split
      intro!: lasting_ops(5) [OF lasting_fine] secure_timeout)

lemma scrape_secure:
  assumes "moves thr win s s"
  shows "secure (live win) (moves thr win) (metrics_service L encode req) (\<lambda>s r. True) s"
  unfolding metrics_service_def by (rule lasting_ops(2) [OF lasting_fine assms]) simp

lemma reachable_secure:
  assumes "reachable bp L order rounds reloads os parse s ts"
    and L: "http_laws L" and parse: "\<And>str c. parse str = Some c \<Longrightarrow> bootable c"
  shows "\<exists>thr w. thr \<noteq> -1 \<and> unat w \<le> 2 ^ 63 \<and> moves thr (from_secs w) s s \<and>
    (\<forall>t \<in> set ts. secure (live (from_secs w)) (moves thr (from_secs w)) t (\<lambda>s r. True) s)"
  using assms(1)
proof (induction rule: reachable.induct)
  case (start started)
  from main_start_running [OF start] obtain str cfg where c: "parse str = Some cfg"
    "new_app_state cfg = Val (run_state started)"
    "run_tasks started = (case spawn_active_health_checker bp order rounds (run_state started) of None \<Rightarrow> [] | Some t \<Rightarrow> [t])
       @ [reload_loop parse reloads]" by blast
  let ?thr = "failure_threshold (server cfg)" and ?w = "retry_budget_window_secs (server cfg)"
  have boot: "config_ok cfg" "?thr \<noteq> -1" "unat ?w \<le> 2 ^ 63" using parse [OF c(1)] by (simp_all add: bootable_def)
  have fine: "moves ?thr (from_secs ?w) (run_state started) (run_state started)"
    using new_state_ok [OF c(2) boot(1)] by (simp add: moves_def)
  have parse': "config_ok c" if "parse str = Some c" for str c using parse [OF that] by (simp add: bootable_def)
  have "\<forall>t \<in> set (run_tasks started @ [bind start_server (\<lambda>_. Return ())]).
      secure (live (from_secs ?w)) (moves ?thr (from_secs ?w)) t (\<lambda>s r. True) (run_state started)"
    unfolding c(3) spawn_active_health_checker_def
    using checker_secure [OF boot(2) fine] reload_loop_secure [OF parse' fine] server_secure [OF fine]
    by (auto simp: secure_bind split: option.split)
  with boot fine show ?case by blast
next
  case (request s ts overall ip req)
  then show ?case using stack_secure [OF L] by (fastforce simp: secure_bind)
next
  case (scrape s ts encode req)
  then show ?case using scrape_secure by (fastforce simp: secure_bind)
next
  case (step s ts i ch ob t)
  then obtain thr w where w: "thr \<noteq> -1" "unat w \<le> 2 ^ 63" "moves thr (from_secs w) s s"
    "\<forall>t \<in> set ts. secure (live (from_secs w)) (moves thr (from_secs w)) t (\<lambda>s r. True) s" by blast
  have "choice_ok (live (from_secs w)) True ch" using step.hyps(4) sane_live [OF w(2)] by (cases ch) auto
  from moves.secure_step [OF w(4,3) this step.hyps(2,3)] w(1,2) moves.stays show ?case by blast
qed


definition demo_os :: "string os" where
  "demo_os = \<lparr>read_file = (\<lambda>path. Some ''routes''), parse_socket_addr = Some, bind_listener = (\<lambda>addr. True)\<rparr>"

definition demo_boot ::
    "(main_error + (string \<Rightarrow> string option, string \<times> string, string) running) outcome" where
  "demo_boot =
     main_start (spawn_active_health_checker Release remdups 1) (reload_loop demo_parse 1) demo_os demo_parse"

lemma demo_bootable: "demo_parse str = Some c \<Longrightarrow> bootable c"
  by (auto simp: demo_parse_def bootable_def config_ok_def retry_bounds_def demo_config_def demo_server_def
      split: if_splits)

lemma demo_boot: "\<exists>started. demo_boot = Val (Inr started) \<and> length (run_tasks started) = 1"
proof -
  obtain s where s: "new_app_state demo_config = Val s" "app_config s = demo_config"
    using new_app_state_Val by blast
  let ?started = "\<lparr>run_state = s, run_addr = ''127.0.0.1:8080'', run_tasks = [reload_loop demo_parse 1],
      run_trigger = On_Signal, run_metrics_addr = None\<rparr>"
  have "demo_boot = Val (Inr ?started)"
    unfolding demo_boot_def main_start_def
    by (simp add: s demo_os_def demo_parse_def spawn_active_health_checker_def start_metrics_def
        demo_server demo_server_def del: reload_loop.simps)
  then show ?thesis by (rule exI [of _ ?started, OF conjI]) simp
qed


end
