(* ===== verification/Bounded.thy ===== *)
theory Bounded
  imports Task
begin

text \<open>
  How many steps a task can take before it is over.
\<close>

section \<open>Bounded tasks\<close>

text \<open>The task is over after at most \<open>n\<close> steps, as long as the states it finds satisfy \<open>sh\<close>.\<close>

primrec ends_within :: "('s \<Rightarrow> bool) \<Rightarrow> ('s, 'q, 'e, 'a) task \<Rightarrow> nat \<Rightarrow> bool" where
  "ends_within sh (Return a) = (\<lambda>n. True)"
| "ends_within sh (Abort p) = (\<lambda>n. True)"
| "ends_within sh (Atomic u c) = (\<lambda>n. 0 < n \<and> (\<forall>e s. sh s \<longrightarrow> ends_within sh (c e s) (n - 1)))"
| "ends_within sh (Await q c ds) = (\<lambda>n. 0 < n \<and> (\<forall>e. ends_within sh (c e) (n - 1)) \<and>
     list_all (\<lambda>(d, ends). ends (n - 1)) (map (map_prod id (ends_within sh)) ds))"

lemma ends_within_Await [simp]:
  "ends_within sh (Await q c ds) n \<longleftrightarrow>
     0 < n \<and> (\<forall>e. ends_within sh (c e) (n - 1)) \<and> (\<forall>(d, t) \<in> set ds. ends_within sh t (n - 1))"
  by (simp add: list_all_iff case_prod_beta)

declare ends_within.simps(4) [simp del]

lemma ends_within_mono: "ends_within sh t n \<Longrightarrow> n \<le> m \<Longrightarrow> ends_within sh t m"
proof (induction t arbitrary: n m rule: task_induct)
  case (Atomic u c)
  have "n - 1 \<le> m - 1" using Atomic.prems(2) by simp
  then show ?case using Atomic.prems Atomic.IH by fastforce
next
  case (Await q c ds)
  have le: "n - 1 \<le> m - 1" using Await.prems(2) by simp
  have "\<forall>(d, t) \<in> set ds. ends_within sh t (m - 1)" using Await.prems(1) Await.IH(2) le by fastforce
  moreover have "ends_within sh (c e) (m - 1)" for e using Await.prems(1) Await.IH(1) [OF _ le] by simp
  ultimately show ?case using Await.prems by simp
qed simp_all

lemma ends_within_bind:
  assumes "ends_within sh t n" and "\<And>a. ends_within sh (k a) m"
  shows "ends_within sh (bind t k) (n + m)"
  using assms(1)
proof (induction t arbitrary: n rule: task_induct)
  case (Return a)
  show ?case by (simp add: ends_within_mono [OF assms(2)])
next
  case (Atomic u c)
  have eq: "n + m - 1 = n - 1 + m" using Atomic.prems by simp
  have "ends_within sh (bind (c e s) k) (n - 1 + m)" if "sh s" for e s
    using Atomic.prems that by (intro Atomic.IH) simp
  then show ?case using Atomic.prems by (simp add: eq)
next
  case (Await q c ds)
  have eq: "n + m - 1 = n - 1 + m" using Await.prems by simp
  have "\<forall>(d, t) \<in> set (map (map_prod id (\<lambda>t. bind t k)) ds). ends_within sh t (n - 1 + m)"
    using Await.prems Await.IH(2) by fastforce
  moreover have "ends_within sh (bind (c e) k) (n - 1 + m)" for e
    using Await.prems by (intro Await.IH(1)) simp
  ultimately show ?case using Await.prems by (simp add: eq)
qed simp

lemma ends_within_timeout: "ends_within sh t n \<Longrightarrow> ends_within sh (timeout d t) n"
proof (induction t arbitrary: n rule: task_induct)
  case (Await q c ds)
  have "\<forall>(d', t) \<in> set (map (map_prod id (timeout d)) ds @ [(d, Return None)]). ends_within sh t (n - 1)"
    using Await.prems Await.IH(2) by fastforce
  then show ?case using Await.prems Await.IH(1) by simp
qed simp_all

lemma ends_within_unwrap: "(\<And>v. ends_within sh (k v) n) \<Longrightarrow> ends_within sh (unwrap r k) n"
  by (cases r) simp_all

lemma ends_within_ops:
  "(\<And>v. ends_within sh (k v) (n - 1)) \<Longrightarrow> 0 < n \<Longrightarrow> ends_within sh (given f k) n"
  "(\<And>s. sh s \<Longrightarrow> ends_within sh (k' (g s)) (n - 1)) \<Longrightarrow> 0 < n \<Longrightarrow> ends_within sh (load g k') n"
  "ends_within sh t (n - 1) \<Longrightarrow> 0 < n \<Longrightarrow> ends_within sh (update h t) n"
  "(\<And>v. ends_within sh (l v) (n - 1)) \<Longrightarrow> 0 < n \<Longrightarrow> ends_within sh (call c l) n"
  "(\<And>v. ends_within sh (l' v) (n - 1)) \<Longrightarrow> 0 < n \<Longrightarrow> ends_within sh (await q f' l') n"
  by (simp_all add: task_ops ends_within_unwrap)

primrec is_go :: "'e choice \<Rightarrow> bool" where
  "is_go (Go e) = True"
| "is_go (Expire i) = False"

lemma follow_finished: "finished t \<Longrightarrow> final t w = t"
proof (induction w)
  case (Cons x w)
  obtain s ch where x: "x = (s, ch)" by fastforce
  have "advance s ch t = None" using Cons.prems by (cases t; cases ch) auto
  with Cons x show ?case by (simp add: final_def)
qed (simp add: final_def)

theorem ends_within_final:
  "ends_within sh t n \<Longrightarrow> \<forall>s \<in> states_of w. sh s \<Longrightarrow> n \<le> length (filter (\<lambda>(s, ch). is_go ch) w) \<Longrightarrow>
     finished (final t w)"
proof (induction t w arbitrary: n rule: follow.induct)
  case (1 t)
  then show ?case by (cases t) (simp_all add: final_def)
next
  case (2 t s ch w)
  have st: "sh s" "\<forall>s \<in> states_of w. sh s" using "2.prems"(2) by (auto simp: states_of_def)
  show ?case
  proof (cases "advance s ch t")
    case None
    then have eq: "final t ((s, ch) # w) = final t w" by (simp add: final_def)
    show ?thesis
    proof (cases "finished t")
      case True
      then show ?thesis by (simp add: follow_finished)
    next
      case False
      with None have "\<not> is_go ch" by (cases t; cases ch) auto
      then show ?thesis unfolding eq using "2.IH"(1) [OF None "2.prems"(1) st(2)] "2.prems"(3) by simp
    qed
  next
    case (Some r)
    obtain ob t1 where r: "r = (ob, t1)" by fastforce
    then have eq: "final t ((s, ch) # w) = final t1 w" using Some by (simp add: final_def split: prod.split)
    have "ends_within sh t1 (n - 1)"
      using "2.prems"(1) Some r st(1)
    proof (cases "(s, ch, t)" rule: advance.cases)
      case (3 s i q c ds)
      then have "(fst (ds ! i), t1) \<in> set ds" using Some r by (auto split: if_splits)
      with 3 "2.prems"(1) show ?thesis by fastforce
    qed auto
    moreover have "n - 1 \<le> length (filter (\<lambda>(s, ch). is_go ch) w)" using "2.prems"(3) by (auto split: if_splits)
    ultimately show ?thesis unfolding eq using "2.IH"(2) [OF Some r [symmetric] _ st(2)] by blast
  qed
qed

end
