(* ===== verification/Request_Bound.thy ===== *)
theory Request_Bound
  imports Stack Bounded
begin

text \<open>
  Every request through the stack is over after a number of steps that depends only on the size of
  the pools.
\<close>

section \<open>The bound of a request\<close>

lemma finish_ends: "3 \<le> n \<Longrightarrow> ends_within sh (finish cx le) n"
  unfolding finish_def Let_def by (intro ends_within_ops) simp_all

lemma failed_ends: "ends_within sh t (n - 1 - 1) \<Longrightarrow> 2 \<le> n \<Longrightarrow> ends_within sh (failed bp cx u ty t) n"
  unfolding failed_def by (intro ends_within_ops) simp_all

lemma succeed_ends: "4 \<le> n \<Longrightarrow> ends_within sh (succeed cx u resp) n"
  unfolding succeed_def by (intro ends_within_ops) simp_all

lemma forward_ends: "ends_within sh (forward_once L req u path request_id ip d) 1"
  unfolding forward_once_def
  by (auto intro!: ends_within_unwrap ends_within_ops split: option.split reply.split)

lemma forward_then_ends:
  "(\<And>r. ends_within sh (k r) (n - 1)) \<Longrightarrow> 0 < n \<Longrightarrow>
     ends_within sh (bind (forward_once L req u path request_id ip d) k) n"
  using ends_within_bind [OF forward_ends] by fastforce

lemma before_attempt_ends:
  assumes "ends_within sh t (n - 4)" and "ends_within sh t' (n - 4)" and "4 \<le> n"
  shows "ends_within sh (before_attempt bp cx made t t') n"
proof -
  have "ends_within sh t (n - 1)" "ends_within sh t' n" "ends_within sh t' (n - 1 - 1 - 1 - 1)"
    using assms by (auto intro: ends_within_mono [OF assms(1)] ends_within_mono [OF assms(2)])
  then show ?thesis
    using assms(3) unfolding before_attempt_def by (auto intro!: ends_within_ops ends_within_unwrap)
qed

lemma skip_check_ends:
  "(\<And>v. ends_within sh (k v) (n - 1)) \<Longrightarrow> 0 < n \<Longrightarrow> ends_within sh (skip_check cx u k) n"
  by (auto simp: skip_check_def intro!: ends_within_ops) (metis diff_le_self ends_within_mono One_nat_def)

lemma attempts_ends: "10 * length offsets + 3 \<le> n \<Longrightarrow> ends_within sh (attempts bp L cx offsets made le) n"
proof (induction offsets arbitrary: made le n)
  case Nil
  then show ?case by (simp add: finish_ends)
next
  case (Cons offset offsets)
  have n: "10 * length offsets + 13 \<le> n" using Cons.prems by simp
  have after: "ends_within sh
      (case result of
         Inr resp \<Rightarrow>
           if is_server_error (status resp)
           then failed bp cx selected ''5xx'' (attempts bp L cx offsets (Suc made) (Some UpstreamFailure))
           else succeed cx selected resp
       | Inl UpstreamFailure \<Rightarrow> failed bp cx selected ''connection'' (attempts bp L cx offsets (Suc made) (Some UpstreamFailure))
       | Inl UpstreamTimeout \<Rightarrow> failed bp cx selected ''timeout'' (attempts bp L cx offsets (Suc made) (Some UpstreamTimeout))
       | Inl e \<Rightarrow> Return (Inl e)) m" if "10 * length offsets + 5 \<le> m" for result selected m
    using that
    by (auto intro!: failed_ends Cons.IH succeed_ends split: sum.split proxy_error.split)
  show ?case
    using n unfolding attempts.simps
    by (auto intro!: finish_ends ends_within_unwrap skip_check_ends before_attempt_ends Cons.IH
        ends_within_ops(4) forward_then_ends after)
qed

lemma any_healthy_ends:
  "(\<And>v. ends_within sh (k v) (n - length us)) \<Longrightarrow> length us < n \<Longrightarrow> ends_within sh (any_healthy us k) n"
proof (induction us arbitrary: n)
  case (Cons u us)
  have "ends_within sh (any_healthy us k) (n - 1)" using Cons.prems by (intro Cons.IH) simp_all
  moreover have "ends_within sh (k True) (n - 1)"
    using Cons.prems(2) by (intro ends_within_mono [OF Cons.prems(1)]) simp
  ultimately show ?case using Cons.prems(2) by (auto intro!: ends_within_ops)
qed simp

definition pools_within :: "nat \<Rightarrow> app_state \<Rightarrow> bool" where
  "pools_within b s \<longleftrightarrow> (\<forall>r \<in> set (router_routes (router_heap s ! router_ref s)). length (upstreams r) \<le> b)"

lemma proxy_request_ends: "11 * b + 12 \<le> n \<Longrightarrow> ends_within (pools_within b) (proxy_request bp L req) n"
proof -
  assume n: "11 * b + 12 \<le> n"
  have pool: "length (upstreams (router_routes (router_heap s ! router_ref s) ! r)) \<le> b"
    if "match_route (router_heap s ! router_ref s) path = Some r" "pools_within b s" for s path r
    using match_route_SomeD(1) [OF that(1)] that(2) by (auto simp: pools_within_def matches_def)
  show ?thesis
    unfolding proxy_request_def Let_def
    apply (intro ends_within_ops(1,2))
    apply (use n in \<open>auto split: option.split dest!: pool
      intro!: ends_within_ops(4,5) any_healthy_ends ends_within_unwrap attempts_ends\<close>)
    done
qed

lemma rate_check_ends:
  "(\<And>v. ends_within sh (k v) (n - 4)) \<Longrightarrow> 4 < n \<Longrightarrow> ends_within sh (rate_check ip k) n"
proof -
  assume k: "\<And>v. ends_within sh (k v) (n - 4)" and n: "4 < n"
  have "ends_within sh (k v) (n - 1)" "ends_within sh (k v) (n - 1 - 1 - 1)" "ends_within sh (k v) (n - 1 - 1 - 1 - 1)" for v
    using n by (auto intro: ends_within_mono [OF k])
  then show ?thesis
    using n unfolding rate_check_def take_token_def by (auto intro!: ends_within_ops)
qed

lemma stack_ends: "ends_within (pools_within b) (service_stack bp L overall ip req) (11 * b + 19)"
proof -
  have svc: "ends_within (pools_within b) (proxy_service bp L req) (11 * b + 12 + 0)" for req
    unfolding proxy_service_def by (rule ends_within_bind [OF proxy_request_ends]) (simp_all split: sum.split)
  have late: "ends_within (pools_within b) (request_timeout_layer L overall (proxy_service bp L) req) (11 * b + 12 + 0 + 0)" for req
    unfolding request_timeout_layer_def
    by (rule ends_within_bind [OF ends_within_timeout [OF svc]]) (simp split: option.split)
  have limited: "ends_within (pools_within b)
      (rate_limit_layer L (request_timeout_layer L overall (proxy_service bp L)) req) (11 * b + 16)" for req
    by (auto simp: rate_limit_layer_def intro!: rate_check_ends ends_within_mono [OF late] split: option.split)
  have log: "ends_within (pools_within b) (given f (\<lambda>x. update (h x) (Return r))) 2" for f h r
    by (intro ends_within_ops) simp_all
  have "ends_within (pools_within b) (bind
      (rate_limit_layer L (request_timeout_layer L overall (proxy_service bp L)) req)
      (\<lambda>resp. given f (\<lambda>x. update (h x resp) (Return resp)))) (11 * b + 16 + 2)" for req f h
    by (rule ends_within_bind [OF limited log])
  then show ?thesis
    unfolding service_stack_def inject_addr_service_def logging_layer_def Let_def
    by (intro ends_within_ops) simp_all
qed

text \<open>Property C6. Every request comes to its end: with at most \<open>b\<close> upstreams in a pool, after at most
  \<open>11 * b + 19\<close> accesses and awaits it has answered (or panicked), whatever the upstreams do and
  whatever deadlines pass; the retry loop cannot go on for ever.\<close>

theorem stack_terminates:
  assumes "\<forall>s \<in> states_of w. pools_within b s"
    and "11 * b + 19 \<le> length (filter (\<lambda>(s, ch). is_go ch) w)"
  shows "finished (final (service_stack bp L overall ip req) w)"
  by (rule ends_within_final [OF stack_ends assms])

theorem stack_terminates_witness: "finished (final demo_task (replicate 41 go))"
proof -
  have "pools_within 2 demo_state" by (simp add: pools_within_def demo_state_simps demo_router)
  then have "\<forall>s \<in> states_of (replicate 41 go). pools_within 2 s" by (simp add: states_of_def)
  moreover have "11 * 2 + 19 \<le> length (filter (\<lambda>(s, ch). is_go ch) (replicate 41 go))" by simp
  ultimately show ?thesis unfolding demo_task_def by (rule stack_terminates)
qed

end
