(* ===== verification/Policies.thy ===== *)
theory Policies
  imports Stack
begin

text \<open>
  How the health tracker and the retry budget govern a request, and what it writes to the log: the
  properties of the whole stack that rest on those components.
\<close>

section \<open>Upstreams the tracker has given up\<close>

text \<open>The tracker holds \<open>u\<close> for unhealthy up to the instant \<open>until\<close>, and \<open>u\<close> for healthy.\<close>

definition shunned :: "instant \<Rightarrow> string \<Rightarrow> app_state \<Rightarrow> bool" where
  "shunned until u s \<longleftrightarrow>
     (case h_state (health s) u of
        None \<Rightarrow> False
      | Some e \<Rightarrow>
          (case marked_unhealthy_at e of
             None \<Rightarrow> False
           | Some marked_at \<Rightarrow> 0 < h_cooldown (health s) \<and> until \<le> marked_at + int (h_cooldown (health s))))"

definition unmarked :: "string \<Rightarrow> app_state \<Rightarrow> bool" where
  "unmarked u s \<longleftrightarrow> (\<forall>e. h_state (health s) u = Some e \<longrightarrow> marked_unhealthy_at e = None)"

lemma shunned_unhealthy:
  "shunned until u s \<Longrightarrow> now < until \<Longrightarrow> snd (is_healthy now (health s) u) \<noteq> Val True"
  by (auto simp: shunned_def is_healthy_def duration_since_le_iff split: option.splits)

lemma unmarked_healthy: "unmarked u s \<Longrightarrow> snd (is_healthy now (health s) u) \<noteq> Val False"
  by (auto simp: unmarked_def is_healthy_def split: option.splits)

text \<open>The route a request is given, as far as its upstreams go.\<close>

definition routed :: "('h, 'v, 'u) http \<Rightarrow> ('h, 'u) request \<Rightarrow> string list \<Rightarrow> string \<Rightarrow> app_state \<Rightarrow> bool" where
  "routed L req us pre s \<longleftrightarrow>
     (let table = router_heap s ! router_ref s in
      case match_route table (uri_path L (req_uri req)) of
        None \<Rightarrow> False
      | Some i \<Rightarrow> upstreams (router_routes table ! i) = us \<and> route_prefix (router_routes table ! i) = pre)"

fun goes_to :: "('u option) set \<Rightarrow> ('h, 'u) question \<Rightarrow> bool" where
  "goes_to T (Send r d) = (Some (req_uri r) \<in> T)"
| "goes_to T q = True"

lemma any_healthy_sees:
  assumes "v \<in> set us" and "\<And>s. sh s \<Longrightarrow> unmarked v s"
    and "wp (ask_monitor ok sh delta) (k True) Q m"
  shows "wp (ask_monitor ok sh delta) (any_healthy us k) Q m"
  using assms(1)
proof (induction us)
  case (Cons u us)
  have "snd (on_health (\<lambda>e h. is_healthy (clk e 0) h v) e s) \<noteq> Val False" if "sh s" for s and e :: "'a reading"
    using unmarked_healthy [OF assms(2) [OF that]] by (simp add: on_health_def case_prod_beta)
  with Cons assms(3) show ?case by (auto simp: wp_ask_ops)
qed simp

lemma skip_check_shuns:
  assumes "cx_any_healthy cx" and "\<And>s e. sh s \<Longrightarrow> ok e \<Longrightarrow> snd (is_healthy (clk e 0) (health s) u) \<noteq> Val True"
    and "wp (ask_monitor ok sh delta) (k True) Q m"
  shows "wp (ask_monitor ok sh delta) (skip_check cx u k) Q m"
proof -
  have "wp (ask_monitor ok sh delta) (k (\<not> healthy)) Q m"
    if "ok e" "sh s" "snd (on_health (\<lambda>e h. is_healthy (clk e 0) h u) e s) = Val healthy" for e s healthy
  proof -
    have "\<not> healthy" using that assms(2) [OF that(2,1)] by (auto simp: on_health_def case_prod_beta)
    with assms(3) show ?thesis by simp
  qed
  then show ?thesis using assms(1) by (simp add: skip_check_def wp_ask_ops)
qed

lemma every_step [simp]: "every P m q = Some m' \<longleftrightarrow> P q \<and> m' = m"
  by (auto simp: every_def)

lemma attempts_shun:
  assumes "cx_any_healthy cx" and "\<And>s e. sh s \<Longrightarrow> ok e \<Longrightarrow> snd (is_healthy (clk e 0) (health s) bad) \<noteq> Val True"
    and "T = (\<lambda>x. uri_parse L (x @ cx_final_path cx)) ` (set (cx_upstreams cx) - {bad})"
  shows "wp (ask_monitor ok sh (every (goes_to T))) (attempts bp L cx offsets made le) (\<lambda>m r. True) m"
proof (induction offsets arbitrary: made le m)
  case Nil
  then show ?case by (simp add: finish_def wp_ask_ops Let_def)
next
  case (Cons offset offsets)
  let ?i = "(cx_start_index cx + offset) mod length (cx_upstreams cx)"
  have mem: "Some parsed \<in> T"
    if "cx_upstreams cx \<noteq> []" "cx_upstreams cx ! ?i \<noteq> bad"
      "uri_parse L (cx_upstreams cx ! ?i @ cx_final_path cx) = Some parsed" for parsed
    using that assms(3) by (force intro!: image_eqI [of _ _ "cx_upstreams cx ! ?i"])
  note ops = wp_ask_ops wp_bind finish_def before_attempt_def forward_once_def failed_def succeed_def Let_def
  show ?case
  proof (cases "cx_upstreams cx ! ?i = bad")
    case True
    with assms(2) show ?thesis
      by (auto simp: Cons ops intro!: skip_check_shuns [OF assms(1)])
  next
    case False
    then show ?thesis
      by (auto simp: Cons ops mem intro!: skip_check_asks split: reply.split option.split)
  qed
qed

lemma accepts_goes_to:
  "accepts (every (goes_to T)) m qs = Some m' \<Longrightarrow> r \<in> set (sent qs) \<Longrightarrow> Some (req_uri r) \<in> T"
  using accepts_every set_sent by (fastforce simp: list_all_iff)

lemma proxy_request_shuns:
  assumes "\<And>s. sh s \<Longrightarrow> routed L req us pre s \<and> unmarked v s"
    and "\<And>s e. sh s \<Longrightarrow> ok e \<Longrightarrow> snd (is_healthy (clk e 0) (health s) bad) \<noteq> Val True"
    and "v \<in> set us"
    and "T = (\<lambda>x. uri_parse L (x @ final_path_of (uri_path_and_query L (req_uri req)) pre)) ` (set us - {bad})"
  shows "wp (ask_monitor ok sh (every (goes_to T))) (proxy_request bp L req) (\<lambda>m r. True) m"
proof -
  let ?M = "ask_monitor ok sh (every (goes_to T))"
  have loop: "wp ?M (attempts bp L cx offsets 0 None) (\<lambda>m r. True) m"
    if "cx_any_healthy cx" "cx_upstreams cx = us" "cx_final_path cx = final_path_of (uri_path_and_query L (req_uri req)) pre"
    for cx offsets
    by (rule attempts_shun [OF that(1) assms(2)]) (simp_all add: that assms(4))
  have route: "upstreams (router_routes (router_heap s ! router_ref s) ! i) = us \<and>
      route_prefix (router_routes (router_heap s ! router_ref s) ! i) = pre"
    if "sh s" "match_route (router_heap s ! router_ref s) (uri_path L (req_uri req)) = Some i" for s i
    using assms(1) [OF that(1)] that(2) by (simp add: routed_def Let_def)
  show ?thesis
    unfolding proxy_request_def
    by (auto simp: wp_ask_ops Let_def route split: option.split
        intro!: any_healthy_sees [OF assms(3)] loop dest: assms(1))
qed

text \<open>Property C9. While the tracker holds an upstream for unhealthy and another upstream of the route is
  not marked, the unhealthy one is sent nothing: every send goes to one of the others, until the
  clock reaches the end of the cooldown.\<close>

theorem unhealthy_shunned:
  assumes "\<forall>s \<in> states_of w. routed L req us pre s \<and> unmarked v s \<and> shunned until bad s" and "v \<in> set us"
    and "readings_ok (\<lambda>e. clk e 0 < until) True w"
  shows "Some ` req_uri ` set (sent (asked (service_stack bp L overall ip req) w)) \<subseteq>
    (\<lambda>x. uri_parse L (x @ final_path_of (uri_path_and_query L (req_uri req)) pre)) ` (set us - {bad})"
proof -
  let ?req = "req\<lparr>remote_addr := Some ip\<rparr>"
  define T where "T = (\<lambda>x. uri_parse L (x @ final_path_of (uri_path_and_query L (req_uri ?req)) pre)) ` (set us - {bad})"
  have "wp (ask_monitor (\<lambda>e. clk e 0 < until) (\<lambda>s. s \<in> states_of w) (every (goes_to T)))
      (service_stack bp L overall ip req) (\<lambda>m r. True) (0 :: nat)"
    by (intro stack_ask proxy_request_shuns [OF _ _ assms(2) T_def] shunned_unhealthy TrueI)
      (use assms(1) in \<open>auto simp: routed_def\<close>)
  from ask_sound(1) [OF this assms(3)] obtain m'
    where "accepts (every (goes_to T)) (0 :: nat) (asked (service_stack bp L overall ip req) w) = Some m'" by auto
  from accepts_goes_to [OF this] show ?thesis by (auto simp: T_def)
qed

text \<open>The first upstream of the scenario is marked; the request goes to the second.\<close>

definition demo_sick :: app_state where
  "demo_sick = demo_state\<lparr>health := (health demo_state)\<lparr>h_state :=
     [''http://a'' \<mapsto> \<lparr>consecutive_failures = 3, marked_unhealthy_at = Some 0\<rparr>]\<rparr>\<rparr>"

abbreviation "sick \<equiv> (demo_sick, Go demo_reading)"

lemma demo_sick_prefix:
  "final demo_task (ten_steps sick @ [sick]) = demo_loop"
  "questions (fst (follow demo_task (ten_steps sick @ [sick]))) = [Read_Body []]"
  by (simp_all add: demo_sick_def final_def from_secs_def nanos_per_sec_def demo_prefix_defs del: attempts.simps)

lemma demo_sick_sends:
  "asked demo_task ((ten_steps sick @ [sick]) @ [sick, sick, sick]) =
     [Read_Body [], Send (demo_sent\<lparr>req_uri := (''b'', ''/users'')\<rparr>) (from_secs 2)]"
proof -
  have "asked demo_loop [sick, sick, sick] = [Send (demo_sent\<lparr>req_uri := (''b'', ''/users'')\<rparr>) (from_secs 2)]"
    unfolding demo_loop_def
    by (subst attempts.simps(2), simp add: demo_sick_def asked_def demo_sent_def from_secs_def nanos_per_sec_def demo_loop_defs del: attempts.simps,
      subst attempts.simps(2), simp add: demo_sick_def asked_def demo_sent_def from_secs_def nanos_per_sec_def demo_loop_defs del: attempts.simps)
  then show ?thesis using demo_sick_prefix unfolding asked_append by (simp add: final_def split: prod.split)
qed

theorem unhealthy_shunned_witness:
  "let asks = asked demo_task ((ten_steps sick @ [sick]) @ [sick, sick, sick]) in
   sent asks \<noteq> [] \<and> Some ` req_uri ` set (sent asks) \<subseteq> {uri_parse plain_http (''http://b'' @ ''/users'')}"
proof -
  let ?w = "(ten_steps sick @ [sick]) @ [sick, sick, sick]"
  have states: "\<forall>s \<in> states_of ?w. routed plain_http demo_request [''http://a'', ''http://b''] ''/api'' s \<and>
      unmarked ''http://b'' s \<and> shunned (30 * 10 ^ 9) ''http://a'' s"
    by (simp add: states_of_def demo_sick_def routed_def unmarked_def shunned_def health_new_def from_secs_def
        nanos_per_sec_def match_route_def max_by_key_def starts_with_def plain_simps demo_state_simps
        demo_request_simps demo_router)
  have early: "readings_ok (\<lambda>e. clk e 0 < 30 * 10 ^ 9) True ?w" by (simp add: readings_ok_def demo_reading_simps)
  have "final_path_of (uri_path_and_query plain_http (req_uri demo_request)) ''/api'' = ''/users''"
    by (simp add: final_path_of_def strip_prefix_def starts_with_def plain_simps demo_request_simps)
  with unhealthy_shunned [OF states _ early, of Release "from_secs 30" "V4 1"] demo_sick_sends
  show ?thesis by (simp add: Let_def demo_task_def)
qed

section \<open>Retries the budget refuses\<close>

text \<open>At most \<open>n\<close> sends.\<close>

fun at_most_sends :: "nat \<Rightarrow> ('h, 'u) question \<Rightarrow> nat option" where
  "at_most_sends n (Send r d) = (case n of 0 \<Rightarrow> None | Suc n' \<Rightarrow> Some n')"
| "at_most_sends n q = Some n"

lemma accepts_at_most_sends: "accepts at_most_sends n qs = Some m \<Longrightarrow> length (sent qs) \<le> n"
proof (induction qs arbitrary: n)
  case (Cons q qs)
  show ?case
  proof (cases q)
    case (Send r d)
    with Cons show ?thesis by (fastforce split: nat.splits)
  qed (use Cons in auto)
qed simp

lemma attempts_unfunded:
  assumes "\<And>s e. sh s \<Longrightarrow> ok e \<Longrightarrow> snd (allow_retry (clk e 0) (clk e 1) (budget s)) \<noteq> Val True"
  shows "made = 0 \<and> n = 1 \<or> 0 < made \<Longrightarrow>
    wp (ask_monitor ok sh at_most_sends) (attempts bp L cx offsets made le) (\<lambda>m r. True) n"
proof (induction offsets arbitrary: made le n)
  case Nil
  then show ?case by (simp add: finish_def wp_ask_ops Let_def)
next
  case (Cons offset offsets)
  have denied: "snd (on_budget (\<lambda>e. allow_retry (clk e 0) (clk e (Suc 0))) e s) = Val b \<Longrightarrow> sh s \<Longrightarrow> ok e \<Longrightarrow> \<not> b" for e s b
    using assms [of s e] by (auto simp: on_budget_def case_prod_beta)
  note ops = wp_ask_ops wp_bind finish_def before_attempt_def forward_once_def failed_def succeed_def Let_def
  from Cons.prems consider "made = 0" "n = 1" | "0 < made" by auto
  then show ?case
  proof cases
    case 1
    then show ?thesis
      by (auto simp: Cons.IH ops intro!: skip_check_asks split: reply.split option.split)
  next
    case 2
    then show ?thesis
      by (auto simp: Cons.IH ops intro!: skip_check_asks dest: denied split: reply.split option.split)
  qed
qed

text \<open>Property C10. While the budget refuses every retry, a request is sent at most once, whatever the
  configured number of retries: a failed attempt is answered at once.\<close>

theorem unfunded_not_retried:
  assumes "\<forall>s \<in> states_of w. \<forall>e. ok e \<longrightarrow> snd (allow_retry (clk e 0) (clk e 1) (budget s)) \<noteq> Val True"
    and "readings_ok ok True w"
  shows "length (sent (asked (service_stack bp L overall ip req) w)) \<le> 1"
proof -
  have loop: "wp (ask_monitor ok (\<lambda>s. s \<in> states_of w) at_most_sends) (attempts bp L cx offsets 0 None) (\<lambda>m r. True) (Suc 0)" for cx offsets
    using assms(1) by (intro attempts_unfunded) auto
  have "wp (ask_monitor ok (\<lambda>s. s \<in> states_of w) at_most_sends) (service_stack bp L overall ip req) (\<lambda>m r. True) (Suc 0)"
    by (intro stack_ask TrueI)
      (auto simp: proxy_request_def wp_ask_ops Let_def split: option.split intro!: any_healthy_asks loop)
  from ask_sound(1) [OF this assms(2)] obtain m
    where "accepts at_most_sends (Suc 0) (asked (service_stack bp L overall ip req) w) = Some m" by auto
  from accepts_at_most_sends [OF this] show ?thesis by simp
qed

text \<open>A budget of zero percent with a request in its window, and an upstream that is down.\<close>

definition demo_unfunded :: app_state where
  "demo_unfunded = demo_state\<lparr>budget := (budget demo_state)\<lparr>rb_requests := [0], budget_percent := Fin 0\<rparr>\<rparr>"

definition demo_down :: "(string \<Rightarrow> string option) reading" where
  "demo_down = demo_reading\<lparr>reply := Connect_Error\<rparr>"

abbreviation "down \<equiv> (demo_unfunded, Go demo_down)"

lemma demo_unfunded_refuses: "snd (allow_retry 0 0 (budget demo_unfunded)) = Val False"
  by (simp add: demo_unfunded_def demo_state_simps allow_retry_def retry_budget_new_def instant_sub_def instant_min_def
      from_secs_def nanos_per_sec_def retry_allowance_zero)

lemma demo_down_prefix: "final demo_task (ten_steps down) = demo_loop"
    "questions (fst (follow demo_task (ten_steps down))) = [Read_Body []]"
  by (simp_all add: final_def demo_unfunded_def demo_down_def from_secs_def nanos_per_sec_def demo_prefix_defs del: attempts.simps)

lemma demo_down_denied:
  "snd (on_budget (\<lambda>e. allow_retry (clk e 0) (clk e (Suc 0))) demo_down demo_unfunded) = Val False"
  using demo_unfunded_refuses
  by (simp add: on_budget_def case_prod_beta demo_down_def demo_reading_simps)

lemma demo_down_noted:
  "snd (on_health (\<lambda>e h. record_failure Release (clk e 0) h u) demo_down demo_unfunded) = Val ()"
  by (simp add: on_health_def case_prod_beta demo_unfunded_def demo_state_simps record_failure_def health_new_def
      add_word_def Let_def)

lemma demo_down_metrics [simp]: "metrics_ok (app_metrics demo_unfunded)"
  by (simp add: demo_unfunded_def demo_state_simps)

lemma demo_down_healthy:
  "snd (on_health (\<lambda>e h. is_healthy (clk e 0) h u) demo_down demo_unfunded) = Val True"
  by (simp add: on_health_def case_prod_beta demo_unfunded_def demo_state_simps is_healthy_def health_new_def)

lemma demo_down_simps: "reply demo_down = Connect_Error" "clk demo_down i = 0"
  by (simp_all add: demo_down_def demo_reading_simps)

lemma demo_down_fails:
  "asked demo_task (ten_steps down @ (ten_steps down @ [down, down, down])) =
     [Read_Body [], Send demo_sent (from_secs 2)]"
proof -
  have "asked demo_loop (ten_steps down @ [down, down, down]) = [Send demo_sent (from_secs 2)]"
    unfolding demo_loop_def
    by (subst attempts.simps(2))
      (simp add: asked_def demo_sent_def task_ops demo_ctx_simps demo_headers plain_simps plain_parse_def split_authority_def
         skip_check_def before_attempt_def new_request_def some_or_panic_def forward_once_def failed_def finish_def
         attempts.simps(2) [of Release plain_http demo_ctx "Suc 0" "[]" "Suc 0"]
         demo_down_denied demo_down_noted demo_down_healthy demo_down_simps rem_nat_def index_def Let_def
         del: attempts.simps)
  then show ?thesis using demo_down_prefix unfolding asked_append by (simp add: final_def split: prod.split)
qed

theorem unfunded_not_retried_witness:
  "length (sent (asked demo_task (ten_steps down @ (ten_steps down @ [down, down, down])))) = 1"
proof -
  let ?w = "ten_steps down @ (ten_steps down @ [down, down, down])"
  let ?ok = "\<lambda>e :: (string \<Rightarrow> string option) reading. clk e 0 = 0 \<and> clk e 1 = 0"
  have states: "\<forall>s \<in> states_of ?w. \<forall>e. ?ok e \<longrightarrow> snd (allow_retry (clk e 0) (clk e 1) (budget s)) \<noteq> Val True"
    using demo_unfunded_refuses by (auto simp: states_of_def)
  have "readings_ok ?ok True ?w" by (simp add: readings_ok_def demo_down_simps)
  from unfunded_not_retried [OF states this, of Release plain_http "from_secs 30" "V4 1" demo_request] demo_down_fails
  show ?thesis by (simp add: demo_task_def)
qed

section \<open>The log\<close>

definition new_lines :: "log_line list \<Rightarrow> app_state \<Rightarrow> app_state \<Rightarrow> log_line list option" where
  "new_lines m s s' = Some (m @ drop (length (request_log s)) (request_log s'))"

lemma new_lines_same [simp]: "request_log s' = request_log s \<Longrightarrow> new_lines m s s' = Some m"
  by (simp add: new_lines_def)

abbreviation line_monitor where
  "line_monitor \<equiv> effect_monitor (\<lambda>e. True) True (\<lambda>s. True) new_lines (\<lambda>m. m = []) (\<lambda>m. True)"

interpretation lines: account "\<lambda>e. True" True "\<lambda>s. True" new_lines "\<lambda>m. m = []" "\<lambda>m. True"
  by unfold_locales simp

text \<open>The lines a task wrote in a run.\<close>

definition written :: "(app_state, 'q, 'e, 'a) task \<Rightarrow> (app_state \<times> 'e choice) list \<Rightarrow> log_line list" where
  "written t w = the (effects new_lines [] (fst (follow t w)))"

lemma attempts_unlogged: "wp line_monitor (attempts bp L cx offsets made le) (\<lambda>m r. m = []) []"
proof (induction offsets arbitrary: made le)
  case Nil
  then show ?case by (simp add: finish_def wp_effect_ops Let_def)
next
  case (Cons offset offsets)
  then show ?case
    by (auto intro!: lines.skip_check_wp simp: wp_effect_ops wp_bind finish_def
      before_attempt_def forward_once_def failed_def succeed_def Let_def
      split: reply.splits option.splits)
qed

lemma proxy_request_unlogged: "wp line_monitor (proxy_request bp L req) (\<lambda>m r. m = []) []"
  unfolding proxy_request_def
  by (auto simp: wp_effect_ops Let_def split: option.splits intro!: lines.any_healthy_wp attempts_unlogged)

text \<open>Property C13. Every request that is answered writes exactly one line to the log, with its method, its
  path and the very status of the answer, also when the limiter refuses it or the overall deadline
  passes; a request still suspended has written none.\<close>

theorem stack_logs:
  "case final (service_stack bp L overall ip req) w of
     Return resp \<Rightarrow>
       \<exists>ms. written (service_stack bp L overall ip req) w =
         [\<lparr>log_method = req_method req, log_path = uri_path L (req_uri req), log_status = status resp, log_duration_ms = ms\<rparr>]
   | Await q c ds \<Rightarrow> written (service_stack bp L overall ip req) w = []
   | _ \<Rightarrow> True"
proof -
  let ?Q = "\<lambda>m resp. \<exists>ms. m =
    [\<lparr>log_method = req_method req, log_path = uri_path L (req_uri req), log_status = status resp, log_duration_ms = ms\<rparr>]"
  have inner: "wp line_monitor (rate_limit_layer L (request_timeout_layer L overall (proxy_service bp L)) r) (\<lambda>m resp. m = []) []" for r
    by (rule lines.limited_wp [OF wp_mono [OF proxy_request_unlogged]]) simp_all
  have "wp line_monitor (service_stack bp L overall ip req) ?Q []"
    unfolding service_stack_def inject_addr_service_def logging_layer_def Let_def
    by (auto simp: wp_effect_ops wp_bind new_lines_def intro!: wp_mono [OF inner])
  from effect_sound [OF this readings_ok_True] obtain m
    where m: "effects new_lines [] (fst (follow (service_stack bp L overall ip req) w)) = Some m"
      "wp line_monitor (final (service_stack bp L overall ip req) w) ?Q m" by auto
  then show ?thesis by (auto simp: written_def split: task.split if_splits)
qed

end
