(* ===== verification/Mock_Upstream.thy ===== *)
theory Mock_Upstream
  imports Proxy_Accounts
begin

text \<open>
  bin/mock_upstream.rs: the upstream the load tests run against. Its arguments, its route table and
  its handler. The parser of floating point numbers is a parameter; unsigned integers are parsed
  here, as the standard library does.
\<close>

section \<open>Model\<close>

fun parse_arg :: "string list \<Rightarrow> string \<Rightarrow> string option" where
  "parse_arg [] flag = None"
| "parse_arg (a # args) flag =
     (if a = flag then (case args of [] \<Rightarrow> None | b # _ \<Rightarrow> Some b) else parse_arg args flag)"

text \<open>\<open>str::parse\<close> for an unsigned integer of \<open>w\<close> bits: an optional plus sign, then digits only.\<close>

definition digit_of :: "char \<Rightarrow> nat option" where
  "digit_of c = (let n = of_char c in if 48 \<le> n \<and> n \<le> 57 then Some (n - 48) else None)"

fun digits :: "nat \<Rightarrow> string \<Rightarrow> nat option" where
  "digits acc [] = Some acc"
| "digits acc (c # cs) = (case digit_of c of None \<Rightarrow> None | Some d \<Rightarrow> digits (10 * acc + d) cs)"

definition parse_uint :: "nat \<Rightarrow> string \<Rightarrow> nat option" where
  "parse_uint w s =
     (let ds = (case s of [] \<Rightarrow> [] | c # cs \<Rightarrow> if c = CHR ''+'' then cs else s) in
      if ds = [] then None
      else case digits 0 ds of None \<Rightarrow> None | Some n \<Rightarrow> if n < 2 ^ w then Some n else None)"

text \<open>Arguments: a flag's value or its default text, then parsed; what does not parse panics.\<close>

record mock_config =
  mock_delay_ms :: u64
  mock_body :: string
  mock_fail_rate :: f64

definition arg_or :: "string list \<Rightarrow> string \<Rightarrow> string \<Rightarrow> string" where
  "arg_or args flag default_text = (case parse_arg args flag of Some v \<Rightarrow> v | None \<Rightarrow> default_text)"

definition mock_args :: "(string \<Rightarrow> f64 option) \<Rightarrow> string list \<Rightarrow> (u16 \<times> mock_config) outcome" where
  "mock_args parse_f64 args =
     outcome_bind (some_or_panic (parse_arg args ''--port'')) (\<lambda>port_text.
     outcome_bind (some_or_panic (parse_uint 16 port_text)) (\<lambda>port.
     outcome_bind (some_or_panic (parse_uint 64 (arg_or args ''--delay-ms'' ''0''))) (\<lambda>delay_ms.
     outcome_bind (some_or_panic (parse_uint 64 (arg_or args ''--body-size'' ''256''))) (\<lambda>body_size.
     outcome_bind (some_or_panic (parse_f64 (arg_or args ''--fail-rate'' ''0.0''))) (\<lambda>fail_rate.
       Val (of_nat port,
            \<lparr>mock_delay_ms = of_nat delay_ms, mock_body = replicate body_size (CHR ''x''),
             mock_fail_rate = fail_rate\<rparr>))))))"

text \<open>The handler: a roll of the dice where failures are wanted, the delay, the body. Its only
  question is a sleep, its reading the roll.\<close>

definition mock_body_response :: "mock_config \<Rightarrow> ('s, duration, f64, nat \<times> string) task" where
  "mock_body_response cfg =
     (if 0 < mock_delay_ms cfg
      then await (from_millis (mock_delay_ms cfg)) (\<lambda>_. ()) (\<lambda>_. Return (200, mock_body cfg))
      else Return (200, mock_body cfg))"

definition mock_handler :: "mock_config \<Rightarrow> ('s, duration, f64, nat \<times> string) task" where
  "mock_handler cfg =
     (if f64_less (Fin 0) (mock_fail_rate cfg) then
        given (\<lambda>e. e) (\<lambda>roll.
          if f64_less roll (mock_fail_rate cfg) then Return (500, ''error'')
          else mock_body_response cfg)
      else mock_body_response cfg)"

definition mock_app :: "mock_config \<Rightarrow> string \<Rightarrow> ('s, duration, f64, nat \<times> string) task" where
  "mock_app cfg path = (if path = ''/health'' then Return (200, ''ok'') else mock_handler cfg)"

section \<open>Parsing what was printed\<close>

lemma digits_append: "digits acc (xs @ ys) = Option.bind (digits acc xs) (\<lambda>n. digits n ys)"
  by (induction xs arbitrary: acc) (simp_all split: option.split)

lemma digit_of_decimal: "d < 10 \<Longrightarrow> digit_of (char_of (48 + d)) = Some d"
  by (simp add: digit_of_def)

lemma digits_decimal: "digits 0 (decimal n) = Some n"
proof (induction n rule: decimal.induct)
  case (1 n)
  show ?case
  proof (cases "n < 10")
    case True
    then show ?thesis by (subst decimal.simps) (simp add: digit_of_decimal del: of_char_char_of)
  next
    case False
    with 1 show ?thesis
      by (subst decimal.simps) (simp add: digits_append digit_of_decimal)
  qed
qed

lemma decimal_no_sign: "hd (decimal n) \<noteq> CHR ''+''"
proof (induction n rule: decimal.induct)
  case (1 n)
  have "char_of (48 + n) \<noteq> CHR ''+''" if "n < 10"
  proof
    assume "char_of (48 + n) = CHR ''+''"
    then have "digit_of (CHR ''+'') = Some n" using digit_of_decimal [OF that] by simp
    then show False by (simp add: digit_of_def)
  qed
  with 1 show ?case by (subst decimal.simps) simp
qed

lemma parse_uint_decimal:
  "parse_uint w (decimal n) = (if n < 2 ^ w then Some n else None)"
proof -
  obtain c cs where d: "decimal n = c # cs" by (cases "decimal n") auto
  have "c \<noteq> CHR ''+''" using decimal_no_sign [of n] d by simp
  moreover have "digits 0 (c # cs) = Some n" using digits_decimal [of n] d by simp
  ultimately show ?thesis by (simp add: parse_uint_def d del: digits.simps)
qed

text \<open>No program name, and no printed number, is taken for a flag.\<close>

lemma no_flag: "take 2 a \<noteq> ''--'' \<Longrightarrow> take 2 flag = ''--'' \<Longrightarrow> a \<noteq> flag"
  by auto

lemma decimal_no_flag: "take 2 (decimal n) \<noteq> ''--''"
proof
  assume t: "take 2 (decimal n) = ''--''"
  then obtain cs where "decimal n = CHR ''-'' # cs" by (cases "decimal n") auto
  with digits_decimal [of n] show False by (simp add: digit_of_def)
qed

section \<open>Properties\<close>



text \<open>Property C39. Started with a port alone, the mock upstream listens there and answers every path but
  the health check's at once with 200 and 256 bytes, whatever the dice say; the health check is
  always fine.\<close>

theorem mock_defaults:
  assumes "parse_f64 ''0.0'' = Some (Fin 0)" and "take 2 program \<noteq> ''--''" and "port < 2 ^ 16"
  shows "\<exists>cfg. mock_args parse_f64 [program, ''--port'', decimal port] = Val (of_nat port, cfg) \<and>
    mock_app cfg path =
      (if path = ''/health'' then Return (200, ''ok'') else Return (200, replicate 256 (CHR ''x'')))"
proof -
  have args: "parse_arg [program, ''--port'', decimal port] ''--port'' = Some (decimal port)"
    "parse_arg [program, ''--port'', decimal port] ''--delay-ms'' = None"
    "parse_arg [program, ''--port'', decimal port] ''--body-size'' = None"
    "parse_arg [program, ''--port'', decimal port] ''--fail-rate'' = None"
    using no_flag [OF assms(2)] no_flag [OF decimal_no_flag] by simp_all
  have nums: "parse_uint 64 ''0'' = Some 0" "parse_uint 64 ''256'' = Some 256"
    by (simp_all add: parse_uint_def digit_of_def)
  let ?cfg = "\<lparr>mock_delay_ms = 0, mock_body = replicate 256 (CHR ''x''), mock_fail_rate = Fin 0\<rparr>"
  have "mock_args parse_f64 [program, ''--port'', decimal port] = Val (of_nat port, ?cfg)"
    using assms(1,3)
    by (simp add: mock_args_def arg_or_def args nums parse_uint_decimal some_or_panic_def del: parse_arg.simps)
  then show ?thesis
    by (auto simp: mock_app_def mock_handler_def mock_body_response_def f64_less_def)
qed

theorem mock_defaults_witness:
  "\<exists>cfg. mock_args (\<lambda>s. Some (Fin 0)) [''mock'', ''--port'', ''9001''] = Val (9001, cfg) \<and>
    mock_app cfg ''/users'' = Return (200, replicate 256 (CHR ''x''))"
proof -
  have d: "decimal 9001 = ''9001''" by (simp add: decimal.simps char_of_def bit_Suc_0_iff)
  from mock_defaults [of "\<lambda>s. Some (Fin 0)" "''mock''" 9001 "''/users''"] show ?thesis
    unfolding d by simp
qed

text \<open>With a failure rate the mock fails exactly the requests whose roll is below it, and
  sleeps at most once, for its delay, before an answer that is not a failure.\<close>

lemma mock_handler_outcome:
  assumes "final (mock_handler cfg) [(s, Go roll), (s', Go e)] = Return (code, body)"
  shows "code = (if f64_less (Fin 0) (mock_fail_rate cfg) \<and> f64_less roll (mock_fail_rate cfg) then 500 else 200) \<and>
    asked (mock_handler cfg) [(s, Go roll), (s', Go e)] =
      (if code = 200 \<and> 0 < mock_delay_ms cfg then [from_millis (mock_delay_ms cfg)] else [])"
  using assms
  by (auto simp: mock_handler_def mock_body_response_def task_ops final_def asked_def split: if_splits)

end
