(* ===== verification/Spec2Isabelle.thy ===== *)
theory Spec2Isabelle
  imports System Request_Bound Policies Mock_Upstream
begin

text \<open>
  A verification library for the layer 7 reverse proxy under src/.

  THE PROGRAM. The proxy reads a configuration (config.rs), builds a route table with one load
  balancer per route (router.rs, balancer.rs) and serves every connection with a stack of services
  (server.rs, middleware.rs): the client's address is noted, the request is logged, the rate limiter
  asked (rate_limiter.rs), the overall timeout armed, and the handler run (proxy.rs). The handler
  picks the route by the longest prefix, reads the body, asks the balancer for a start in the pool,
  and tries upstreams in rotation; it skips those the health tracker holds for unhealthy
  (health.rs), asks the retry budget before a retry (retry_budget.rs), sleeps for the backoff, and
  notes each outcome in the tracker and the metrics (metrics.rs). Beside the requests run the active
  health checker (health_check.rs), the task that reloads the configuration on SIGHUP
  (config_reloader.rs) and the metrics endpoint. All of them share one state (state.rs).
  bin/mock_upstream.rs is the upstream the load tests use.

  THE MODEL. A component is a record and functions from its state (and the clock readings it makes)
  to the new state and a result. A result is an \<open>outcome\<close>: a value or the Rust panic that takes its
  place; errors of the program are sums or data of their own. Machine integers are words; \<open>f64\<close> is
  binary64 over the rationals, with infinities and NaN. Checked arithmetic depends on the build
  profile, so it is a parameter: what is proved holds of debug and of release builds.
  Asynchronous code is a \<open>task\<close> (Task): a tree of atomic accesses to the shared state and of awaits.
  An access is one lock section, one atomic operation, one load or store of an \<open>ArcSwap\<close> or one
  reading of the clock; between any two of them other tasks may run. An await carries the deadlines
  of the timeouts around it and what is left to run when one passes and the future is dropped.
  Whatever comes from outside (times, random numbers, replies, files) is a \<open>reading\<close>. A run follows
  a script in which the environment chooses the state each access finds, or, with \<open>interleave\<close> and
  \<open>reachable\<close>, tasks share one state and are stepped in any order.

  THE THEORIES, and what the lemmas of each show.
  \<^item> Prelude: integer types, outcomes, checked arithmetic and indexing, \<open>run\<close> of a step function; the
    locales \<open>preserves\<close> (an invariant) and \<open>simulation\<close> (a refinement) that the components interpret.
  \<^item> F64, Clock, Net_Addr, Sip_Hash: the standard library as the program uses it: binary64 with
    rounding to nearest even (locale \<open>rounding\<close>), \<open>Duration\<close> and \<open>Instant\<close>, the text of an IP address,
    the default hasher.
  \<^item> Config: the structs of config.rs, the default functions, deserialisation from optional fields.
  \<^item> Balancer: the four strategies and the factory. Locale \<open>sorted_search\<close> is what the hash ring needs
    of the binary search, \<open>picker\<close> what the handler needs of a strategy. Fairness, exact proportions,
    first minimum, ring successor, minimal disruption; when a balancer panics.
  \<^item> Router: longest-prefix matching and the table of a configuration.
  \<^item> Errors, Metrics: error responses; metric declarations and samples.
  \<^item> Health: the tracker, a refinement of a circuit breaker that counts without a cap.
  \<^item> Rate_Limiter: token buckets; tokens stay in bounds, bursts are exact and isolated per address,
    when the sweep of idle buckets is invisible and when it is not.
  \<^item> Retry_Budget: a refinement of the count over the whole history; the allowance is exact.
  \<^item> Task: tasks, runs, and a program logic \<open>wp\<close> whose monitors watch questions (\<open>ask_monitor\<close>) or
    effects (\<open>effect_monitor\<close>), each with its soundness theorem for every run.
  \<^item> Http: the part of the http crate that is called, as a record of functions, with the laws relied
    on (\<open>http_laws\<close>: lookup after insert and remove, text round trips) and an instance of them.
  \<^item> App_State: AppState and the awaits. The route tables live in a heap because a request keeps
    the table it loaded across a reload.
  \<^item> Proxy: proxy.rs. Proxy_Runs: what a request asks and answers. Proxy_Accounts: what it leaves in
    the shared state (locale \<open>account\<close>, interpreted for samples, for requests in flight and, in
    Policies, for log lines).
  \<^item> Middleware: the five services and the stack. Config_Reloader, Health_Check: the background tasks.
  \<^item> Scenario: a concrete proxy and request, run step by step for the witnesses.
  \<^item> Stack, Policies: what holds of a request through all layers: where it is sent and with which
    headers, its delays, its answer, its deadline, its samples, its line in the log, which upstreams
    and retries the tracker and the budget rule out; what a reload does; requests in flight.
  \<^item> Server: server.rs and main.rs, with the shutdown.
  \<^item> Secure (locale \<open>evolution\<close>), State_Invariant, Safety, System: an invariant of the shared state
    that every access keeps, and that no task of the whole program ever panics.
  \<^item> Bounded, Request_Bound: the number of steps of a request.
  \<^item> Mock_Upstream: the test upstream and its arguments.

  BOUNDS. The two loops that never end, of the health checker and the reloader, are modelled for any
  number of rounds (\<open>rounds\<close>, \<open>reloads\<close>): what is proved for every number holds at every moment of
  the endless loop. No other definition has fuel. A request with pools of at most \<open>b\<close> upstreams ends
  after \<open>11 * b + 19\<close> steps: at most \<open>b\<close> to ask the tracker, ten for each attempt, and those of the
  layers. \<open>bootable\<close> asks of a configuration at least one upstream per route, usable weights, at most
  32 retries and a base delay of at most \<open>2 ^ 31\<close> ms (then neither the shift nor the delay overflows,
  whatever the profile), a threshold below \<open>u32::MAX\<close> and a window the clock can go back;
  \<open>sane_reading\<close> asks that the monotonic clock does not read before its origin.

  NOT MODELLED. lib.rs declares the modules only. Log output other than the line per request of the
  logging layer is left out; so is \<open>poll_ready\<close>, which only forwards. Third-party code appears through
  parameters and readings alone: the YAML parser (\<open>parse\<close>), the prometheus text encoder
  (\<open>encode\<close>), the float parser, header maps and URIs (\<open>http\<close>), the order of a \<open>HashSet\<close>, sockets
  and files (\<open>os\<close>), and the hyper and axum servers with TLS and connection pooling: their wire
  behaviour and their own failures after start-up (the \<open>unwrap\<close> of \<open>from_tcp\<close> and of the metrics
  server's future) are not part of the claim that the program does not panic. The scan of least
  connections reads its counters in one access, where the code loads them one by one. Memory and
  integer counters of the metrics are unbounded. Tests, benches, scripts and deployment files are
  not code of the proxy.
\<close>

end
